(* ===== verification/Prelude.thy ===== *)
theory Prelude
  imports Main "HOL-Library.Word"
begin

text \<open>
  Shared vocabulary of the development: the machine integers of the Rust sources, the
  \<open>Result\<close> combinators behind the \<open>?\<close> operator, the checked and saturating
  arithmetic of \<open>u64\<close>, and the generic facts on lists, sums and relations the component
  theories use.  Nothing here is specific to Abacus.
\<close>

unbundle bit_operations_syntax

section \<open>Machine integers\<close>

type_synonym u8 = "8 word"
type_synonym u16 = "16 word"
type_synonym u32 = "32 word"
type_synonym u64 = "64 word"

text \<open>
  A Rust \<open>i64\<close> (\<open>time_t\<close> and \<open>c_long\<close> on the Linux targets) is the same 64 bits
  read through \<^const>\<open>sint\<close>, and an \<open>i32\<close> the same 32 bits.  An \<open>errno\<close> (\<open>i32\<close>) is only ever stored,
  compared and printed, so it is an unbounded integer; a \<open>usize\<close> counts bytes or list
  elements and is a natural number.
\<close>

type_synonym i64 = "64 word"
type_synonym i32 = "32 word"
type_synonym errno = int
type_synonym usize = nat

section \<open>Collections of facts\<close>

named_theorems result_simps \<open>equations of the Result combinators\<close>
named_theorems codec_simps \<open>equations of the byte-level encoders and decoders\<close>
named_theorems shm_simps \<open>equations of loads, stores and futex wakes on shared memory\<close>

section \<open>Result combinators\<close>

text \<open>
  \<open>Result<T, E>\<close> is \<open>'e + 'a\<close> with \<^const>\<open>Inl\<close> for \<open>Err\<close>.
  \<open>and_then m f\<close> is \<open>m? ; f\<close>, \<open>map_err\<close> and \<open>ok_or\<close> are the methods of the
  same names.
\<close>

fun and_then :: "'e + 'a \<Rightarrow> ('a \<Rightarrow> 'e + 'b) \<Rightarrow> 'e + 'b" where
  "and_then (Inl e) f = Inl e"
| "and_then (Inr x) f = f x"

fun map_err :: "('e \<Rightarrow> 'f) \<Rightarrow> 'e + 'a \<Rightarrow> 'f + 'a" where
  "map_err g (Inl e) = Inl (g e)"
| "map_err g (Inr x) = Inr x"

fun ok_or :: "'a option \<Rightarrow> 'e \<Rightarrow> 'e + 'a" where
  "ok_or None e = Inl e"
| "ok_or (Some x) e = Inr x"

declare and_then.simps [result_simps] map_err.simps [result_simps] ok_or.simps [result_simps]

lemma and_then_cong [fundef_cong]:
  assumes "m = m'" and "\<And>x. m' = Inr x \<Longrightarrow> f x = f' x"
  shows "and_then m f = and_then m' f'"
  using assms by (cases m') auto

lemma and_then_eq_Inr [simp]:
  "and_then m f = Inr y \<longleftrightarrow> (\<exists>x. m = Inr x \<and> f x = Inr y)"
  by (cases m) auto

lemma and_then_eq_Inl:
  "and_then m f = Inl e \<longleftrightarrow> m = Inl e \<or> (\<exists>x. m = Inr x \<and> f x = Inl e)"
  by (cases m) auto

lemma map_err_eq_Inr [simp]: "map_err g m = Inr x \<longleftrightarrow> m = Inr x"
  by (cases m) auto

lemma map_err_eq_Inl [simp]: "map_err g m = Inl e \<longleftrightarrow> (\<exists>e'. m = Inl e' \<and> e = g e')"
  by (cases m) auto

lemma ok_or_eq_Inr [simp]: "ok_or x e = Inr y \<longleftrightarrow> x = Some y"
  by (cases x) auto

lemma ok_or_eq_Inl [simp]: "ok_or x e = Inl e' \<longleftrightarrow> x = None \<and> e' = e"
  by (cases x) auto

section \<open>Integer methods of u64\<close>

definition checked_mul_u64 :: "u64 \<Rightarrow> u64 \<Rightarrow> u64 option" where
  "checked_mul_u64 a b = (if unat a * unat b < 2 ^ 64 then Some (a * b) else None)"

definition checked_add_u64 :: "u64 \<Rightarrow> u64 \<Rightarrow> u64 option" where
  "checked_add_u64 a b = (if unat a + unat b < 2 ^ 64 then Some (a + b) else None)"

definition saturating_mul_u64 :: "u64 \<Rightarrow> u64 \<Rightarrow> u64" where
  "saturating_mul_u64 a b = (case checked_mul_u64 a b of Some c \<Rightarrow> c | None \<Rightarrow> - 1)"

definition saturating_add_u64 :: "u64 \<Rightarrow> u64 \<Rightarrow> u64" where
  "saturating_add_u64 a b = (case checked_add_u64 a b of Some c \<Rightarrow> c | None \<Rightarrow> - 1)"

definition saturating_sub_u64 :: "u64 \<Rightarrow> u64 \<Rightarrow> u64" where
  "saturating_sub_u64 a b = (if b \<le> a then a - b else 0)"

lemma unat_max_u64 [simp]: "unat (- 1 :: u64) = 2 ^ 64 - 1"
  by (simp add: unsigned_minus_1_eq_mask mask_eq_exp_minus_1)

lemma unat_u64_bound: "unat (a :: u64) < 2 ^ 64"
  by (rule order_less_le_trans [OF unsigned_less]) simp

lemma u64_le_max [simp]: "(a :: u64) \<le> - 1"
  by (simp add: word_le_nat_alt) (use unat_u64_bound [of a] in simp)

lemma u64_max_le_iff [simp]: "(- 1 :: u64) \<le> a \<longleftrightarrow> a = - 1"
  using u64_le_max [of a] by (metis order.antisym order.refl)

lemma unat_mult_u64: "unat a * unat b < 2 ^ 64 \<Longrightarrow> unat (a * b :: u64) = unat a * unat b"
  by (simp add: unat_word_ariths)

lemma unat_plus_u64: "unat a + unat b < 2 ^ 64 \<Longrightarrow> unat (a + b :: u64) = unat a + unat b"
  by (simp add: unat_word_ariths)

lemma u64_add_wraps:
  assumes "2 ^ 64 \<le> unat a + unat b"
  shows "a + b < (a :: u64)"
proof -
  have "unat (a + b) = unat a + unat b - 2 ^ 64"
    using assms unat_u64_bound [of a] unat_u64_bound [of b]
    by (simp add: unat_word_ariths mod_if)
  then show ?thesis using unat_u64_bound [of b] assms by (simp add: word_less_nat_alt)
qed

lemma unat_ucast_u32: "unat (ucast (w :: u64) :: u32) = unat w mod 2 ^ 32"
  by (simp add: unsigned_ucast_eq take_bit_eq_mod)

lemma checked_mul_u64_Some:
  "checked_mul_u64 a b = Some c \<longleftrightarrow> unat a * unat b < 2 ^ 64 \<and> unat c = unat a * unat b"
  by (auto simp: checked_mul_u64_def unat_mult_u64 word_unat_eq_iff)

lemma checked_add_u64_Some:
  "checked_add_u64 a b = Some c \<longleftrightarrow> unat a + unat b < 2 ^ 64 \<and> unat c = unat a + unat b"
  by (auto simp: checked_add_u64_def unat_plus_u64 word_unat_eq_iff)

lemma unat_saturating_mul_u64:
  "unat (saturating_mul_u64 a b) = min (unat a * unat b) (2 ^ 64 - 1)"
  by (auto simp: saturating_mul_u64_def checked_mul_u64_def unat_mult_u64)

lemma unat_saturating_add_u64:
  "unat (saturating_add_u64 a b) = min (unat a + unat b) (2 ^ 64 - 1)"
  by (auto simp: saturating_add_u64_def checked_add_u64_def unat_plus_u64)

lemma unat_saturating_sub_u64:
  "unat (saturating_sub_u64 a b) = unat a - unat b"
  by (auto simp: saturating_sub_u64_def word_le_nat_alt unat_sub)

text \<open>Rounding a quotient up.\<close>

lemma ceil_div_bounds:
  fixes d k m :: nat
  assumes "k = Suc m"
  shows "d \<le> (d + m) div k * k" and "(d + m) div k * k < d + k"
proof -
  have "(d + m) div k * k + (d + m) mod k = d + m" by (rule div_mult_mod_eq)
  moreover have "(d + m) mod k < k" using assms by simp
  ultimately show "d \<le> (d + m) div k * k" and "(d + m) div k * k < d + k"
    using assms by linarith+
qed

section \<open>Lists\<close>

lemma take_drop_slice: "length pre = i \<Longrightarrow> length xs = n \<Longrightarrow> take n (drop i (pre @ xs @ post)) = xs"
  by simp

lemma drop_append_here: "length pre = i \<Longrightarrow> drop i (pre @ xs) = xs"
  by simp

lemma nth_append_here: "length pre = i \<Longrightarrow> (pre @ x # post) ! i = x"
  by auto

section \<open>Loops over a schedule\<close>

text \<open>
  A loop whose rounds each take something from outside (a clock reading, what other threads
  do meanwhile): a round either goes on with a new state or ends with a result.  \<^const>\<open>None\<close>
  is a loop still running when the schedule is used up.
\<close>

fun run_rounds :: "('x \<Rightarrow> 's \<Rightarrow> 's + 'r \<times> 's) \<Rightarrow> 'x list \<Rightarrow> 's \<Rightarrow> 'r option \<times> 's" where
  "run_rounds f [] s = (None, s)"
| "run_rounds f (x # xs) s =
     (case f x s of Inl s' \<Rightarrow> run_rounds f xs s' | Inr (r, s') \<Rightarrow> (Some r, s'))"

lemma run_rounds_append:
  "run_rounds f (xs @ ys) s =
     (case run_rounds f xs s of (None, s') \<Rightarrow> run_rounds f ys s' | (Some r, s') \<Rightarrow> (Some r, s'))"
  by (induction xs arbitrary: s) (auto split: sum.splits)

text \<open>An invariant of the rounds that go on, and what the last round ensures under it.\<close>

lemma run_rounds_rule:
  assumes "run_rounds f xs s = (out, t)" and "I s"
    and "\<And>x s s'. x \<in> set xs \<Longrightarrow> I s \<Longrightarrow> f x s = Inl s' \<Longrightarrow> I s'"
    and "\<And>x s r s'. x \<in> set xs \<Longrightarrow> I s \<Longrightarrow> f x s = Inr (r, s') \<Longrightarrow> Q r s'"
  shows "case out of None \<Rightarrow> I t | Some r \<Rightarrow> Q r t"
  using assms
proof (induction xs arbitrary: s)
  case Nil
  then show ?case by auto
next
  case (Cons x xs)
  show ?case
  proof (cases "f x s")
    case (Inl s')
    with Cons.prems(1) have run: "run_rounds f xs s' = (out, t)" by simp
    have "I s'" by (rule Cons.prems(3) [OF _ Cons.prems(2) Inl]) simp
    show ?thesis
      by (rule Cons.IH [OF run \<open>I s'\<close>])
         (erule (2) Cons.prems(3) [OF list.set_intros(2)], erule (2) Cons.prems(4) [OF list.set_intros(2)])
  next
    case (Inr rs)
    then obtain r where rs: "f x s = Inr (r, t)" "out = Some r"
      using Cons.prems(1) by (cases rs) auto
    have "Q r t" by (rule Cons.prems(4) [OF _ Cons.prems(2) rs(1)]) simp
    with rs(2) show ?thesis by simp
  qed
qed

text \<open>A loop that has ended did so in one round, from the state that the rounds before it left.\<close>

lemma run_rounds_last:
  "run_rounds f xs s = (Some r, t) \<Longrightarrow>
     \<exists>pre x post u. xs = pre @ x # post \<and> run_rounds f pre s = (None, u) \<and> f x u = Inr (r, t)"
proof (induction xs arbitrary: s)
  case (Cons x xs)
  show ?case
  proof (cases "f x s")
    case (Inl s')
    with Cons.prems have "run_rounds f xs s' = (Some r, t)" by simp
    from Cons.IH [OF this] obtain pre y post u where
      "xs = pre @ y # post" "run_rounds f pre s' = (None, u)" "f y u = Inr (r, t)" by blast
    with Inl show ?thesis by (intro exI [of _ "x # pre"] exI [of _ y] exI [of _ post] exI [of _ u]) simp
  next
    case (Inr p)
    with Cons.prems show ?thesis
      by (intro exI [of _ "[]"] exI [of _ x] exI [of _ xs] exI [of _ s]) (cases p, simp)
  qed
qed simp

text \<open>The state that a round leaves, whether it is the last one or not.\<close>

fun left_state :: "'s + 'r \<times> 's \<Rightarrow> 's" where
  "left_state (Inl s) = s"
| "left_state (Inr (r, s)) = s"

lemma run_rounds_preorder:
  assumes "\<And>x s. x \<in> set xs \<Longrightarrow> R s (left_state (f x s))"
    and "\<And>s. R s s" and "\<And>s t u. R s t \<Longrightarrow> R t u \<Longrightarrow> R s u"
  shows "R s (snd (run_rounds f xs s))"
  using assms(1)
proof (induction xs arbitrary: s)
  case Nil
  then show ?case by (simp add: assms(2))
next
  case (Cons x xs)
  have x: "R s (left_state (f x s))" by (rule Cons.prems) simp
  show ?case
  proof (cases "f x s")
    case (Inl s')
    with x Cons.IH [of s'] Cons.prems show ?thesis by (auto intro: assms(3))
  next
    case (Inr p)
    with x show ?thesis by (cases p) simp
  qed
qed

text \<open>A round that ends whatever the state is the last one at most.\<close>

lemma run_rounds_ends:
  assumes "x \<in> set xs" and "\<And>s. \<exists>r. f x s = Inr r"
  shows "fst (run_rounds f xs s) \<noteq> None"
  using assms(1)
proof (induction xs arbitrary: s)
  case (Cons y ys)
  then show ?case
    using assms(2) [of s] by (cases "y = x") (auto split: sum.splits)
qed simp

section \<open>Runs of a step relation\<close>

text \<open>
  The interface every guarantee argument of the development uses: a step relation each of
  whose steps satisfies a reflexive, transitive guarantee satisfies it over any run, and an
  invariant each step keeps holds in every state of a run.
\<close>

locale step_guarantee =
  fixes step :: "'s \<Rightarrow> 's \<Rightarrow> bool"
    and inv :: "'s \<Rightarrow> bool"
    and guar :: "'s \<Rightarrow> 's \<Rightarrow> bool"
  assumes guar_refl: "inv s \<Longrightarrow> guar s s"
    and guar_trans: "guar s t \<Longrightarrow> guar t u \<Longrightarrow> guar s u"
    and step_inv: "inv s \<Longrightarrow> step s t \<Longrightarrow> inv t"
    and step_guar: "inv s \<Longrightarrow> step s t \<Longrightarrow> guar s t"
begin

lemma run_inv: "step\<^sup>*\<^sup>* s t \<Longrightarrow> inv s \<Longrightarrow> inv t"
  by (induction rule: rtranclp_induct) (auto intro: step_inv)

lemma run_guar: "step\<^sup>*\<^sup>* s t \<Longrightarrow> inv s \<Longrightarrow> guar s t"
proof (induction rule: rtranclp_induct)
  case base
  then show ?case by (rule guar_refl)
next
  case (step t u)
  then show ?case by (blast intro: guar_trans step_guar run_inv)
qed

end

end
