(* ===== verification/Bytes.thy ===== *)
theory Bytes
  imports Prelude
begin

text \<open>
  The parts of the Rust standard library the wire format rests on: \<open>to_le_bytes\<close> and
  \<open>from_le_bytes\<close> of the fixed-width integers, \<open>String::as_bytes\<close> and
  \<open>String::from_utf8\<close>, and the decimal and hexadecimal output of \<open>format!\<close>.
\<close>

section \<open>Little-endian integers\<close>

fun le_bytes :: "nat \<Rightarrow> 'a::len word \<Rightarrow> u8 list" where
  "le_bytes 0 w = []"
| "le_bytes (Suc n) w = ucast w # le_bytes n (drop_bit 8 w)"

fun le_word :: "u8 list \<Rightarrow> 'a::len word" where
  "le_word [] = 0"
| "le_word (b # bs) = ucast b OR push_bit 8 (le_word bs)"

lemma length_le_bytes [simp]: "length (le_bytes n w) = n"
  by (induction n arbitrary: w) auto

lemma le_word_le_bytes: "le_word (le_bytes n w) = take_bit (8 * n) w"
proof (induction n arbitrary: w)
  case 0
  then show ?case by simp
next
  case (Suc n)
  show ?case
    by (rule bit_word_eqI)
       (auto simp: Suc.IH bit_simps)
qed

lemma bit_le_word: "bit (le_word bs :: 'a::len word) i \<Longrightarrow> i < 8 * length bs"
proof (induction bs arbitrary: i)
  case Nil
  then show ?case by simp
next
  case (Cons b bs)
  from Cons.prems consider "bit b i" | "8 \<le> i" "bit (le_word bs :: 'a word) (i - 8)"
    by (auto simp: bit_simps)
  then show ?case
    using Cons.IH [of "i - 8"] by cases (auto dest!: bit_imp_le_length)
qed

lemma le_bytes_le_word:
  "8 * length bs \<le> LENGTH('a) \<Longrightarrow> le_bytes (length bs) (le_word bs :: 'a::len word) = bs"
proof (induction bs)
  case Nil
  then show ?case by simp
next
  case (Cons b bs)
  let ?w = "le_word bs :: 'a word"
  have "ucast (ucast b OR push_bit 8 ?w :: 'a word) = b"
    using Cons.prems by (intro bit_word_eqI) (auto simp: bit_simps)
  moreover have "drop_bit 8 (ucast b OR push_bit 8 ?w :: 'a word) = ?w"
  proof (rule bit_word_eqI)
    fix n
    show "bit (drop_bit 8 (ucast b OR push_bit 8 ?w :: 'a word)) n = bit ?w n"
      using Cons.prems bit_le_word [of bs n, where 'a = 'a]
      by (auto simp: bit_simps dest: bit_imp_le_length)
  qed
  ultimately show ?case using Cons by simp
qed

definition u16_to_le_bytes :: "u16 \<Rightarrow> u8 list" where
  "u16_to_le_bytes w = le_bytes 2 w"

definition u16_from_le_bytes :: "u8 list \<Rightarrow> u16" where
  "u16_from_le_bytes bs = le_word bs"

definition u32_to_le_bytes :: "u32 \<Rightarrow> u8 list" where
  "u32_to_le_bytes w = le_bytes 4 w"

definition u32_from_le_bytes :: "u8 list \<Rightarrow> u32" where
  "u32_from_le_bytes bs = le_word bs"

definition u64_to_le_bytes :: "u64 \<Rightarrow> u8 list" where
  "u64_to_le_bytes w = le_bytes 8 w"

definition u64_from_le_bytes :: "u8 list \<Rightarrow> u64" where
  "u64_from_le_bytes bs = le_word bs"

text \<open>
  What the wire format needs of an integer encoding: a fixed width and a left inverse.  The
  three widths of the protocol are its interpretations.
\<close>

locale fixed_width_codec =
  fixes to_le :: "'w \<Rightarrow> u8 list"
    and from_le :: "u8 list \<Rightarrow> 'w"
    and width :: nat
  assumes length_to_le: "length (to_le w) = width"
    and from_to_le: "from_le (to_le w) = w"
begin

lemma read_here: "from_le (take width (to_le w @ rest)) = w"
  by (simp add: length_to_le from_to_le)

lemma read_at: "length pre = pos \<Longrightarrow> from_le (take width (drop pos (pre @ to_le w @ rest))) = w"
  by (simp add: length_to_le from_to_le)

lemma skip_here: "drop width (to_le w @ rest) = rest"
  by (simp add: length_to_le)

lemma to_le_inject: "to_le v = to_le w \<longleftrightarrow> v = w"
  by (metis from_to_le)

end

text \<open>Every list of that width is an encoding, too: decoding loses nothing.\<close>

locale exact_codec = fixed_width_codec +
  assumes to_from_le: "length bs = width \<Longrightarrow> to_le (from_le bs) = bs"
begin

lemma from_le_inject: "length as = width \<Longrightarrow> length bs = width \<Longrightarrow> from_le as = from_le bs \<longleftrightarrow> as = bs"
  by (metis to_from_le)

lemma take_split: "width \<le> length bs \<Longrightarrow> bs = to_le (from_le (take width bs)) @ drop width bs"
  by (simp add: to_from_le)

end

interpretation le16: exact_codec u16_to_le_bytes u16_from_le_bytes 2
proof
  fix bs :: "u8 list"
  show "length bs = 2 \<Longrightarrow> u16_to_le_bytes (u16_from_le_bytes bs) = bs"
    using le_bytes_le_word [of bs, where 'a = 16]
    by (simp add: u16_to_le_bytes_def u16_from_le_bytes_def)
qed (simp_all add: u16_to_le_bytes_def u16_from_le_bytes_def le_word_le_bytes take_bit_word_eq_self)

interpretation le32: exact_codec u32_to_le_bytes u32_from_le_bytes 4
proof
  fix bs :: "u8 list"
  show "length bs = 4 \<Longrightarrow> u32_to_le_bytes (u32_from_le_bytes bs) = bs"
    using le_bytes_le_word [of bs, where 'a = 32]
    by (simp add: u32_to_le_bytes_def u32_from_le_bytes_def)
qed (simp_all add: u32_to_le_bytes_def u32_from_le_bytes_def le_word_le_bytes take_bit_word_eq_self)

interpretation le64: exact_codec u64_to_le_bytes u64_from_le_bytes 8
proof
  fix bs :: "u8 list"
  show "length bs = 8 \<Longrightarrow> u64_to_le_bytes (u64_from_le_bytes bs) = bs"
    using le_bytes_le_word [of bs, where 'a = 64]
    by (simp add: u64_to_le_bytes_def u64_from_le_bytes_def)
qed (simp_all add: u64_to_le_bytes_def u64_from_le_bytes_def le_word_le_bytes take_bit_word_eq_self)

lemmas le_length [simp] = le16.length_to_le le32.length_to_le le64.length_to_le

declare le16.from_to_le [simp] le32.from_to_le [simp] le64.from_to_le [simp]

lemmas le_read [codec_simps] =
  le16.from_to_le le32.from_to_le le64.from_to_le le16.read_here le32.read_here le64.read_here
  le16.skip_here le32.skip_here le64.skip_here

section \<open>Strings and UTF-8\<close>

text \<open>
  A Rust \<open>String\<close> is a sequence of bytes that is valid UTF-8.  A \<^typ>\<open>char\<close> of HOL is
  one byte, so a \<^typ>\<open>string\<close> holds exactly the bytes of a Rust string; \<open>length\<close> is
  \<open>String::len\<close>, which counts bytes.  That the bytes are valid UTF-8 is an invariant of
  the Rust type, \<open>utf8_string\<close> here; \<open>from_utf8\<close> checks it as
  \<open>String::from_utf8\<close> does (the table of well-formed byte sequences of the Unicode
  standard: no overlong forms, no surrogates, nothing above U+10FFFF).
\<close>

definition as_bytes :: "string \<Rightarrow> u8 list" where
  "as_bytes s = map of_char s"

definition string_of_bytes :: "u8 list \<Rightarrow> string" where
  "string_of_bytes bs = map (\<lambda>b. char_of (unat b)) bs"

definition utf8_cont :: "u8 \<Rightarrow> bool" where
  "utf8_cont b \<longleftrightarrow> 0x80 \<le> b \<and> b \<le> 0xBF"

text \<open>\<open>utf8_second a b\<close>: may \<open>b\<close> follow the lead byte \<open>a\<close> of a sequence of three or four?\<close>

definition utf8_second :: "u8 \<Rightarrow> u8 \<Rightarrow> bool" where
  "utf8_second a b \<longleftrightarrow>
     (if a = 0xE0 then 0xA0 \<le> b \<and> b \<le> 0xBF
      else if a = 0xED then 0x80 \<le> b \<and> b \<le> 0x9F
      else if a = 0xF0 then 0x90 \<le> b \<and> b \<le> 0xBF
      else if a = 0xF4 then 0x80 \<le> b \<and> b \<le> 0x8F
      else utf8_cont b)"

text \<open>The length of the sequence a lead byte announces, 0 for a byte that leads none.\<close>

definition utf8_width :: "u8 \<Rightarrow> nat" where
  "utf8_width a =
     (if a \<le> 0x7F then 1
      else if 0xC2 \<le> a \<and> a \<le> 0xDF then 2
      else if 0xE0 \<le> a \<and> a \<le> 0xEF then 3
      else if 0xF0 \<le> a \<and> a \<le> 0xF4 then 4
      else 0)"

fun utf8_valid :: "u8 list \<Rightarrow> bool" where
  "utf8_valid [] = True"
| "utf8_valid (a # r) =
     (if utf8_width a = 1 then utf8_valid r
      else if utf8_width a = 2 then
        (case r of b # r' \<Rightarrow> utf8_cont b \<and> utf8_valid r' | _ \<Rightarrow> False)
      else if utf8_width a = 3 then
        (case r of b # c # r' \<Rightarrow> utf8_second a b \<and> utf8_cont c \<and> utf8_valid r' | _ \<Rightarrow> False)
      else if utf8_width a = 4 then
        (case r of b # c # d # r' \<Rightarrow>
             utf8_second a b \<and> utf8_cont c \<and> utf8_cont d \<and> utf8_valid r'
         | _ \<Rightarrow> False)
      else False)"

definition from_utf8 :: "u8 list \<Rightarrow> string option" where
  "from_utf8 bs = (if utf8_valid bs then Some (string_of_bytes bs) else None)"

definition utf8_string :: "string \<Rightarrow> bool" where
  "utf8_string s \<longleftrightarrow> utf8_valid (as_bytes s)"

lemma length_as_bytes [simp]: "length (as_bytes s) = length s"
  by (simp add: as_bytes_def)

lemma length_string_of_bytes [simp]: "length (string_of_bytes bs) = length bs"
  by (simp add: string_of_bytes_def)

lemma unat_of_char: "unat (of_char c :: u8) = of_char c"
proof -
  have "(of_char c :: u8) = of_nat (of_char c)"
    by (rule of_nat_of_char [symmetric])
  moreover have "(of_char c :: nat) < 256"
    by (cases c) (auto simp: of_char_def)
  ultimately show ?thesis
    by (simp add: unat_of_nat)
qed

lemma string_of_as_bytes [simp]: "string_of_bytes (as_bytes s) = s"
  by (induction s) (auto simp: string_of_bytes_def as_bytes_def unat_of_char)

lemma as_bytes_string_of [simp]: "as_bytes (string_of_bytes bs) = bs"
proof (induction bs)
  case Nil
  then show ?case by (simp add: string_of_bytes_def as_bytes_def)
next
  case (Cons b bs)
  have "(of_char (char_of (unat b)) :: u8) = b"
  proof (rule word_unat_eq_iff [THEN iffD2])
    have "unat b < 256" using unsigned_less [of b] by (simp add: unat_of_nat)
    then show "unat (of_char (char_of (unat b)) :: u8) = unat b"
      by (simp add: unat_of_char)
  qed
  with Cons.IH show ?case by (simp add: string_of_bytes_def as_bytes_def)
qed

lemma from_utf8_as_bytes [codec_simps]: "utf8_string s \<Longrightarrow> from_utf8 (as_bytes s) = Some s"
  by (simp add: from_utf8_def utf8_string_def)

lemma from_utf8_Some: "from_utf8 bs = Some s \<longleftrightarrow> utf8_string s \<and> as_bytes s = bs"
  by (auto simp: from_utf8_def utf8_string_def)

lemma utf8_valid_ascii: "list_all (\<lambda>b. b \<le> 0x7F) bs \<Longrightarrow> utf8_valid bs"
  by (induction bs) (auto simp: utf8_width_def)

text \<open>A text of ASCII characters only, such as a literal of the sources, is a Rust string.\<close>

definition ascii_string :: "string \<Rightarrow> bool" where
  "ascii_string s \<longleftrightarrow> list_all (\<lambda>c. (of_char c :: nat) < 128) s"

lemma ascii_Nil [simp]: "ascii_string []"
  by (simp add: ascii_string_def)

lemma ascii_Cons [simp]: "ascii_string (c # s) \<longleftrightarrow> (of_char c :: nat) < 128 \<and> ascii_string s"
  by (simp add: ascii_string_def)

lemma ascii_append [simp]: "ascii_string (s @ t) \<longleftrightarrow> ascii_string s \<and> ascii_string t"
  by (simp add: ascii_string_def)

lemma utf8_string_ascii: "ascii_string s \<Longrightarrow> utf8_string s"
  unfolding utf8_string_def
  by (rule utf8_valid_ascii)
     (auto simp: ascii_string_def as_bytes_def list_all_iff word_le_nat_alt unat_of_char)

lemma utf8_valid_append: "utf8_valid xs \<Longrightarrow> utf8_valid ys \<Longrightarrow> utf8_valid (xs @ ys)"
proof (induction xs rule: utf8_valid.induct)
  case 1
  then show ?case by simp
next
  case (2 a r)
  consider "utf8_width a = 1" | "utf8_width a = 2" | "utf8_width a = 3" | "utf8_width a = 4"
    using "2.prems"(1) by (auto split: if_splits)
  then show ?case
  proof cases
    case 1
    with "2.prems" "2.IH"(1) show ?thesis by simp
  next
    case 2
    with "2.prems" "2.IH"(2) show ?thesis by (cases r) auto
  next
    case 3
    with "2.prems" obtain b c r' where "r = b # c # r'" by (auto split: list.splits)
    with 3 "2.prems" "2.IH"(3) show ?thesis by simp
  next
    case 4
    with "2.prems" obtain b c d r' where "r = b # c # d # r'" by (auto split: list.splits)
    with 4 "2.prems" "2.IH"(4) show ?thesis by simp
  qed
qed

lemma utf8_string_append: "utf8_string s \<Longrightarrow> utf8_string t \<Longrightarrow> utf8_string (s @ t)"
  by (simp add: utf8_string_def as_bytes_def utf8_valid_append)

section \<open>Output of format!\<close>

definition digit_char :: "nat \<Rightarrow> char" where
  "digit_char d = (if d < 10 then char_of (48 + d) else char_of (87 + d))"

fun show_nat :: "nat \<Rightarrow> string" where
  "show_nat n = (if n < 10 then [digit_char n] else show_nat (n div 10) @ [digit_char (n mod 10)])"

declare show_nat.simps [simp del]

definition show_int :: "int \<Rightarrow> string" where
  "show_int i = (if i < 0 then ''-'' @ show_nat (nat (- i)) else show_nat (nat i))"

text \<open>\<open>{:02x}\<close> of a byte.\<close>

definition show_hex2 :: "u8 \<Rightarrow> string" where
  "show_hex2 b = [digit_char (unat b div 16), digit_char (unat b mod 16)]"

lemma ascii_digit [simp]: "d < 16 \<Longrightarrow> (of_char (digit_char d) :: nat) < 128"
  by (simp add: digit_char_def)

lemma ascii_show_nat [simp]: "ascii_string (show_nat n)"
proof (induction n rule: show_nat.induct)
  case (1 n)
  show ?case
  proof (cases "n < 10")
    case True
    then show ?thesis by (subst show_nat.simps) (simp add: ascii_digit)
  next
    case False
    with 1 show ?thesis by (subst show_nat.simps) (simp add: ascii_digit)
  qed
qed

lemma ascii_show_int [simp]: "ascii_string (show_int i)"
  by (simp add: show_int_def)

lemma ascii_show_hex2 [simp]: "ascii_string (show_hex2 b)"
proof -
  have "unat b < 256" using unsigned_less [of b] by (simp add: unat_of_nat)
  then have "unat b div 16 < 16" by simp
  then show ?thesis by (simp add: show_hex2_def)
qed

end
