(* ===== verification/Errors.thy ===== *)
theory Errors
  imports Bytes
begin

text \<open>
  The error vocabulary of \<open>abacus-core/src/error.rs\<close>: the conditions of the daemon, the
  faults of the wire protocol, the errors of the transport and of the daemon's start, each
  with the text its \<open>Display\<close> implementation writes.  Those texts travel to clients inside
  error responses, so their length and character set matter to the wire format.
\<close>

section \<open>Daemon conditions\<close>

datatype allocation_step = MemfdCreate | Ftruncate | Mmap

datatype condition =
    InterlockReaped
  | InterlockNotFound string
  | AllocationFailed allocation_step errno
  | InvalidRequest string

fun allocation_step_debug :: "allocation_step \<Rightarrow> string" where
  "allocation_step_debug MemfdCreate = ''MemfdCreate''"
| "allocation_step_debug Ftruncate = ''Ftruncate''"
| "allocation_step_debug Mmap = ''Mmap''"

fun condition_display :: "condition \<Rightarrow> string" where
  "condition_display InterlockReaped = ''InterlockReaped''"
| "condition_display (InterlockNotFound nm) = ''InterlockNotFound: '' @ nm"
| "condition_display (AllocationFailed st e) =
     ''AllocationFailed at '' @ allocation_step_debug st @ '', errno='' @ show_int e"
| "condition_display (InvalidRequest msg) = ''InvalidRequest: '' @ msg"

section \<open>Transport errors\<close>

datatype io_operation =
    Bind | Listen | Accept | Connect | SendMsg | RecvMsg | Read | Write | Stat | Unlink
  | SetNonBlocking | Poll

datatype protocol_fault =
    Truncated (needed: usize) (have_bytes: usize)
  | FrameTooLarge (len: usize) (max_len: usize)
  | UnsupportedVersion u8
  | UnknownTag u8
  | InvalidUtf8

fun protocol_fault_display :: "protocol_fault \<Rightarrow> string" where
  "protocol_fault_display (Truncated n h) =
     ''truncated: needed '' @ show_nat n @ '', have '' @ show_nat h"
| "protocol_fault_display (FrameTooLarge l m) =
     ''frame too large: '' @ show_nat l @ '' > '' @ show_nat m"
| "protocol_fault_display (UnsupportedVersion v) = ''unsupported version: '' @ show_nat (unat v)"
| "protocol_fault_display (UnknownTag t) = ''unknown tag: 0x'' @ show_hex2 t"
| "protocol_fault_display InvalidUtf8 = ''invalid UTF-8''"

datatype transport_error =
    Protocol protocol_fault
  | Io io_operation errno
  | ConnectionClosed
  | WouldBlock
  | SocketPathOccupied string bool

fun io_operation_debug :: "io_operation \<Rightarrow> string" where
  "io_operation_debug Bind = ''Bind''"
| "io_operation_debug Listen = ''Listen''"
| "io_operation_debug Accept = ''Accept''"
| "io_operation_debug Connect = ''Connect''"
| "io_operation_debug SendMsg = ''SendMsg''"
| "io_operation_debug RecvMsg = ''RecvMsg''"
| "io_operation_debug Read = ''Read''"
| "io_operation_debug Write = ''Write''"
| "io_operation_debug Stat = ''Stat''"
| "io_operation_debug Unlink = ''Unlink''"
| "io_operation_debug SetNonBlocking = ''SetNonBlocking''"
| "io_operation_debug Poll = ''Poll''"

fun transport_error_display :: "transport_error \<Rightarrow> string" where
  "transport_error_display (Protocol f) = ''protocol fault: '' @ protocol_fault_display f"
| "transport_error_display (Io op e) =
     ''I/O error in '' @ io_operation_debug op @ '': errno '' @ show_int e"
| "transport_error_display ConnectionClosed = ''connection closed by peer''"
| "transport_error_display WouldBlock = ''would block (no data available)''"
| "transport_error_display (SocketPathOccupied p live) =
     (if live then ''socket path occupied by a live daemon: '' @ p
      else ''socket path occupied by a non-socket object: '' @ p)"

section \<open>Daemon startup errors\<close>

datatype startup_error =
    Transport transport_error
  | Allocation condition
  | EventLoopFailed errno

fun startup_error_display :: "startup_error \<Rightarrow> string" where
  "startup_error_display (Transport e) = ''transport: '' @ transport_error_display e"
| "startup_error_display (Allocation e) = ''allocation: '' @ condition_display e"
| "startup_error_display (EventLoopFailed e) =
     ''event loop: poll failed permanently, errno='' @ show_int e"

text \<open>\<open>impl From<TransportError>\<close> and \<open>impl From<Condition>\<close>, applied by the \<open>?\<close> operator.\<close>

definition startup_from_transport :: "transport_error \<Rightarrow> startup_error" where
  "startup_from_transport e = Transport e"

definition startup_from_condition :: "condition \<Rightarrow> startup_error" where
  "startup_from_condition e = Allocation e"

section \<open>The texts are Rust strings of bounded length\<close>

lemma show_nat_length: "n < 10 ^ Suc k \<Longrightarrow> length (show_nat n) \<le> Suc k"
proof (induction k arbitrary: n)
  case 0
  then show ?case by (subst show_nat.simps) simp
next
  case (Suc k)
  show ?case
  proof (cases "n < 10")
    case True
    then show ?thesis by (subst show_nat.simps) simp
  next
    case False
    have "n div 10 < 10 ^ Suc k"
      using Suc.prems by (simp add: less_mult_imp_div_less)
    then have "length (show_nat (n div 10)) \<le> Suc k" by (rule Suc.IH)
    with False show ?thesis by (subst show_nat.simps) simp
  qed
qed

lemma show_usize_length: "n < 2 ^ 64 \<Longrightarrow> length (show_nat n) \<le> 20"
  by (rule show_nat_length [of n 19, simplified]) simp

lemma ascii_allocation_step [simp]: "ascii_string (allocation_step_debug st)"
  by (cases st) simp_all

lemma ascii_protocol_fault [simp]: "ascii_string (protocol_fault_display f)"
  by (cases f) simp_all

lemma utf8_condition_display:
  assumes "case c of InterlockNotFound nm \<Rightarrow> utf8_string nm | InvalidRequest m \<Rightarrow> utf8_string m | _ \<Rightarrow> True"
  shows "utf8_string (condition_display c)"
proof (cases c)
  case (InterlockNotFound nm)
  have "utf8_string ''InterlockNotFound: ''" by (rule utf8_string_ascii) simp
  with assms InterlockNotFound show ?thesis
    by (auto dest: utf8_string_append [of "''InterlockNotFound: ''" nm])
next
  case (InvalidRequest m)
  have "utf8_string ''InvalidRequest: ''" by (rule utf8_string_ascii) simp
  with assms InvalidRequest show ?thesis
    by (auto dest: utf8_string_append [of "''InvalidRequest: ''" m])
qed (auto intro!: utf8_string_ascii)

text \<open>A fault whose two sizes are \<open>usize\<close> values has a text far below the frame limit.\<close>

fun fault_sizes_ok :: "protocol_fault \<Rightarrow> bool" where
  "fault_sizes_ok (Truncated n h) \<longleftrightarrow> n < 2 ^ 64 \<and> h < 2 ^ 64"
| "fault_sizes_ok (FrameTooLarge l m) \<longleftrightarrow> l < 2 ^ 64 \<and> m < 2 ^ 64"
| "fault_sizes_ok _ \<longleftrightarrow> True"

lemma protocol_fault_display_length:
  "fault_sizes_ok f \<Longrightarrow> length (protocol_fault_display f) \<le> 80"
proof (cases f)
  case (Truncated n h)
  moreover assume "fault_sizes_ok f"
  ultimately show ?thesis using show_usize_length [of n] show_usize_length [of h] by simp
next
  case (FrameTooLarge l m)
  moreover assume "fault_sizes_ok f"
  ultimately show ?thesis using show_usize_length [of l] show_usize_length [of m] by simp
next
  case (UnsupportedVersion v)
  have "unat v < 256" using unsigned_less [of v] by (simp add: unat_of_nat)
  then have "length (show_nat (unat v)) \<le> 20" by (intro show_usize_length) simp
  with UnsupportedVersion show ?thesis by simp
qed (auto simp: show_hex2_def)

end
