(* ===== verification/Clock.thy ===== *)
theory Clock
  imports Errors
begin

text \<open>
  \<open>abacus-core/src/clock.rs\<close>: reading CLOCK_MONOTONIC, converting between milliseconds,
  nanoseconds and \<open>timespec\<close>, and the arguments of the futex calls.  The kernel's clock and
  the kernel's futex are not part of the sources: a clock reading and a system call's result
  are arguments of the definitions here and in the theories above.
\<close>

definition NANOS_PER_SEC :: u64 where "NANOS_PER_SEC = 1000000000"

definition NANOS_PER_MS :: u64 where "NANOS_PER_MS = 1000000"

lemma unat_NANOS [simp]:
  "unat NANOS_PER_SEC = 1000000000" "unat NANOS_PER_MS = 1000000"
  by (simp_all add: NANOS_PER_SEC_def NANOS_PER_MS_def)

record timespec =
  tv_sec :: i64
  tv_nsec :: i64

section \<open>Reading the clock\<close>

text \<open>\<open>u64::try_from\<close> of an \<open>i64\<close> fails on a negative value.\<close>

definition u64_try_from_i64 :: "i64 \<Rightarrow> u64 option" where
  "u64_try_from_i64 x = (if 0 \<le> sint x then Some x else None)"

definition nanos_from_timespec :: "timespec \<Rightarrow> u64 option" where
  "nanos_from_timespec ts =
     Option.bind (u64_try_from_i64 (tv_sec ts)) (\<lambda>secs.
     Option.bind (u64_try_from_i64 (tv_nsec ts)) (\<lambda>nsecs.
     Option.bind (checked_mul_u64 secs NANOS_PER_SEC) (\<lambda>p. checked_add_u64 p nsecs)))"

text \<open>
  \<open>monotonic_now_nanos\<close> on the result and the buffer of \<open>clock_gettime\<close>; \<^const>\<open>None\<close>
  is the abort of the process.
\<close>

definition monotonic_now_nanos :: "int \<Rightarrow> timespec \<Rightarrow> u64 option" where
  "monotonic_now_nanos ret ts = (if ret \<noteq> 0 then None else nanos_from_timespec ts)"

definition expiration_alive :: "u64 \<Rightarrow> u64 \<Rightarrow> bool" where
  "expiration_alive expiration now \<longleftrightarrow> now < expiration"

definition ms_to_nanos :: "u64 \<Rightarrow> u64" where
  "ms_to_nanos ms = saturating_mul_u64 ms NANOS_PER_MS"

definition timespec_of_nanos :: "u64 \<Rightarrow> timespec" where
  "timespec_of_nanos n = \<lparr>tv_sec = n div NANOS_PER_SEC, tv_nsec = n mod NANOS_PER_SEC\<rparr>"

text \<open>
  \<open>sleep_until_nanos\<close> over the successive readings of the clock: the list of the sleeps it
  asks the kernel for before it returns, \<^const>\<open>None\<close> when the readings run out first.
\<close>

fun sleep_until_nanos :: "u64 \<Rightarrow> u64 list \<Rightarrow> timespec list option" where
  "sleep_until_nanos target [] = None"
| "sleep_until_nanos target (now # later) =
     (if target \<le> now then Some []
      else map_option (\<lambda>ts. timespec_of_nanos (target - now) # ts) (sleep_until_nanos target later))"

section \<open>Futex arguments\<close>

text \<open>The word compared by the kernel: the low 32 bits.\<close>

definition futex_word :: "u64 \<Rightarrow> u32" where
  "futex_word v = ucast v"

text \<open>The timeout passed to FUTEX_WAIT: 0 passes a null pointer, that is, no timeout.\<close>

definition futex_timeout :: "u64 \<Rightarrow> timespec option" where
  "futex_timeout timeout_nanos =
     (if timeout_nanos = 0 then None else Some (timespec_of_nanos timeout_nanos))"

section \<open>Lemmas\<close>

lemma u64_try_from_i64_Some: "u64_try_from_i64 x = Some y \<longleftrightarrow> y = x \<and> 0 \<le> sint x"
  by (auto simp: u64_try_from_i64_def)

lemma nanos_from_timespec_Some:
  "nanos_from_timespec ts = Some n \<longleftrightarrow>
     0 \<le> sint (tv_sec ts) \<and> 0 \<le> sint (tv_nsec ts) \<and>
     unat (tv_sec ts) * 1000000000 + unat (tv_nsec ts) < 2 ^ 64 \<and>
     unat n = unat (tv_sec ts) * 1000000000 + unat (tv_nsec ts)"
proof (cases "0 \<le> sint (tv_sec ts) \<and> 0 \<le> sint (tv_nsec ts)")
  case True
  let ?p = "unat (tv_sec ts) * 1000000000"
  from True have eq: "nanos_from_timespec ts =
      Option.bind (checked_mul_u64 (tv_sec ts) NANOS_PER_SEC) (\<lambda>p. checked_add_u64 p (tv_nsec ts))"
    by (simp add: nanos_from_timespec_def u64_try_from_i64_def)
  show ?thesis
  proof (cases "?p < 2 ^ 64")
    case p: True
    then have "unat (tv_sec ts * NANOS_PER_SEC) = ?p" by (simp add: unat_mult_u64)
    with True p show ?thesis
      by (simp add: eq checked_mul_u64_def checked_add_u64_Some)
  next
    case False
    with True show ?thesis by (simp add: eq checked_mul_u64_def)
  qed
next
  case False
  then show ?thesis
    by (auto simp: nanos_from_timespec_def bind_eq_Some_conv u64_try_from_i64_Some)
qed

lemma unat_ms_to_nanos: "unat (ms_to_nanos ms) = min (unat ms * 1000000) (2 ^ 64 - 1)"
  by (simp add: ms_to_nanos_def unat_saturating_mul_u64)

lemma unat_timespec_of_nanos:
  "unat (tv_sec (timespec_of_nanos n)) = unat n div 1000000000"
  "unat (tv_nsec (timespec_of_nanos n)) = unat n mod 1000000000"
  by (simp_all add: timespec_of_nanos_def unat_div_distrib unat_mod_distrib)

lemma sint_small: "unat (w :: u64) < 2 ^ 63 \<Longrightarrow> sint w = uint w"
proof -
  assume "unat w < 2 ^ 63"
  then have "int (unat w) < int (2 ^ 63)" by (simp only: of_nat_less_iff)
  then have "uint w < 2 ^ 63" by simp
  then have "signed_take_bit 63 (uint w) = uint w"
    by (intro signed_take_bit_int_eq_self) (auto intro: order_trans [OF _ uint_ge_0])
  then show ?thesis by (simp add: sint_uint)
qed

end
