(* ===== verification/Interlock_Core.thy ===== *)
theory Interlock_Core
  imports Clock
begin

text \<open>
  \<open>abacus-core/src/interlock.rs\<close>: the three-word interlock in shared memory and the
  operations on it.  A memfd is a \<open>region\<close>; a handle, a mapping and a file descriptor of
  the same memfd all denote that region, so aliasing between the daemon and its clients is
  equality of regions.  \<open>shm\<close> holds the words of every region and the history of the
  stores and futex wakes made so far, in the order they were made.
\<close>

section \<open>Layout\<close>

definition INTERLOCK_SIZE :: usize where "INTERLOCK_SIZE = 24"

definition CREATION_TTL_NANOS :: u64 where "CREATION_TTL_NANOS = 100000000"

definition SENTINEL :: u64 where "SENTINEL = - 1"

record interlock =
  open_count :: u64
  closed_count :: u64
  expiration_ns :: u64

datatype word_id = Open_Word | Closed_Word | Expiration_Word

text \<open>Field order of the \<open>repr(C)\<close> structure, in bytes; it orders the words.\<close>

fun word_offset :: "word_id \<Rightarrow> usize" where
  "word_offset Open_Word = 0"
| "word_offset Closed_Word = 8"
| "word_offset Expiration_Word = 16"

instantiation word_id :: linorder
begin

definition less_eq_word_id :: "word_id \<Rightarrow> word_id \<Rightarrow> bool" where
  "less_eq_word_id v w \<longleftrightarrow> word_offset v \<le> word_offset w"

definition less_word_id :: "word_id \<Rightarrow> word_id \<Rightarrow> bool" where
  "less_word_id v w \<longleftrightarrow> word_offset v < word_offset w"

instance
proof
  fix v w :: word_id
  show "v \<le> w \<Longrightarrow> w \<le> v \<Longrightarrow> v = w"
    by (cases v; cases w) (simp_all add: less_eq_word_id_def)
qed (auto simp: less_eq_word_id_def less_word_id_def)

end

fun word_get :: "word_id \<Rightarrow> interlock \<Rightarrow> u64" where
  "word_get Open_Word i = open_count i"
| "word_get Closed_Word i = closed_count i"
| "word_get Expiration_Word i = expiration_ns i"

fun word_put :: "word_id \<Rightarrow> u64 \<Rightarrow> interlock \<Rightarrow> interlock" where
  "word_put Open_Word v i = i\<lparr>open_count := v\<rparr>"
| "word_put Closed_Word v i = i\<lparr>closed_count := v\<rparr>"
| "word_put Expiration_Word v i = i\<lparr>expiration_ns := v\<rparr>"

definition zero_interlock :: interlock where
  "zero_interlock = \<lparr>open_count = 0, closed_count = 0, expiration_ns = 0\<rparr>"

section \<open>Cells\<close>

text \<open>
  What the operations rely on of a memory of independently addressed cells: a load sees the
  last store to its cell and no other.
\<close>

locale cell_store =
  fixes ld :: "'c \<Rightarrow> 's \<Rightarrow> 'v"
    and st :: "'c \<Rightarrow> 'v \<Rightarrow> 's \<Rightarrow> 's"
  assumes ld_st: "ld c (st d v s) = (if c = d then v else ld c s)"
begin

lemma ld_st_same: "ld c (st c v s) = v"
  by (simp add: ld_st)

lemma ld_st_other: "c \<noteq> d \<Longrightarrow> ld c (st d v s) = ld c s"
  by (simp add: ld_st)

lemma ld_fold_frame: "c \<notin> set (map fst us) \<Longrightarrow> ld c (fold (\<lambda>(d, v). st d v) us s) = ld c s"
  by (induction us arbitrary: s) (auto simp: ld_st)

lemma ld_fold_same:
  "c \<in> set (map fst us) \<Longrightarrow> (\<forall>(d, v) \<in> set us. v = x) \<Longrightarrow> ld c (fold (\<lambda>(d, v). st d v) us s) = x"
proof (induction us arbitrary: s)
  case Nil
  then show ?case by simp
next
  case (Cons u us)
  show ?case
  proof (cases "c \<in> set (map fst us)")
    case True
    with Cons show ?thesis by (auto split: prod.splits)
  next
    case False
    with Cons.prems show ?thesis
      by (cases u) (use ld_fold_frame [OF False] in \<open>auto simp: ld_st\<close>)
  qed
qed

end

interpretation words: cell_store word_get word_put
proof
  fix c d :: word_id and v :: u64 and i :: interlock
  show "word_get c (word_put d v i) = (if c = d then v else word_get c i)"
    by (cases c; cases d) simp_all
qed

section \<open>Shared memory\<close>

type_synonym region = nat

datatype mem_event = Stored region word_id u64 | Woken region word_id

record shm =
  mem :: "region \<Rightarrow> interlock"
  next_region :: region
  trace :: "mem_event list"

definition load :: "region \<Rightarrow> word_id \<Rightarrow> shm \<Rightarrow> u64" where
  "load r w s = word_get w (mem s r)"

definition store :: "region \<Rightarrow> word_id \<Rightarrow> u64 \<Rightarrow> shm \<Rightarrow> shm" where
  "store r w v s = s\<lparr>mem := (mem s)(r := word_put w v (mem s r)), trace := trace s @ [Stored r w v]\<rparr>"

definition futex_wake :: "region \<Rightarrow> word_id \<Rightarrow> shm \<Rightarrow> shm" where
  "futex_wake r w s = s\<lparr>trace := trace s @ [Woken r w]\<rparr>"

text \<open>\<open>fetch_add\<close> wraps around on overflow, in every build.\<close>

definition fetch_add :: "region \<Rightarrow> word_id \<Rightarrow> u64 \<Rightarrow> shm \<Rightarrow> shm" where
  "fetch_add r w h s = store r w (load r w s + h) s"

text \<open>\<open>compare_exchange_weak\<close>: the flag says that this call fails spuriously.\<close>

definition compare_exchange_weak ::
    "region \<Rightarrow> word_id \<Rightarrow> u64 \<Rightarrow> u64 \<Rightarrow> bool \<Rightarrow> shm \<Rightarrow> bool \<times> shm" where
  "compare_exchange_weak r w current target spurious s =
     (if \<not> spurious \<and> load r w s = current then (True, store r w target s) else (False, s))"

interpretation shm: cell_store "\<lambda>(r, w). load r w" "\<lambda>(r, w). store r w"
  by unfold_locales (auto simp: load_def store_def words.ld_st split: prod.splits)

lemma load_store [shm_simps]:
  "load r w (store r' w' v s) = (if r = r' \<and> w = w' then v else load r w s)"
  using shm.ld_st [of "(r, w)" "(r', w')" v s] by simp

lemma load_futex_wake [shm_simps]: "load r w (futex_wake r' w' s) = load r w s"
  by (simp add: load_def futex_wake_def)

lemma next_region_store [shm_simps]:
  "next_region (store r w v s) = next_region s" "next_region (futex_wake r w s) = next_region s"
  by (simp_all add: store_def futex_wake_def)

lemma trace_store [shm_simps]:
  "trace (store r w v s) = trace s @ [Stored r w v]"
  "trace (futex_wake r w s) = trace s @ [Woken r w]"
  by (simp_all add: store_def futex_wake_def)

lemma mem_store [shm_simps]:
  "mem (store r w v s) r' = (if r' = r then word_put w v (mem s r) else mem s r')"
  "mem (futex_wake r w s) = mem s"
  by (simp_all add: store_def futex_wake_def)

lemma mem_eqI: "(\<And>w. load r w s = load r w t) \<Longrightarrow> mem s r = mem t r"
proof -
  assume eq: "\<And>w. load r w s = load r w t"
  have "open_count (mem s r) = open_count (mem t r)" "closed_count (mem s r) = closed_count (mem t r)"
    "expiration_ns (mem s r) = expiration_ns (mem t r)"
    using eq [of Open_Word] eq [of Closed_Word] eq [of Expiration_Word] by (simp_all add: load_def)
  then show ?thesis by simp
qed

section \<open>Create and open\<close>

text \<open>
  The replies of the kernel to \<open>memfd_create\<close>, \<open>ftruncate\<close> and \<open>mmap\<close>.  A new memfd
  is the next unused region; its content is zero, which is what \<open>ftruncate\<close> extends it with.
\<close>

datatype mmap_reply = Map_Failed | Map_Null | Mapped

record alloc_replies =
  memfd_ret :: int
  memfd_errno :: errno
  ftruncate_ret :: int
  ftruncate_errno :: errno
  mmap_ret :: mmap_reply
  mmap_errno :: errno

definition memfd_create :: "alloc_replies \<Rightarrow> shm \<Rightarrow> (condition + region) \<times> shm" where
  "memfd_create k s =
     (if memfd_ret k < 0 then (Inl (AllocationFailed MemfdCreate (memfd_errno k)), s)
      else (Inr (next_region s),
            s\<lparr>mem := (mem s)(next_region s := zero_interlock), next_region := Suc (next_region s)\<rparr>))"

definition ftruncate :: "alloc_replies \<Rightarrow> condition + unit" where
  "ftruncate k =
     (if ftruncate_ret k \<noteq> 0 then Inl (AllocationFailed Ftruncate (ftruncate_errno k)) else Inr ())"

definition mmap_interlock :: "alloc_replies \<Rightarrow> region \<Rightarrow> condition + region" where
  "mmap_interlock k fd =
     (case mmap_ret k of
        Map_Failed \<Rightarrow> Inl (AllocationFailed Mmap (mmap_errno k))
      | Map_Null \<Rightarrow> Inl (AllocationFailed Mmap 0)
      | Mapped \<Rightarrow> Inr fd)"

definition interlock_create :: "alloc_replies \<Rightarrow> u64 \<Rightarrow> shm \<Rightarrow> (condition + region) \<times> shm" where
  "interlock_create k now s =
     (case memfd_create k s of
        (Inl e, s') \<Rightarrow> (Inl e, s')
      | (Inr fd, s') \<Rightarrow>
          (case and_then (ftruncate k) (\<lambda>_. mmap_interlock k fd) of
             Inl e \<Rightarrow> (Inl e, s')
           | Inr h \<Rightarrow> (Inr h, store h Expiration_Word (now + CREATION_TTL_NANOS) s')))"

definition interlock_open :: "alloc_replies \<Rightarrow> region \<Rightarrow> condition + region" where
  "interlock_open k fd = mmap_interlock k fd"

definition interlock_dup_fd :: "int \<Rightarrow> errno \<Rightarrow> region \<Rightarrow> condition + region" where
  "interlock_dup_fd raw err h = (if raw < 0 then Inl (AllocationFailed MemfdCreate err) else Inr h)"

section \<open>Arm\<close>

text \<open>
  The retry loop of \<open>interlock_arm\<close>.  Each round is one element of the schedule: what the
  other threads and processes do to shared memory between this round's load and its
  compare-exchange, and whether the weak exchange fails spuriously.  \<^const>\<open>None\<close> is a loop
  still running when the schedule ends.
\<close>

type_synonym arm_schedule = "((shm \<Rightarrow> shm) \<times> bool) list"

fun arm_loop :: "region \<Rightarrow> u64 \<Rightarrow> arm_schedule \<Rightarrow> shm \<Rightarrow> (condition + unit) option \<times> shm" where
  "arm_loop r deadline [] s = (None, s)"
| "arm_loop r deadline ((others, spurious) # sched) s =
     (let current = load r Expiration_Word s in
      if current = SENTINEL then (Some (Inl InterlockReaped), s)
      else let target = max current deadline in
      if target = current then (Some (Inr ()), s)
      else case compare_exchange_weak r Expiration_Word current target spurious (others s) of
             (True, s') \<Rightarrow> (Some (Inr ()), s')
           | (False, s') \<Rightarrow> arm_loop r deadline sched s')"

definition interlock_arm ::
    "region \<Rightarrow> u64 \<Rightarrow> u64 \<Rightarrow> arm_schedule \<Rightarrow> shm \<Rightarrow> (condition + unit) option \<times> shm" where
  "interlock_arm h ttl_nanos now sched s = arm_loop h (now + ttl_nanos) sched s"

text \<open>The schedule of a thread nobody disturbs.\<close>

definition undisturbed :: arm_schedule where
  "undisturbed = [(\<lambda>s. s, False)]"

section \<open>Terminate\<close>

definition interlock_reap :: "region \<Rightarrow> shm \<Rightarrow> shm" where
  "interlock_reap h s =
     (let s1 = store h Open_Word SENTINEL s;
          s2 = store h Closed_Word SENTINEL s1;
          s3 = store h Expiration_Word SENTINEL s2
      in futex_wake h Closed_Word (futex_wake h Open_Word s3))"

text \<open>
  A reap whose stores and wakes others come between: the argument is what they do in each of
  the four gaps.
\<close>

type_synonym reap_gaps = "nat \<Rightarrow> shm \<Rightarrow> shm"

abbreviation no_gap :: reap_gaps where "no_gap \<equiv> (\<lambda>_ s. s)"

definition interlock_reap_amid :: "reap_gaps \<Rightarrow> region \<Rightarrow> shm \<Rightarrow> shm" where
  "interlock_reap_amid gap h s =
     (let s = gap 0 (store h Open_Word SENTINEL s);
          s = gap 1 (store h Closed_Word SENTINEL s);
          s = gap 2 (store h Expiration_Word SENTINEL s);
          s = gap 3 (futex_wake h Open_Word s)
      in futex_wake h Closed_Word s)"

lemma reap_no_gap [simp]: "interlock_reap_amid no_gap h s = interlock_reap h s"
  by (simp add: interlock_reap_amid_def interlock_reap_def Let_def)

definition interlock_free :: "region \<Rightarrow> shm \<Rightarrow> shm" where
  "interlock_free h s =
     futex_wake h Closed_Word (futex_wake h Open_Word (store h Expiration_Word SENTINEL s))"

definition interlock_is_terminated :: "region \<Rightarrow> shm \<Rightarrow> bool" where
  "interlock_is_terminated h s \<longleftrightarrow>
     load h Open_Word s = SENTINEL \<or> load h Closed_Word s = SENTINEL \<or>
     load h Expiration_Word s = SENTINEL"

definition interlock_read_expiration :: "region \<Rightarrow> shm \<Rightarrow> u64" where
  "interlock_read_expiration h s = load h Expiration_Word s"

section \<open>Facts about single operations\<close>

lemma load_reap [shm_simps]:
  "load r w (interlock_reap h s) = (if r = h then SENTINEL else load r w s)"
  by (cases w) (simp_all add: interlock_reap_def Let_def shm_simps)

lemma load_free [shm_simps]:
  "load r w (interlock_free h s) = (if r = h \<and> w = Expiration_Word then SENTINEL else load r w s)"
  by (simp add: interlock_free_def shm_simps)

lemma next_region_reap [shm_simps]:
  "next_region (interlock_reap h s) = next_region s" "next_region (interlock_free h s) = next_region s"
  by (simp_all add: interlock_reap_def interlock_free_def Let_def shm_simps)

lemma trace_reap [shm_simps]:
  "trace (interlock_reap h s) = trace s @
     [Stored h Open_Word SENTINEL, Stored h Closed_Word SENTINEL, Stored h Expiration_Word SENTINEL,
      Woken h Open_Word, Woken h Closed_Word]"
  "trace (interlock_free h s) = trace s @
     [Stored h Expiration_Word SENTINEL, Woken h Open_Word, Woken h Closed_Word]"
  by (simp_all add: interlock_reap_def interlock_free_def Let_def shm_simps)

lemma interlock_create_Inr:
  assumes "interlock_create k now s = (Inr h, s')"
  shows "h = next_region s" and "next_region s' = Suc (next_region s)"
    and "mem s' h = \<lparr>open_count = 0, closed_count = 0, expiration_ns = now + CREATION_TTL_NANOS\<rparr>"
    and "r \<noteq> h \<Longrightarrow> mem s' r = mem s r"
  using assms
  by (auto simp: interlock_create_def memfd_create_def mmap_interlock_def zero_interlock_def shm_simps
      split: if_splits sum.splits mmap_reply.splits)

lemma interlock_create_Inl:
  assumes "interlock_create k now s = (Inl e, s')"
  shows "next_region s \<le> next_region s'" and "r < next_region s \<Longrightarrow> mem s' r = mem s r"
    and "\<exists>st n. e = AllocationFailed st n"
  using assms
  by (auto simp: interlock_create_def memfd_create_def mmap_interlock_def ftruncate_def shm_simps
      split: if_splits sum.splits mmap_reply.splits)

lemma SENTINEL_top [simp]: "v \<le> SENTINEL" "SENTINEL \<le> v \<longleftrightarrow> v = SENTINEL"
  by (simp_all add: SENTINEL_def)

section \<open>Arm is an atomic maximum\<close>

text \<open>
  The contract of arm on the expiration word alone: refuse a terminated interlock, otherwise
  raise the word to the deadline, atomically.
\<close>

definition arm_spec :: "u64 \<Rightarrow> u64 \<Rightarrow> (condition + unit) \<times> u64" where
  "arm_spec deadline e =
     (if e = SENTINEL then (Inl InterlockReaped, e) else (Inr (), max e deadline))"

text \<open>What every writer of an expiration word keeps to: the word never goes down.\<close>

definition expiration_rely :: "region \<Rightarrow> (shm \<Rightarrow> shm) \<Rightarrow> bool" where
  "expiration_rely r f \<longleftrightarrow> (\<forall>s. load r Expiration_Word s \<le> load r Expiration_Word (f s))"

text \<open>
  The whole operation as one atomic step on memory, and the memory that others have made of \<open>s\<close>
  by the end of their first \<open>n\<close> rounds.
\<close>

definition arm_atomic :: "region \<Rightarrow> u64 \<Rightarrow> shm \<Rightarrow> (condition + unit) \<times> shm" where
  "arm_atomic r deadline s =
     (case arm_spec deadline (load r Expiration_Word s) of
        (res, e) \<Rightarrow> (res, if e = load r Expiration_Word s then s else store r Expiration_Word e s))"

definition others_done :: "nat \<Rightarrow> arm_schedule \<Rightarrow> shm \<Rightarrow> shm" where
  "others_done n sched s = fold fst (take n sched) s"

lemma others_done_simps [simp]:
  "others_done 0 sched s = s" "others_done (Suc n) (x # sched) s = others_done n sched (fst x s)"
  by (simp_all add: others_done_def)

lemma load_arm_atomic:
  "arm_atomic r deadline s = (res, s') \<Longrightarrow>
     arm_spec deadline (load r Expiration_Word s) = (res, load r Expiration_Word s')"
  by (auto simp: arm_atomic_def shm_simps split: prod.splits if_splits)

lemma others_done_rely:
  "(\<And>f b. (f, b) \<in> set sched \<Longrightarrow> expiration_rely r f) \<Longrightarrow>
     load r Expiration_Word s \<le> load r Expiration_Word (others_done n sched s)"
proof (induction sched arbitrary: n s)
  case Nil
  then show ?case by (simp add: others_done_def)
next
  case (Cons x sched)
  obtain f b where x: "x = (f, b)" by fastforce
  show ?case
  proof (cases n)
    case (Suc m)
    have "load r Expiration_Word s \<le> load r Expiration_Word (f s)"
      using Cons.prems [of f b] by (simp add: x expiration_rely_def)
    also have "\<dots> \<le> load r Expiration_Word (others_done m sched (f s))"
      by (rule Cons.IH) (rule Cons.prems, rule list.set_intros(2))
    finally show ?thesis by (simp add: Suc x)
  qed simp
qed

text \<open>The loop takes effect at once, on the memory of one of its rounds.\<close>

lemma arm_loop_linearizes:
  "arm_loop r deadline sched s = (Some res, s') \<Longrightarrow>
     \<exists>n \<le> length sched. arm_atomic r deadline (others_done n sched s) = (res, s')"
proof (induction sched arbitrary: s)
  case Nil
  then show ?case by simp
next
  case (Cons x sched)
  obtain others spurious where x: "x = (others, spurious)" by fastforce
  let ?c = "load r Expiration_Word s"
  consider "?c = SENTINEL" | "?c \<noteq> SENTINEL" "deadline \<le> ?c"
    | "?c \<noteq> SENTINEL" "?c < deadline" "\<not> spurious" "load r Expiration_Word (others s) = ?c"
    | "?c \<noteq> SENTINEL" "?c < deadline" "spurious \<or> load r Expiration_Word (others s) \<noteq> ?c"
    by fastforce
  then show ?case
  proof cases
    case 1
    with Cons.prems x show ?thesis by (intro exI [of _ 0]) (simp add: arm_atomic_def arm_spec_def)
  next
    case 2
    then have m: "max ?c deadline = ?c" by simp
    with 2 Cons.prems x show ?thesis by (intro exI [of _ 0]) (simp add: arm_atomic_def arm_spec_def)
  next
    case 3
    then have m: "max ?c deadline = deadline" "deadline \<noteq> ?c" by auto
    with 3 Cons.prems x show ?thesis
      by (intro exI [of _ "Suc 0"]) (auto simp: arm_atomic_def arm_spec_def compare_exchange_weak_def)
  next
    case 4
    then have raise: "max ?c deadline = deadline" "deadline \<noteq> ?c" by auto
    from 4 have "arm_loop r deadline sched (others s) = (Some res, s')"
      using Cons.prems x raise by (auto simp: Let_def compare_exchange_weak_def)
    from Cons.IH [OF this] obtain n where "n \<le> length sched"
      "arm_atomic r deadline (others_done n sched (others s)) = (res, s')" by blast
    then show ?thesis by (intro exI [of _ "Suc n"]) (simp add: x)
  qed
qed

lemma arm_loop_refines:
  assumes "arm_loop r deadline sched s = (Some res, s')"
    and "\<And>f b. (f, b) \<in> set sched \<Longrightarrow> expiration_rely r f"
  shows "\<exists>e. load r Expiration_Word s \<le> e \<and> arm_spec deadline e = (res, load r Expiration_Word s')"
proof -
  obtain n where "arm_atomic r deadline (others_done n sched s) = (res, s')"
    using arm_loop_linearizes [OF assms(1)] by blast
  moreover have "load r Expiration_Word s \<le> load r Expiration_Word (others_done n sched s)"
    by (rule others_done_rely) (rule assms(2))
  ultimately show ?thesis using load_arm_atomic by blast
qed

text \<open>A round nobody disturbs is the last one.\<close>

lemma arm_loop_returns:
  assumes "(f, False) \<in> set sched" and "\<And>s. load r Expiration_Word (f s) = load r Expiration_Word s"
  shows "fst (arm_loop r deadline sched s) \<noteq> None"
  using assms(1)
proof (induction sched arbitrary: s)
  case Nil
  then show ?case by simp
next
  case (Cons x sched)
  show ?case
  proof (cases "x = (f, False)")
    case True
    then show ?thesis
      by (auto simp: Let_def compare_exchange_weak_def assms(2) split: prod.splits)
  next
    case False
    with Cons.prems have "(f, False) \<in> set sched" by auto
    then have "\<And>s. fst (arm_loop r deadline sched s) \<noteq> None" by (rule Cons.IH)
    then show ?thesis
      by (cases x) (auto simp: Let_def compare_exchange_weak_def)
  qed
qed

lemma arm_undisturbed:
  "arm_loop r deadline undisturbed s =
     (if load r Expiration_Word s = SENTINEL then (Some (Inl InterlockReaped), s)
      else if deadline \<le> load r Expiration_Word s then (Some (Inr ()), s)
      else (Some (Inr ()), store r Expiration_Word deadline s))"
  by (auto simp: undisturbed_def Let_def compare_exchange_weak_def max_def)

lemma arm_result:
  assumes "interlock_arm h ttl now sched s = (Some res, s')"
    and "\<And>f b. (f, b) \<in> set sched \<Longrightarrow> expiration_rely h f"
  shows "(res = Inr () \<and> now + ttl \<le> load h Expiration_Word s' \<or>
      res = Inl InterlockReaped \<and> load h Expiration_Word s' = SENTINEL) \<and>
    load h Expiration_Word s \<le> load h Expiration_Word s'"
proof -
  have "\<exists>e. load h Expiration_Word s \<le> e \<and> arm_spec (now + ttl) e = (res, load h Expiration_Word s')"
    by (rule arm_loop_refines [OF assms(1) [unfolded interlock_arm_def]]) (rule assms(2))
  then obtain e where le: "load h Expiration_Word s \<le> e"
    and e: "arm_spec (now + ttl) e = (res, load h Expiration_Word s')" by blast
  show ?thesis
  proof (cases "e = SENTINEL")
    case True
    with e have "res = Inl InterlockReaped" "load h Expiration_Word s' = SENTINEL"
      by (simp_all add: arm_spec_def)
    then show ?thesis by simp
  next
    case False
    with e have "res = Inr ()" and m: "load h Expiration_Word s' = max e (now + ttl)"
      by (simp_all add: arm_spec_def)
    then show ?thesis using order_trans [OF le, of "max e (now + ttl)"] by simp
  qed
qed

section \<open>Properties\<close>

text \<open>
  C11: Arm is an atomic maximum, whatever others do.  Whenever \<open>interlock_arm\<close> returns, it has
  taken effect at one moment of the call: on the memory that others had made by the end of one
  of its rounds, the atomic operation, which refuses at the sentinel and otherwise stores the
  maximum of the word and the deadline, gives the result returned and the memory left.  A word
  at the sentinel when the call begins is refused with nothing written; and the call does return
  if in some round the exchange does not fail spuriously and the word is left alone.
\<close>

theorem arm_atomic_maximum:
  "(\<forall>res s'. interlock_arm h ttl now sched s = (Some res, s') \<longrightarrow>
      (\<exists>n \<le> length sched. arm_atomic h (now + ttl) (others_done n sched s) = (res, s'))) \<and>
    (\<forall>x rest. load h Expiration_Word s = SENTINEL \<longrightarrow>
      interlock_arm h ttl now (x # rest) s = (Some (Inl InterlockReaped), s)) \<and>
    (\<forall>f. (f, False) \<in> set sched \<longrightarrow> (\<forall>s. load h Expiration_Word (f s) = load h Expiration_Word s) \<longrightarrow>
      fst (interlock_arm h ttl now sched s) \<noteq> None)"
  using arm_loop_linearizes arm_loop_returns by (auto simp: interlock_arm_def)

lemma arm_atomic_maximum_witness:
  "\<exists>res s'. interlock_arm 0 100 5 [(interlock_reap 1, True), (\<lambda>s. s, False)]
     \<lparr>mem = (\<lambda>_. zero_interlock), next_region = 2, trace = []\<rparr> = (Some res, s') \<and>
     (\<exists>n \<le> 2. arm_atomic 0 105 (others_done n [(interlock_reap 1, True), (\<lambda>s. s, False)]
       \<lparr>mem = (\<lambda>_. zero_interlock), next_region = 2, trace = []\<rparr>) = (res, s'))"
proof -
  let ?sched = "[(interlock_reap 1, True), (\<lambda>s. s, False)]"
  let ?s = "\<lparr>mem = (\<lambda>_. zero_interlock), next_region = 2, trace = []\<rparr>"
  have "\<forall>s. load 0 Expiration_Word ((\<lambda>s. s) s) = load 0 Expiration_Word s" by simp
  then have "fst (interlock_arm 0 100 5 ?sched ?s) \<noteq> None"
    by (intro arm_atomic_maximum [THEN conjunct2, THEN conjunct2, rule_format, of "\<lambda>s. s"]) simp_all
  then obtain res s' where r: "interlock_arm 0 100 5 ?sched ?s = (Some res, s')"
    by (cases "interlock_arm 0 100 5 ?sched ?s") auto
  then have "\<exists>n \<le> length ?sched. arm_atomic 0 (5 + 100) (others_done n ?sched ?s) = (res, s')"
    by (rule arm_atomic_maximum [THEN conjunct1, rule_format])
  moreover have "length ?sched = 2" "(5 + 100 :: u64) = 105" by simp_all
  ultimately have "\<exists>n \<le> 2. arm_atomic 0 105 (others_done n ?sched ?s) = (res, s')" by (simp only:)
  with r show ?thesis by blast
qed

end
