(* ===== verification/Registry.thy ===== *)
theory Registry
  imports Interlock_Core
begin

text \<open>
  \<open>abacus-daemon/src/registry.rs\<close>: the daemon's table of named interlocks, the creation of an
  interlock of each tier, attachment, and the evaluation pass that reaps what has expired and
  fires the wait contracts that are met.

  What the code obtains from outside is an argument: the kernel's replies to an allocation, the
  readings of the monotonic clock, the schedule of a compare-exchange loop, and for the pass
  the order in which the hash map is iterated with what the clients do to shared memory before
  each entry is looked at.  \<^const>\<open>None\<close> is an operation that does not return: a panic, or an
  arm loop still running when its schedule ends.  The arithmetic is that of a release build,
  which wraps around.
\<close>

section \<open>Data\<close>

datatype tier = Interlock | WaitCounter | WaitTimer | WaitCron | WaitBarrier

datatype watched_word = OpenCount | ClosedCount

type_synonym barrier_condition = "string \<times> watched_word \<times> u64"

record interlock_entry =
  e_id :: u64
  e_handle :: region
  e_tier :: tier
  e_watched_name :: "string option"
  e_watched_word :: "watched_word option"
  e_interval_ms :: "u64 option"
  e_barrier_conditions :: "barrier_condition list option"

record registry =
  next_id :: u64
  by_name :: "string \<rightharpoonup> interlock_entry"

abbreviation clock_name :: string where "clock_name \<equiv> ''clock''"

section \<open>A new registry\<close>

definition clock_entry :: "region \<Rightarrow> interlock_entry" where
  "clock_entry h =
     \<lparr>e_id = 0, e_handle = h, e_tier = Interlock, e_watched_name = None, e_watched_word = None,
      e_interval_ms = None, e_barrier_conditions = None\<rparr>"

text \<open>The readings are those of \<open>interlock_create\<close>, \<open>interlock_arm\<close> and \<open>new\<close> itself.\<close>

definition registry_new ::
    "alloc_replies \<Rightarrow> u64 \<Rightarrow> u64 \<Rightarrow> u64 \<Rightarrow> arm_schedule \<Rightarrow> shm \<Rightarrow>
     ((condition + registry) \<times> shm) option" where
  "registry_new k now_create now_arm now_start sched s =
     (case interlock_create k now_create s of
        (Inl e, s1) \<Rightarrow> Some (Inl e, s1)
      | (Inr clock, s1) \<Rightarrow>
          (case interlock_arm clock 1000000000 now_arm sched s1 of
             (Some (Inr u), s2) \<Rightarrow>
               let start_ms = now_start div 1000000;
                   s3 = store clock Closed_Word start_ms s2;
                   s4 = store clock Open_Word start_ms s3
               in Some (Inr \<lparr>next_id = 1, by_name = [clock_name \<mapsto> clock_entry clock]\<rparr>, s4)
           | _ \<Rightarrow> None))"

definition clock :: "registry \<Rightarrow> region option" where
  "clock reg = map_option e_handle (by_name reg clock_name)"

section \<open>Create\<close>

fun word_from_byte :: "u8 \<Rightarrow> condition + watched_word" where
  "word_from_byte b =
     (if b = 0 then Inr OpenCount
      else if b = 1 then Inr ClosedCount
      else Inl (InvalidRequest (''invalid watched_word: '' @ show_nat (unat b))))"

fun parse_conditions ::
    "registry \<Rightarrow> (string \<times> u8 \<times> u64) list \<Rightarrow> condition + barrier_condition list" where
  "parse_conditions reg [] = Inr []"
| "parse_conditions reg ((wn, ww_byte, threshold) # conds) =
     (if by_name reg wn = None then Inl (InterlockNotFound wn)
      else and_then (word_from_byte ww_byte) (\<lambda>word.
           and_then (parse_conditions reg conds) (\<lambda>parsed. Inr ((wn, word, threshold) # parsed))))"

text \<open>The four values the checks of \<open>create\<close> resolve for the new entry, in its field order.\<close>

type_synonym resolved =
  "string option \<times> watched_word option \<times> u64 option \<times> barrier_condition list option"

fun resolve ::
    "registry \<Rightarrow> tier \<Rightarrow> string option \<Rightarrow> u8 option \<Rightarrow> u64 option \<Rightarrow>
     (string \<times> u8 \<times> u64) list option \<Rightarrow> condition + resolved" where
  "resolve reg WaitCounter wn ww ival conds =
     and_then (ok_or wn (InvalidRequest ''WaitCounter requires watched_name'')) (\<lambda>n.
     if by_name reg n = None then Inl (InterlockNotFound n)
     else and_then (ok_or ww (InvalidRequest ''WaitCounter requires watched_word'')) (\<lambda>b.
     and_then (word_from_byte b) (\<lambda>w. Inr (Some n, Some w, None, None))))"
| "resolve reg WaitTimer wn ww ival conds = Inr (Some clock_name, Some OpenCount, None, None)"
| "resolve reg WaitCron wn ww ival conds =
     and_then (ok_or ival (InvalidRequest ''WaitCron requires interval_ns'')) (\<lambda>ival_ns.
     if ival_ns = 0 then Inl (InvalidRequest ''WaitCron interval_ns must be > 0'')
     else let ival_ms = ival_ns div 1000000 in
     if ival_ms = 0
     then Inl (InvalidRequest (''WaitCron interval_ns ('' @ show_nat (unat ival_ns) @ '') is less than 1ms''))
     else Inr (Some clock_name, Some OpenCount, Some ival_ms, None))"
| "resolve reg WaitBarrier wn ww ival conds =
     and_then (ok_or conds (InvalidRequest ''WaitBarrier requires conditions'')) (\<lambda>cs.
     and_then (parse_conditions reg cs) (\<lambda>parsed. Inr (None, None, None, Some parsed)))"
| "resolve reg Interlock wn ww ival conds = Inr (None, None, None, None)"

text \<open>The next multiple of the interval after \<open>now\<close>; a division by zero panics.\<close>

definition next_grid_line :: "u64 \<Rightarrow> u64 \<Rightarrow> u64 option" where
  "next_grid_line now_ms interval_ms =
     (if interval_ms = 0 then None else Some ((now_ms div interval_ms + 1) * interval_ms))"

text \<open>The words a tier starts with; \<open>unwrap\<close> of a missing interval panics.\<close>

fun init_words :: "tier \<Rightarrow> u64 \<Rightarrow> u64 option \<Rightarrow> region \<Rightarrow> shm \<Rightarrow> shm option" where
  "init_words WaitTimer clock_now_ms ival h s =
     Some (store h Closed_Word clock_now_ms (store h Open_Word clock_now_ms s))"
| "init_words WaitCron clock_now_ms ival h s =
     Option.bind ival (\<lambda>interval_ms.
     map_option (\<lambda>next_line. store h Closed_Word clock_now_ms (store h Open_Word next_line s))
       (next_grid_line clock_now_ms interval_ms))"
| "init_words WaitBarrier clock_now_ms ival h s = Some (store h Open_Word 1 s)"
| "init_words Interlock clock_now_ms ival h s = Some s"
| "init_words WaitCounter clock_now_ms ival h s = Some s"

definition reap_old :: "reap_gaps \<Rightarrow> interlock_entry option \<Rightarrow> shm \<Rightarrow> shm" where
  "reap_old gap old s = (case old of Some e \<Rightarrow> interlock_reap_amid gap (e_handle e) s | None \<Rightarrow> s)"

fun entry_of :: "u64 \<Rightarrow> region \<Rightarrow> tier \<Rightarrow> resolved \<Rightarrow> interlock_entry" where
  "entry_of i h t (wn, ww, ival, conds) =
     \<lparr>e_id = i, e_handle = h, e_tier = t, e_watched_name = wn, e_watched_word = ww,
      e_interval_ms = ival, e_barrier_conditions = conds\<rparr>"

fun resolved_interval :: "resolved \<Rightarrow> u64 option" where
  "resolved_interval (wn, ww, ival, conds) = ival"

definition create ::
    "alloc_replies \<Rightarrow> reap_gaps \<Rightarrow> u64 \<Rightarrow> string \<Rightarrow> tier \<Rightarrow> string option \<Rightarrow> u8 option \<Rightarrow> u64 option \<Rightarrow>
     (string \<times> u8 \<times> u64) list option \<Rightarrow> registry \<Rightarrow> shm \<Rightarrow>
     ((condition + u64 \<times> region) \<times> registry \<times> shm) option" where
  "create k gap now name t wn ww ival conds reg s =
     (if name = clock_name
      then Some (Inl (InvalidRequest ''\"clock\" is a reserved name''), reg, s)
      else case resolve reg t wn ww ival conds of
        Inl e \<Rightarrow> Some (Inl e, reg, s)
      | Inr res \<Rightarrow>
         (case interlock_create k now s of
            (Inl e, s1) \<Rightarrow> Some (Inl e, reg, s1)
          | (Inr h, s1) \<Rightarrow>
             (let i = next_id reg in
              Option.bind (clock reg) (\<lambda>clk.
              Option.bind (init_words t (load clk Open_Word s1) (resolved_interval res) h s1) (\<lambda>s2.
              let s3 = reap_old gap (by_name reg name) s2;
                  reg' = reg\<lparr>next_id := i + 1, by_name := (by_name reg)(name \<mapsto> entry_of i h t res)\<rparr>
              in Some (Inr (i, h), reg', s3))))))"

definition attach :: "string \<Rightarrow> registry \<Rightarrow> condition + u64 \<times> region" where
  "attach name reg =
     (case by_name reg name of
        Some e \<Rightarrow> Inr (e_id e, e_handle e)
      | None \<Rightarrow> Inl (InterlockNotFound name))"

section \<open>The evaluation pass\<close>

fun load_watched :: "watched_word \<Rightarrow> region \<Rightarrow> shm \<Rightarrow> u64" where
  "load_watched OpenCount h s = load h Open_Word s"
| "load_watched ClosedCount h s = load h Closed_Word s"

text \<open>
  What others do to shared memory while an entry is visited: before it, after the load of its
  open count, after that of its closed count, before the wait contract is looked at, after the
  load of the watched word, after the load for each condition (counted from the last, 0),
  between the store and the wake of a firing, before a re-arm, and in the gaps of a reap.
\<close>

record visit =
  before_visit :: "shm \<Rightarrow> shm"
  after_open :: "shm \<Rightarrow> shm"
  after_closed :: "shm \<Rightarrow> shm"
  before_contract :: "shm \<Rightarrow> shm"
  after_watched :: "shm \<Rightarrow> shm"
  after_condition :: "nat \<Rightarrow> shm \<Rightarrow> shm"
  in_fire :: "shm \<Rightarrow> shm"
  before_rearm :: "shm \<Rightarrow> shm"
  in_reap :: reap_gaps

text \<open>Firing: the closed count is stored and its waiters woken.\<close>

definition fire :: "(shm \<Rightarrow> shm) \<Rightarrow> region \<Rightarrow> u64 \<Rightarrow> shm \<Rightarrow> shm" where
  "fire others h v s = futex_wake h Closed_Word (others (store h Closed_Word v s))"

fun condition_met :: "registry \<Rightarrow> shm \<Rightarrow> barrier_condition \<Rightarrow> bool" where
  "condition_met reg s (wn, ww, threshold) =
     (case by_name reg wn of
        Some w \<Rightarrow> threshold \<le> load_watched ww (e_handle w) s
      | None \<Rightarrow> False)"

text \<open>\<open>conds.iter().all\<close> stops at the first condition that is not met.\<close>

fun conditions_met ::
    "registry \<Rightarrow> (nat \<Rightarrow> shm \<Rightarrow> shm) \<Rightarrow> barrier_condition list \<Rightarrow> shm \<Rightarrow> bool \<times> shm" where
  "conditions_met reg others [] s = (True, s)"
| "conditions_met reg others (c # cs) s =
     (let met = condition_met reg s c; s = others (length cs) s
      in if met then conditions_met reg others cs s else (False, s))"

text \<open>The wait contract of an open entry, \<open>target\<close> being the open count it was read with.\<close>

definition evaluate_contract ::
    "u64 \<Rightarrow> registry \<Rightarrow> visit \<Rightarrow> interlock_entry \<Rightarrow> u64 \<Rightarrow> shm \<Rightarrow> shm option" where
  "evaluate_contract clock_now_ms reg v e target s =
     (let h = e_handle e in
      case e_tier e of
        WaitTimer \<Rightarrow> Some (if target \<le> clock_now_ms then fire (in_fire v) h clock_now_ms s else s)
      | WaitCounter \<Rightarrow>
          (case (e_watched_name e, e_watched_word e) of
             (Some wn, Some ww) \<Rightarrow>
               (case by_name reg wn of
                  Some w \<Rightarrow>
                    (let watched_val = load_watched ww (e_handle w) s; s = after_watched v s in
                     Some (if target \<le> watched_val then fire (in_fire v) h watched_val s else s))
                | None \<Rightarrow> Some s)
           | _ \<Rightarrow> Some s)
      | WaitCron \<Rightarrow>
          (if target \<le> clock_now_ms then
             (let s1 = before_rearm v (fire (in_fire v) h clock_now_ms s) in
              case e_interval_ms e of
                Some interval_ms \<Rightarrow>
                  map_option (\<lambda>next_line. store h Open_Word next_line s1)
                    (next_grid_line clock_now_ms interval_ms)
              | None \<Rightarrow> Some s1)
           else Some s)
      | WaitBarrier \<Rightarrow>
          (case e_barrier_conditions e of
             Some conds \<Rightarrow>
               (case conditions_met reg (after_condition v) conds s of
                  (met, s) \<Rightarrow> Some (if met then fire (in_fire v) h clock_now_ms s else s))
           | None \<Rightarrow> Some s)
      | Interlock \<Rightarrow> Some s)"

text \<open>One iteration: whether the entry is to be removed, and the memory after it.\<close>

definition evaluate_entry ::
    "u64 \<Rightarrow> u64 \<Rightarrow> registry \<Rightarrow> visit \<Rightarrow> interlock_entry \<Rightarrow> shm \<Rightarrow> (bool \<times> shm) option" where
  "evaluate_entry clock_now_ms now_ns reg v e s =
     (let h = e_handle e;
          openc = load h Open_Word s; s = after_open v s;
          closedc = load h Closed_Word s; s = after_closed v s;
          expir = load h Expiration_Word s
      in if openc = SENTINEL \<or> closedc = SENTINEL \<or> expir = SENTINEL
         then Some (True, interlock_reap_amid (in_reap v) h s)
         else if \<not> expiration_alive expir now_ns then Some (True, interlock_reap_amid (in_reap v) h s)
         else if sint (openc - closedc) \<le> 0 then Some (False, s)
         else map_option (\<lambda>s'. (False, s'))
                (evaluate_contract clock_now_ms reg v e openc (before_contract v s)))"

text \<open>
  The iteration over the map: the names in the order visited, each with what others do to
  shared memory meanwhile.  The result is the list of names to remove and the memory.
\<close>

type_synonym pass_schedule = "(string \<times> visit) list"

fun evaluate_each ::
    "u64 \<Rightarrow> u64 \<Rightarrow> registry \<Rightarrow> pass_schedule \<Rightarrow> shm \<Rightarrow> (string list \<times> shm) option" where
  "evaluate_each clock_now_ms now_ns reg [] s = Some ([], s)"
| "evaluate_each clock_now_ms now_ns reg ((name, v) # sched) s =
     (let s = before_visit v s in
      if name = clock_name then evaluate_each clock_now_ms now_ns reg sched s
      else case by_name reg name of
        None \<Rightarrow> evaluate_each clock_now_ms now_ns reg sched s
      | Some e \<Rightarrow>
          Option.bind (evaluate_entry clock_now_ms now_ns reg v e s) (\<lambda>(dead, s').
          map_option (\<lambda>(to_remove, s''). ((if dead then name # to_remove else to_remove), s''))
            (evaluate_each clock_now_ms now_ns reg sched s')))"

definition remove_names :: "string list \<Rightarrow> registry \<Rightarrow> registry" where
  "remove_names names reg = reg\<lparr>by_name := fold (\<lambda>n m. m(n := None)) names (by_name reg)\<rparr>"

definition evaluate_all ::
    "u64 \<Rightarrow> u64 \<Rightarrow> pass_schedule \<Rightarrow> registry \<Rightarrow> shm \<Rightarrow> (registry \<times> shm) option" where
  "evaluate_all clock_now_ms now_ns sched reg s =
     map_option (\<lambda>(to_remove, s'). (remove_names to_remove reg, s'))
       (evaluate_each clock_now_ms now_ns reg sched s)"

section \<open>The clock entry\<close>

text \<open>The result of the arm is ignored; \<open>expect\<close> in \<open>clock\<close> panics on a missing entry.\<close>

definition refresh_clock_expiration :: "u64 \<Rightarrow> arm_schedule \<Rightarrow> registry \<Rightarrow> shm \<Rightarrow> shm option" where
  "refresh_clock_expiration now sched reg s =
     Option.bind (clock reg) (\<lambda>clk.
     case interlock_arm clk 1000000000 now sched s of
       (Some _, s') \<Rightarrow> Some s'
     | (None, s') \<Rightarrow> None)"

definition dup_clock_fd :: "int \<Rightarrow> errno \<Rightarrow> registry \<Rightarrow> (condition + region) option" where
  "dup_clock_fd raw err reg = map_option (interlock_dup_fd raw err) (clock reg)"

section \<open>Well-formed registries\<close>

text \<open>The fields an entry of each tier carries.\<close>

definition entry_wf :: "interlock_entry \<Rightarrow> bool" where
  "entry_wf e \<longleftrightarrow>
     (case e_tier e of
        Interlock \<Rightarrow> e_watched_name e = None \<and> e_watched_word e = None \<and> e_interval_ms e = None \<and>
          e_barrier_conditions e = None
      | WaitCounter \<Rightarrow> e_watched_name e \<noteq> None \<and> e_watched_word e \<noteq> None \<and> e_interval_ms e = None \<and>
          e_barrier_conditions e = None
      | WaitTimer \<Rightarrow> e_watched_name e = Some clock_name \<and> e_watched_word e = Some OpenCount \<and>
          e_interval_ms e = None \<and> e_barrier_conditions e = None
      | WaitCron \<Rightarrow> e_watched_name e = Some clock_name \<and> e_watched_word e = Some OpenCount \<and>
          e_interval_ms e \<noteq> None \<and> e_interval_ms e \<noteq> Some 0 \<and> e_barrier_conditions e = None
      | WaitBarrier \<Rightarrow> e_watched_name e = None \<and> e_watched_word e = None \<and> e_interval_ms e = None \<and>
          e_barrier_conditions e \<noteq> None)"

text \<open>
  The clock is always there and is a plain interlock; every handle is a region that exists,
  and no two names share one.
\<close>

definition registry_inv :: "registry \<Rightarrow> shm \<Rightarrow> bool" where
  "registry_inv reg s \<longleftrightarrow>
     (\<exists>h. by_name reg clock_name = Some (clock_entry h)) \<and>
     (\<forall>n e. by_name reg n = Some e \<longrightarrow> e_handle e < next_region s \<and> entry_wf e) \<and>
     (\<forall>n m e f. by_name reg n = Some e \<longrightarrow> by_name reg m = Some f \<longrightarrow> e_handle e = e_handle f \<longrightarrow> n = m)"

text \<open>Identifiers are assigned in order and never shared, as long as the counter has not wrapped.\<close>

definition ids_inv :: "registry \<Rightarrow> bool" where
  "ids_inv reg \<longleftrightarrow>
     (\<forall>n e. by_name reg n = Some e \<longrightarrow> e_id e < next_id reg) \<and>
     (\<forall>n m e f. by_name reg n = Some e \<longrightarrow> by_name reg m = Some f \<longrightarrow> e_id e = e_id f \<longrightarrow> n = m)"

lemma registry_invD:
  assumes "registry_inv reg s"
  shows "\<exists>h. by_name reg clock_name = Some (clock_entry h)"
    and "by_name reg n = Some e \<Longrightarrow> e_handle e < next_region s"
    and "by_name reg n = Some e \<Longrightarrow> entry_wf e"
    and "by_name reg n = Some e \<Longrightarrow> by_name reg m = Some f \<Longrightarrow> e_handle e = e_handle f \<Longrightarrow> n = m"
  using assms by (auto simp: registry_inv_def)

lemma registry_inv_mono:
  "registry_inv reg s \<Longrightarrow> next_region s \<le> next_region s' \<Longrightarrow> registry_inv reg s'"
  unfolding registry_inv_def by (meson order_less_le_trans)

lemma clock_inv: "registry_inv reg s \<Longrightarrow> \<exists>h. clock reg = Some h \<and> h < next_region s"
  by (auto simp: registry_inv_def clock_def)

section \<open>What others do\<close>

text \<open>A visit nobody disturbs, and a property of all that others do during one.\<close>

definition quiet_visit :: visit where
  "quiet_visit =
     \<lparr>before_visit = (\<lambda>s. s), after_open = (\<lambda>s. s), after_closed = (\<lambda>s. s), before_contract = (\<lambda>s. s),
      after_watched = (\<lambda>s. s), after_condition = (\<lambda>_ s. s), in_fire = (\<lambda>s. s), before_rearm = (\<lambda>s. s),
      in_reap = no_gap\<rparr>"

lemma quiet_visit_simps [simp]:
  "before_visit quiet_visit = (\<lambda>s. s)" "after_open quiet_visit = (\<lambda>s. s)" "after_closed quiet_visit = (\<lambda>s. s)"
  "before_contract quiet_visit = (\<lambda>s. s)" "after_watched quiet_visit = (\<lambda>s. s)"
  "after_condition quiet_visit = (\<lambda>_ s. s)" "in_fire quiet_visit = (\<lambda>s. s)" "before_rearm quiet_visit = (\<lambda>s. s)"
  "in_reap quiet_visit = no_gap"
  by (simp_all add: quiet_visit_def)

definition visit_all :: "((shm \<Rightarrow> shm) \<Rightarrow> bool) \<Rightarrow> visit \<Rightarrow> bool" where
  "visit_all P v \<longleftrightarrow>
     P (before_visit v) \<and> P (after_open v) \<and> P (after_closed v) \<and> P (before_contract v) \<and>
     P (after_watched v) \<and> (\<forall>i. P (after_condition v i)) \<and> P (in_fire v) \<and> P (before_rearm v) \<and>
     (\<forall>i. P (in_reap v i))"

lemma visit_all_quiet [simp]: "visit_all P quiet_visit \<longleftrightarrow> P (\<lambda>s. s)"
  by (simp add: visit_all_def)

lemma visit_all_mono: "visit_all P v \<Longrightarrow> (\<And>f. P f \<Longrightarrow> Q f) \<Longrightarrow> visit_all Q v"
  by (simp add: visit_all_def)

lemma conditions_met_quiet [simp]:
  "conditions_met reg (\<lambda>_ s. s) cs s = (list_all (condition_met reg s) cs, s)"
  by (induction cs) auto

section \<open>What the pass is made of\<close>

text \<open>
  The pass reaps, fires and arms the next line of a cron.  Whatever preorder those keep to, and
  the others that come between them, a visit and the whole pass keep to.
\<close>

locale pass_effects =
  fixes H :: "region set"
    and R :: "shm \<Rightarrow> shm \<Rightarrow> bool"
  assumes E_refl: "R s s"
    and E_trans: "R s t \<Longrightarrow> R t u \<Longrightarrow> R s u"
    and E_reap: "h \<in> H \<Longrightarrow> (\<And>i s. R s (gap i s)) \<Longrightarrow> R s (interlock_reap_amid gap h s)"
    and E_fire: "h \<in> H \<Longrightarrow> (\<And>s. R s (others s)) \<Longrightarrow> R s (fire others h v s)"
    and E_rearm: "h \<in> H \<Longrightarrow> R s (store h Open_Word v s)"
begin

lemma testing: "(\<And>i s. R s (others i s)) \<Longrightarrow> R s (snd (conditions_met reg others cs s))"
proof (induction cs arbitrary: s)
  case (Cons c cs)
  have 1: "R s (others (length cs) s)" by (rule Cons.prems)
  moreover have "R (others (length cs) s) (snd (conditions_met reg others cs (others (length cs) s)))"
    by (rule Cons.IH) (rule Cons.prems)
  ultimately have "R s (snd (conditions_met reg others cs (others (length cs) s)))" by (rule E_trans)
  with 1 show ?case by (simp add: Let_def)
qed (simp add: E_refl)

lemma contract:
  assumes "evaluate_contract now_ms reg v e target s = Some s'" and "visit_all (\<lambda>f. \<forall>s. R s (f s)) v"
    and "e_handle e \<in> H"
  shows "R s s'"
proof -
  have others: "R s (after_watched v s)" "R s (after_condition v i s)" "R s (in_fire v s)"
    "R s (before_rearm v s)" for i s
    using assms(2) by (simp_all add: visit_all_def)
  have fired: "R s (fire (in_fire v) (e_handle e) u s)" for u s by (rule E_fire [OF assms(3)]) (rule others)
  have rearmed: "R s (before_rearm v (fire (in_fire v) (e_handle e) u s))" for u s
    by (rule E_trans [OF fired others(4)])
  show ?thesis
  proof (cases "e_tier e")
    case WaitBarrier
    obtain met t where c: "\<And>cs. e_barrier_conditions e = Some cs \<Longrightarrow>
        conditions_met reg (after_condition v) cs s = (met, t)"
      by (cases "e_barrier_conditions e"; cases "conditions_met reg (after_condition v) (the (e_barrier_conditions e)) s")
        auto
    then have "R s t" if "e_barrier_conditions e \<noteq> None"
      using that testing [of "after_condition v" s reg "the (e_barrier_conditions e)"] others(2) by auto
    with c assms(1) WaitBarrier show ?thesis
      by (auto simp: evaluate_contract_def Let_def E_refl split: option.splits if_splits
          intro: E_trans [OF _ fired])
  qed (use assms(1) in \<open>auto simp: evaluate_contract_def Let_def E_refl fired rearmed others
      split: option.splits if_splits intro: E_trans [OF others(1) fired] E_trans [OF rearmed E_rearm [OF assms(3)]]\<close>)
qed

lemma visiting:
  assumes "evaluate_entry now_ms now_ns reg v e s = Some (dead, s')" and v: "visit_all (\<lambda>f. \<forall>s. R s (f s)) v"
    and h: "e_handle e \<in> H"
  shows "R s s'"
proof -
  let ?t = "after_closed v (after_open v s)"
  have t: "R s ?t" "R s (before_contract v ?t)"
    using v unfolding visit_all_def by (meson E_trans)+
  have reaped: "R s (interlock_reap_amid (in_reap v) (e_handle e) ?t)"
    using v by (intro E_trans [OF t(1) E_reap [OF h]]) (simp add: visit_all_def)
  show ?thesis
    using assms(1) t reaped contract [OF _ v h]
    by (auto simp: evaluate_entry_def Let_def split: if_splits intro: E_trans)
qed

lemma visiting_all:
  assumes handles: "\<And>n e. by_name reg n = Some e \<Longrightarrow> n \<noteq> clock_name \<Longrightarrow> e_handle e \<in> H"
  shows "\<forall>(n, v) \<in> set sched. visit_all (\<lambda>f. \<forall>s. R s (f s)) v \<Longrightarrow>
     evaluate_each now_ms now_ns reg sched s = Some (rm, s') \<Longrightarrow> R s s'"
proof (induction sched arbitrary: s rm)
  case Nil
  then show ?case by (simp add: E_refl)
next
  case (Cons x sched)
  obtain n v where x: "x = (n, v)" by fastforce
  have v: "visit_all (\<lambda>f. \<forall>s. R s (f s)) v" using Cons.prems(1) by (simp add: x)
  then have f: "R s (before_visit v s)" by (simp add: visit_all_def)
  have IH: "R t s'" if "evaluate_each now_ms now_ns reg sched t = Some (rm', s')" for t rm'
    using Cons.IH [OF _ that] Cons.prems(1) by simp
  show ?case
    using Cons.prems(2) f IH visiting [OF _ v handles]
    by (auto simp: x Let_def bind_eq_Some_conv split: if_splits option.splits) (meson E_trans)+
qed

end

section \<open>The accesses of the daemon\<close>

text \<open>
  What the daemon does to shared memory, one access at a time: it stores counts, stores the
  sentinel into any word, wakes, and allocates regions.  Whatever preorder those accesses and
  the others that come between them keep to, every operation keeps to.
\<close>

locale region_accesses =
  fixes H :: "region set"
    and R :: "shm \<Rightarrow> shm \<Rightarrow> bool"
  assumes R_refl: "R s s"
    and R_trans: "R s t \<Longrightarrow> R t u \<Longrightarrow> R s u"
    and R_count: "r \<in> H \<Longrightarrow> w \<noteq> Expiration_Word \<Longrightarrow> R s (store r w v s)"
    and R_sentinel: "r \<in> H \<Longrightarrow> R s (store r w SENTINEL s)"
    and R_wake: "R s (futex_wake r w s)"
begin

text \<open>One access more.\<close>

lemma more:
  shows "R s t \<Longrightarrow> r \<in> H \<Longrightarrow> w \<noteq> Expiration_Word \<Longrightarrow> R s (store r w v t)"
    and "R s t \<Longrightarrow> r \<in> H \<Longrightarrow> R s (store r w' SENTINEL t)"
    and "R s t \<Longrightarrow> R s (futex_wake r w' t)" and "R s t \<Longrightarrow> (\<And>u. R u (f u)) \<Longrightarrow> R s (f t)"
  by (blast intro: R_trans R_count R_sentinel R_wake)+

lemma reaping: "h \<in> H \<Longrightarrow> (\<And>i s. R s (gap i s)) \<Longrightarrow> R s (interlock_reap_amid gap h s)"
  unfolding interlock_reap_amid_def Let_def
  by (intro more(2,3) R_refl more(4) [of s _ "gap 0"] more(4) [of s _ "gap 1"] more(4) [of s _ "gap 2"]
      more(4) [of s _ "gap 3"])

lemma firing: "h \<in> H \<Longrightarrow> (\<And>s. R s (others s)) \<Longrightarrow> R s (fire others h v s)"
  unfolding fire_def by (intro more(3) more(4) [of s _ others] more(1) R_refl) simp_all

end

sublocale region_accesses \<subseteq> pass_effects
  by unfold_locales (simp_all add: R_refl R_count reaping firing, rule R_trans)

text \<open>An operation that allocates, or may reap any entry, needs all regions.\<close>

locale daemon_accesses = region_accesses UNIV R for R +
  assumes R_alloc: "interlock_create k now s = (out, s') \<Longrightarrow> R s s'"
begin

lemma reaping_old: "(\<And>i s. R s (gap i s)) \<Longrightarrow> R s (reap_old gap old s)"
  by (auto simp: reap_old_def R_refl reaping [OF UNIV_I] split: option.split)

lemma initialising: "init_words t now ival h s = Some s' \<Longrightarrow> R s s'"
  by (cases t; auto simp: bind_eq_Some_conv R_refl R_count [OF UNIV_I] intro!: R_trans [OF R_count [OF UNIV_I] R_count [OF UNIV_I]])

lemma creating:
  assumes "create k gap now name t wn ww ival conds reg s = Some (out, reg', s')"
    and "\<And>i s. R s (gap i s)"
  shows "R s s'"
proof -
  from assms(1) consider "s' = s" | e where "interlock_create k now s = (Inl e, s')"
    | h s1 c ival s2 old where "interlock_create k now s = (Inr h, s1)" "init_words t c ival h s1 = Some s2"
        "s' = reap_old gap old s2"
    by (auto simp: create_def Let_def bind_eq_Some_conv split: if_splits sum.splits prod.splits)
  then show ?thesis
  proof cases
    case 3
    have "R s s2" by (rule R_trans [OF R_alloc [OF 3(1)] initialising [OF 3(2)]])
    moreover have "R s2 s'" unfolding 3(3) by (rule reaping_old) (rule assms(2))
    ultimately show ?thesis by (rule R_trans)
  qed (auto simp: R_refl dest: R_alloc)
qed

lemma passing:
  "\<forall>(n, v) \<in> set sched. visit_all (\<lambda>f. \<forall>s. R s (f s)) v \<Longrightarrow>
     evaluate_each now_ms now_ns reg sched s = Some (rm, s') \<Longrightarrow> R s s'"
  by (rule visiting_all [OF UNIV_I])

end

text \<open>Regions are never freed.\<close>

abbreviation allocates :: "(shm \<Rightarrow> shm) \<Rightarrow> bool" where
  "allocates f \<equiv> (\<forall>s. next_region s \<le> next_region (f s))"

interpretation regions: daemon_accesses "\<lambda>s t. next_region s \<le> next_region t"
proof
  show "next_region s \<le> next_region s'" if "interlock_create k now s = (out, s')" for k now s out s'
    using that interlock_create_Inl(1) interlock_create_Inr(2) by (cases out) fastforce+
qed (auto simp: shm_simps)

section \<open>Create\<close>

lemma resolve_entry_wf: "resolve reg t wn ww ival conds = Inr res \<Longrightarrow> entry_wf (entry_of i h t res)"
  by (cases t) (auto simp: entry_wf_def Let_def split: if_splits)

lemma resolve_interval:
  "resolve reg t wn ww ival conds = Inr res \<Longrightarrow> t = WaitCron \<Longrightarrow>
     \<exists>i. resolved_interval res = Some i \<and> i \<noteq> 0 \<and> ival \<noteq> None \<and> i = the ival div 1000000"
  by (auto simp: Let_def split: if_splits)

lemma entry_of_sel [simp]:
  "e_id (entry_of i h t res) = i" "e_handle (entry_of i h t res) = h" "e_tier (entry_of i h t res) = t"
  by (cases res; simp)+

lemma entry_of_interval: "e_interval_ms (entry_of i h t res) = resolved_interval res"
  by (cases res) simp

lemma load_init_words:
  assumes "init_words t now ival h s = Some s'"
  shows "r \<noteq> h \<or> w = Expiration_Word \<Longrightarrow> load r w s' = load r w s"
    and "next_region s' = next_region s"
  using assms by (cases t; auto simp: bind_eq_Some_conv shm_simps next_grid_line_def split: if_splits)+

lemma init_words_total:
  "(t = WaitCron \<Longrightarrow> \<exists>i. ival = Some i \<and> i \<noteq> 0) \<Longrightarrow> \<exists>s'. init_words t now ival h s = Some s'"
  by (cases t) (auto simp: next_grid_line_def)

lemma load_reap_old [shm_simps]:
  "load r w (reap_old no_gap old s) =
     (if map_option e_handle old = Some r then SENTINEL else load r w s)"
  "next_region (reap_old no_gap old s) = next_region s"
  by (auto simp: reap_old_def shm_simps split: option.splits)

text \<open>What a successful \<open>create\<close> is made of.\<close>

lemma create_Inr:
  assumes "create k gap now name t wn ww ival conds reg s = Some (Inr (i, h), reg', s')"
  obtains res s1 s2 clk where "name \<noteq> clock_name" and "resolve reg t wn ww ival conds = Inr res"
    and "interlock_create k now s = (Inr h, s1)" and "clock reg = Some clk"
    and "init_words t (load clk Open_Word s1) (resolved_interval res) h s1 = Some s2"
    and "s' = reap_old gap (by_name reg name) s2" and "i = next_id reg"
    and "reg' = reg\<lparr>next_id := i + 1, by_name := (by_name reg)(name \<mapsto> entry_of i h t res)\<rparr>"
  using assms
  by (auto simp: create_def Let_def bind_eq_Some_conv split: if_splits sum.splits prod.splits)

lemma create_Inl:
  assumes "create k gap now name t wn ww ival conds reg s = Some (Inl e, reg', s')"
  shows "reg' = reg \<and>
    (name = clock_name \<and> s' = s \<and> e = InvalidRequest ''\"clock\" is a reserved name'' \<or>
     name \<noteq> clock_name \<and> s' = s \<and> resolve reg t wn ww ival conds = Inl e \<or>
     name \<noteq> clock_name \<and> interlock_create k now s = (Inl e, s') \<and>
       (\<exists>res. resolve reg t wn ww ival conds = Inr res))"
  using assms
  by (auto simp: create_def Let_def bind_eq_Some_conv split: if_splits sum.splits prod.splits)

lemma create_total:
  assumes "registry_inv reg s"
  shows "create k gap now name t wn ww ival conds reg s \<noteq> None"
proof (cases "resolve reg t wn ww ival conds")
  case (Inr res)
  obtain h where "clock reg = Some h" using clock_inv [OF assms] by blast
  moreover have "\<And>now h s. \<exists>s'. init_words t now (resolved_interval res) h s = Some s'"
    using resolve_interval [OF Inr] by (intro init_words_total) auto
  then have "\<And>now h s. init_words t now (resolved_interval res) h s \<noteq> None" by (metis option.distinct(1))
  ultimately show ?thesis
    by (auto simp: create_def Inr Let_def Option.bind_eq_None_conv simp del: not_None_eq
        split: prod.splits sum.splits)
qed (simp add: create_def)

lemma create_inv:
  assumes "registry_inv reg s" and "create k gap now name t wn ww ival conds reg s = Some (out, reg', s')"
    and "\<And>i. allocates (gap i)"
  shows "registry_inv reg' s' \<and> next_region s \<le> next_region s'"
proof (cases out)
  case (Inl e)
  with create_Inl assms(2) have "reg' = reg" "next_region s \<le> next_region s'"
    using interlock_create_Inl(1) by (metis order.refl)+
  with assms(1) show ?thesis by (auto intro: registry_inv_mono)
next
  case (Inr a)
  obtain i h where out: "out = Inr (i, h)" using Inr by (cases a) auto
  from create_Inr [OF assms(2) [unfolded out]] obtain res s1 s2 clk where
    name: "name \<noteq> clock_name" and res: "resolve reg t wn ww ival conds = Inr res"
    and s1: "interlock_create k now s = (Inr h, s1)"
    and s2: "init_words t (load clk Open_Word s1) (resolved_interval res) h s1 = Some s2"
    and s': "s' = reap_old gap (by_name reg name) s2"
    and reg': "reg' = reg\<lparr>next_id := i + 1, by_name := (by_name reg)(name \<mapsto> entry_of i h t res)\<rparr>"
    by metis
  have h: "h = next_region s" by (rule interlock_create_Inr(1) [OF s1])
  have "next_region s2 \<le> next_region s'" unfolding s' by (rule regions.reaping_old) (use assms(3) in blast)
  then have grown: "Suc (next_region s) \<le> next_region s'"
    using interlock_create_Inr(2) [OF s1] load_init_words(2) [OF s2] by simp
  have fresh: "by_name reg n = Some e \<Longrightarrow> e_handle e \<noteq> next_region s" for n e
    using registry_invD(2) [OF assms(1)] by fastforce
  have "registry_inv reg' s'"
    unfolding registry_inv_def
    using registry_invD [OF assms(1)] resolve_entry_wf [OF res] name grown h
    by (auto simp: reg' dest: fresh fresh [symmetric] order.strict_trans2 [OF _ Suc_leD [OF grown]] split: if_splits)
  with grown show ?thesis by simp
qed

lemma create_clock:
  assumes "create k gap now name t wn ww ival conds reg s = Some (out, reg', s')"
  shows "clock reg' = clock reg"
proof (cases out)
  case (Inl e)
  with create_Inl assms show ?thesis by metis
next
  case (Inr a)
  then obtain i h where out: "out = Inr (i, h)" by (cases a) auto
  show ?thesis by (rule create_Inr [OF assms [unfolded out]]) (simp add: clock_def)
qed

lemma create_frame:
  assumes "create k no_gap now name t wn ww ival conds reg s = Some (out, reg', s')"
    and "r < next_region s" and "\<And>n e. by_name reg n = Some e \<Longrightarrow> e_handle e \<noteq> r"
  shows "mem s' r = mem s r" and "by_name reg' n = Some e \<Longrightarrow> e_handle e \<noteq> r"
proof -
  have "mem s' r = mem s r \<and> (by_name reg' n = Some e \<longrightarrow> e_handle e \<noteq> r)"
  proof (cases out)
    case (Inl e)
    with create_Inl assms(1) have "reg' = reg" "mem s' r = mem s r"
      using interlock_create_Inl(2) assms(2) by metis+
    with assms(3) show ?thesis by blast
  next
    case (Inr a)
    then obtain i h where out: "out = Inr (i, h)" by (cases a) auto
    show ?thesis
    proof (rule create_Inr [OF assms(1) [unfolded out]])
      fix res s1 s2 clk
      assume s1: "interlock_create k now s = (Inr h, s1)"
        and s2: "init_words t (load clk Open_Word s1) (resolved_interval res) h s1 = Some s2"
        and s': "s' = reap_old no_gap (by_name reg name) s2"
        and reg': "reg' = reg\<lparr>next_id := i + 1, by_name := (by_name reg)(name \<mapsto> entry_of i h t res)\<rparr>"
      have ne: "r \<noteq> h" using interlock_create_Inr(1) [OF s1] assms(2) by simp
      have "mem s' r = mem s2 r"
        using assms(3) by (intro mem_eqI) (auto simp: s' shm_simps)
      also have "mem s2 r = mem s1 r" using load_init_words(1) [OF s2] ne by (intro mem_eqI) auto
      also have "mem s1 r = mem s r" by (rule interlock_create_Inr(4) [OF s1 ne])
      finally show ?thesis using ne assms(3) by (auto simp: reg')
    qed
  qed
  then show "mem s' r = mem s r" and "by_name reg' n = Some e \<Longrightarrow> e_handle e \<noteq> r" by blast+
qed

section \<open>One entry of the pass\<close>

definition entry_dead :: "u64 \<Rightarrow> interlock_entry \<Rightarrow> shm \<Rightarrow> bool" where
  "entry_dead now_ns e s \<longleftrightarrow>
     interlock_is_terminated (e_handle e) s \<or>
     \<not> expiration_alive (load (e_handle e) Expiration_Word s) now_ns"

text \<open>Open in the sense of the pass: a positive difference of the counts, as a signed number.\<close>

definition entry_open :: "interlock_entry \<Rightarrow> shm \<Rightarrow> bool" where
  "entry_open e s \<longleftrightarrow> 0 < sint (load (e_handle e) Open_Word s - load (e_handle e) Closed_Word s)"

lemma evaluate_entry_cases:
  "evaluate_entry now_ms now_ns reg quiet_visit e s =
     (if entry_dead now_ns e s then Some (True, interlock_reap (e_handle e) s)
      else if entry_open e s
      then map_option (\<lambda>s'. (False, s'))
             (evaluate_contract now_ms reg quiet_visit e (load (e_handle e) Open_Word s) s)
      else Some (False, s))"
  by (auto simp: evaluate_entry_def entry_dead_def entry_open_def interlock_is_terminated_def Let_def)

lemma load_fire [shm_simps]:
  "load r w (fire (\<lambda>s. s) h v s) = (if r = h \<and> w = Closed_Word then v else load r w s)"
  "next_region (fire (\<lambda>s. s) h v s) = next_region s"
  "trace (fire (\<lambda>s. s) h v s) = trace s @ [Stored h Closed_Word v, Woken h Closed_Word]"
  by (auto simp: fire_def shm_simps)

lemma evaluate_contract_frame:
  assumes "evaluate_contract now_ms reg quiet_visit e target s = Some s'"
  shows "r \<noteq> e_handle e \<or> w = Expiration_Word \<Longrightarrow> load r w s' = load r w s"
    and "next_region s' = next_region s"
  using assms
  by (auto simp: evaluate_contract_def Let_def shm_simps next_grid_line_def
      split: tier.splits option.splits if_splits)

lemma evaluate_contract_total: "entry_wf e \<Longrightarrow> evaluate_contract now_ms reg v e target s \<noteq> None"
  by (auto simp: evaluate_contract_def entry_wf_def Let_def next_grid_line_def
      split: tier.splits option.splits prod.split)

lemma evaluate_entry_frame:
  assumes "evaluate_entry now_ms now_ns reg quiet_visit e s = Some (dead, s')"
  shows "r \<noteq> e_handle e \<Longrightarrow> mem s' r = mem s r" and "next_region s' = next_region s"
    and "dead \<longleftrightarrow> entry_dead now_ns e s"
  using assms
  by (auto simp: evaluate_entry_cases shm_simps intro!: mem_eqI dest: evaluate_contract_frame
      split: if_splits)

lemma evaluate_entry_total: "entry_wf e \<Longrightarrow> evaluate_entry now_ms now_ns reg v e s \<noteq> None"
  using evaluate_contract_total [of e] by (auto simp: evaluate_entry_def Let_def)

section \<open>The pass\<close>

lemma evaluate_each_append:
  "evaluate_each now_ms now_ns reg (xs @ ys) s =
     Option.bind (evaluate_each now_ms now_ns reg xs s) (\<lambda>(rm, s').
     map_option (\<lambda>(rm', s''). (rm @ rm', s'')) (evaluate_each now_ms now_ns reg ys s'))"
proof (induction xs arbitrary: s)
  case Nil
  then show ?case by (auto simp: option.map_id0 split: option.splits)
next
  case (Cons x xs)
  then show ?case
    by (cases x) (auto simp: Let_def Option.bind_map_option option.map_comp o_def
        case_prod_unfold split: option.splits Option.bind_splits)
qed

lemma by_name_remove_names:
  "by_name (remove_names names reg) n = (if n \<in> set names then None else by_name reg n)"
proof -
  have "fold (\<lambda>n m. m(n := None)) names m n = (if n \<in> set names then None else m n)"
    for m :: "string \<rightharpoonup> interlock_entry"
    by (induction names arbitrary: m) auto
  then show ?thesis by (simp add: remove_names_def)
qed

text \<open>Others that allocate but never free regions; what they write is not restricted.\<close>

definition schedule_ok :: "pass_schedule \<Rightarrow> bool" where
  "schedule_ok sched \<longleftrightarrow> (\<forall>(n, v) \<in> set sched. visit_all allocates v)"

lemma evaluate_each_total:
  assumes "registry_inv reg s" and "schedule_ok sched"
  shows "\<exists>rm s'. evaluate_each now_ms now_ns reg sched s = Some (rm, s') \<and>
    next_region s \<le> next_region s' \<and> clock_name \<notin> set rm"
  using assms
proof (induction sched arbitrary: s)
  case Nil
  then show ?case by simp
next
  case (Cons x sched)
  obtain name v where x: "x = (name, v)" by fastforce
  let ?s = "before_visit v s"
  have v: "visit_all allocates v" and ok: "schedule_ok sched"
    using Cons.prems(2) by (auto simp: schedule_ok_def x)
  have le: "next_region s \<le> next_region ?s" using v by (simp add: visit_all_def)
  have inv: "registry_inv reg ?s" by (rule registry_inv_mono [OF Cons.prems(1) le])
  show ?case
  proof (cases "name = clock_name \<or> by_name reg name = None")
    case True
    with Cons.IH [OF inv ok] le show ?thesis
      by (auto simp: x Let_def split: option.splits intro: order_trans)
  next
    case False
    then obtain e where e: "by_name reg name = Some e" and name: "name \<noteq> clock_name" by auto
    obtain b t where t: "evaluate_entry now_ms now_ns reg v e ?s = Some (b, t)"
      using evaluate_entry_total [OF registry_invD(3) [OF inv e], of now_ms now_ns reg v ?s] by auto
    have t': "next_region ?s \<le> next_region t" by (rule regions.visiting [OF t v UNIV_I])
    with inv have "registry_inv reg t" by (auto intro: registry_inv_mono)
    from Cons.IH [OF this ok] obtain rm s' where
      "evaluate_each now_ms now_ns reg sched t = Some (rm, s')"
      "next_region t \<le> next_region s'" "clock_name \<notin> set rm" by auto
    with name le t' show ?thesis by (auto simp: x Let_def e t)
  qed
qed

lemma registry_inv_remove_names:
  "registry_inv reg s \<Longrightarrow> clock_name \<notin> set names \<Longrightarrow> registry_inv (remove_names names reg) s"
  unfolding registry_inv_def by (auto simp: by_name_remove_names split: if_splits)

text \<open>A pass during which nobody else writes.\<close>

definition isolated :: "string list \<Rightarrow> pass_schedule" where
  "isolated order = map (\<lambda>n. (n, quiet_visit)) order"

lemma isolated_simps [simp]:
  "isolated [] = []" "isolated (n # ns) = (n, quiet_visit) # isolated ns"
  "isolated (ns @ ms) = isolated ns @ isolated ms"
  by (simp_all add: isolated_def)

lemma schedule_ok_isolated [simp]: "schedule_ok (isolated order)"
  by (auto simp: schedule_ok_def isolated_def)

lemma evaluate_each_frame:
  assumes "evaluate_each now_ms now_ns reg (isolated order) s = Some (rm, s')"
    and "\<And>n e. n \<in> set order \<Longrightarrow> n \<noteq> clock_name \<Longrightarrow> by_name reg n = Some e \<Longrightarrow> e_handle e \<noteq> r"
  shows "mem s' r = mem s r"
  using assms
proof (induction order arbitrary: s rm)
  case Nil
  then show ?case by simp
next
  case (Cons n order)
  show ?case
  proof (cases "n = clock_name \<or> by_name reg n = None")
    case True
    with Cons.prems(1) have "evaluate_each now_ms now_ns reg (isolated order) s = Some (rm, s')"
      by (auto simp: Let_def split: if_splits)
    then show ?thesis by (rule Cons.IH) (use Cons.prems(2) in auto)
  next
    case False
    then obtain e where e: "by_name reg n = Some e" and n: "n \<noteq> clock_name" by auto
    with Cons.prems(1) obtain b t rm' where t: "evaluate_entry now_ms now_ns reg quiet_visit e s = Some (b, t)"
      and s': "evaluate_each now_ms now_ns reg (isolated order) t = Some (rm', s')"
      by (auto simp: Let_def bind_eq_Some_conv)
    have "mem s' r = mem t r" using Cons.IH [OF s'] Cons.prems(2) by auto
    also have "mem t r = mem s r"
      using evaluate_entry_frame(1) [OF t] Cons.prems(2) [of n e] n e by auto
    finally show ?thesis .
  qed
qed

text \<open>
  The visit of one entry within an isolated pass: its own words are still those of the start
  when it is visited, and nothing touches them afterwards.
\<close>

lemma evaluate_visit:
  assumes "registry_inv reg s" and "distinct order" and "n \<in> set order"
    and e: "by_name reg n = Some e" and n: "n \<noteq> clock_name"
    and run: "evaluate_each now_ms now_ns reg (isolated order) s = Some (rm, s')"
  obtains pre post rm1 s1 b s2 rm2 where "order = pre @ n # post"
    and "evaluate_each now_ms now_ns reg (isolated pre) s = Some (rm1, s1)"
    and "mem s1 (e_handle e) = mem s (e_handle e)"
    and "evaluate_entry now_ms now_ns reg quiet_visit e s1 = Some (b, s2)"
    and "evaluate_each now_ms now_ns reg (isolated post) s2 = Some (rm2, s')"
    and "mem s' (e_handle e) = mem s2 (e_handle e)"
    and "rm = rm1 @ (if b then n # rm2 else rm2)"
proof -
  obtain pre post where order: "order = pre @ n # post" using assms(3) split_list by fast
  have notin: "n \<notin> set pre" "n \<notin> set post" using assms(2) by (auto simp: order)
  from run e n obtain rm1 s1 b s2 rm2 where
    1: "evaluate_each now_ms now_ns reg (isolated pre) s = Some (rm1, s1)"
    and 2: "evaluate_entry now_ms now_ns reg quiet_visit e s1 = Some (b, s2)"
    and 3: "evaluate_each now_ms now_ns reg (isolated post) s2 = Some (rm2, s')"
    and 4: "rm = rm1 @ (if b then n # rm2 else rm2)"
    by (auto simp: order evaluate_each_append Let_def bind_eq_Some_conv split: if_splits)
  have other: "m \<in> set pre \<union> set post \<Longrightarrow> by_name reg m = Some f \<Longrightarrow> e_handle f \<noteq> e_handle e" for m f
    using registry_invD(4) [OF assms(1) _ e] notin by blast
  show thesis
    by (rule that [OF order 1 _ 2 3 _ 4])
       (rule evaluate_each_frame [OF 1], use other in blast,
        rule evaluate_each_frame [OF 3], use other in blast)
qed

lemma entry_dead_mem:
  "mem s (e_handle e) = mem t (e_handle e) \<Longrightarrow> entry_dead now_ns e s = entry_dead now_ns e t"
  "mem s (e_handle e) = mem t (e_handle e) \<Longrightarrow> entry_open e s = entry_open e t"
  by (simp_all add: entry_dead_def entry_open_def interlock_is_terminated_def load_def)

lemma evaluate_each_names:
  "evaluate_each now_ms now_ns reg sched s = Some (rm, s') \<Longrightarrow>
     set rm \<subseteq> set (map fst sched) \<inter> dom (by_name reg) - {clock_name}"
proof (induction sched arbitrary: s rm)
  case (Cons x sched)
  then show ?case
    by (cases x) (auto simp: Let_def bind_eq_Some_conv split: if_splits option.splits; blast)
qed simp

lemma evaluate_each_removed:
  assumes "registry_inv reg s" and "distinct order"
    and run: "evaluate_each now_ms now_ns reg (isolated order) s = Some (rm, s')"
  shows "n \<in> set rm \<longleftrightarrow>
    n \<in> set order \<and> n \<noteq> clock_name \<and> (\<exists>e. by_name reg n = Some e \<and> entry_dead now_ns e s)"
proof (cases "n \<in> set order \<and> n \<noteq> clock_name \<and> by_name reg n \<noteq> None")
  case False
  with evaluate_each_names [OF run] show ?thesis by (auto simp: isolated_def o_def)
next
  case True
  then obtain e where e: "by_name reg n = Some e" and n: "n \<in> set order" "n \<noteq> clock_name" by auto
  obtain pre post rm1 s1 b s2 rm2 where v: "order = pre @ n # post"
    "evaluate_each now_ms now_ns reg (isolated pre) s = Some (rm1, s1)"
    "mem s1 (e_handle e) = mem s (e_handle e)"
    "evaluate_entry now_ms now_ns reg quiet_visit e s1 = Some (b, s2)"
    "evaluate_each now_ms now_ns reg (isolated post) s2 = Some (rm2, s')"
    "rm = rm1 @ (if b then n # rm2 else rm2)"
    by (rule evaluate_visit [OF assms(1,2) n(1) e n(2) run])
  have "n \<notin> set rm1" "n \<notin> set rm2"
    using evaluate_each_names [OF v(2)] evaluate_each_names [OF v(5)] assms(2)
    by (auto simp: v(1) isolated_def o_def)
  moreover have "b \<longleftrightarrow> entry_dead now_ns e s"
    using evaluate_entry_frame(3) [OF v(4)] entry_dead_mem(1) [OF v(3)] by simp
  ultimately show ?thesis using e n by (auto simp: v(6))
qed

lemma evaluate_all_inv:
  assumes "registry_inv reg s" and "schedule_ok sched"
  obtains reg' s' where "evaluate_all now_ms now_ns sched reg s = Some (reg', s')"
    and "registry_inv reg' s'" and "next_region s \<le> next_region s'" and "clock reg' = clock reg"
    and "by_name reg' \<subseteq>\<^sub>m by_name reg" and "next_id reg' = next_id reg"
proof -
  obtain rm s' where r: "evaluate_each now_ms now_ns reg sched s = Some (rm, s')"
    "next_region s \<le> next_region s'" "clock_name \<notin> set rm"
    using evaluate_each_total [OF assms] by blast
  have "registry_inv (remove_names rm reg) s'"
    using registry_inv_remove_names [OF assms(1) r(3)] r(2) by (rule registry_inv_mono)
  moreover have "next_id (remove_names rm reg) = next_id reg" by (simp add: remove_names_def)
  moreover have "by_name (remove_names rm reg) \<subseteq>\<^sub>m by_name reg"
    by (auto simp: by_name_remove_names map_le_def split: if_splits)
  ultimately show thesis
    using r that [of "remove_names rm reg" s']
    by (auto simp: evaluate_all_def clock_def by_name_remove_names)
qed

text \<open>An isolated pass touches no region outside the table.\<close>

definition orphan :: "registry \<Rightarrow> region \<Rightarrow> bool" where
  "orphan reg r \<longleftrightarrow> (\<forall>n e. by_name reg n = Some e \<longrightarrow> e_handle e \<noteq> r)"

lemma evaluate_all_frame:
  assumes "evaluate_all now_ms now_ns (isolated order) reg s = Some (reg', s')"
  shows "orphan reg r \<Longrightarrow> mem s' r = mem s r \<and> orphan reg' r"
    and "registry_inv reg s \<Longrightarrow> clock reg = Some clk \<Longrightarrow> mem s' clk = mem s clk"
proof -
  from assms obtain rm where rm: "evaluate_each now_ms now_ns reg (isolated order) s = Some (rm, s')"
    and reg': "reg' = remove_names rm reg" by (auto simp: evaluate_all_def)
  show "orphan reg r \<Longrightarrow> mem s' r = mem s r \<and> orphan reg' r"
    using evaluate_each_frame [OF rm] by (auto simp: orphan_def reg' by_name_remove_names split: if_splits)
  show "mem s' clk = mem s clk" if "registry_inv reg s" "clock reg = Some clk"
    using that registry_invD(4) [OF that(1)]
    by (intro evaluate_each_frame [OF rm]) (auto simp: clock_def)
qed

section \<open>What a contract decides\<close>

text \<open>
  The contract of an entry as a function of a memory: the value its closed count is given when
  it fires, \<^const>\<open>None\<close> when it does not.
\<close>

definition contract_value :: "u64 \<Rightarrow> registry \<Rightarrow> interlock_entry \<Rightarrow> shm \<Rightarrow> u64 option" where
  "contract_value now_ms reg e s =
     (let target = load (e_handle e) Open_Word s in
      case e_tier e of
        Interlock \<Rightarrow> None
      | WaitCounter \<Rightarrow>
          Option.bind (e_watched_name e) (\<lambda>wn. Option.bind (e_watched_word e) (\<lambda>ww.
          Option.bind (by_name reg wn) (\<lambda>w.
          let v = load_watched ww (e_handle w) s in if target \<le> v then Some v else None)))
      | WaitBarrier \<Rightarrow>
          Option.bind (e_barrier_conditions e) (\<lambda>conds.
          if \<forall>c \<in> set conds. condition_met reg s c then Some now_ms else None)
      | _ \<Rightarrow> if target \<le> now_ms then Some now_ms else None)"

text \<open>
  The open count afterwards: only a cron entry that fired is armed again, at its next line.
\<close>

definition rearmed_open :: "u64 \<Rightarrow> interlock_entry \<Rightarrow> u64 \<Rightarrow> u64" where
  "rearmed_open now_ms e old =
     (if e_tier e = WaitCron
      then (now_ms div the (e_interval_ms e) + 1) * the (e_interval_ms e) else old)"

lemma evaluate_contract_value:
  assumes "entry_wf e"
    and "evaluate_contract now_ms reg quiet_visit e (load (e_handle e) Open_Word s) s = Some s'"
  shows "(case contract_value now_ms reg e s of
      None \<Rightarrow> s' = s
    | Some v \<Rightarrow> load (e_handle e) Closed_Word s' = v \<and>
        load (e_handle e) Open_Word s' = rearmed_open now_ms e (load (e_handle e) Open_Word s) \<and>
        (\<exists>evs. trace s' = trace s @ [Stored (e_handle e) Closed_Word v, Woken (e_handle e) Closed_Word] @ evs))"
proof (cases "e_tier e")
  case WaitBarrier
  with assms show ?thesis
    by (auto simp: contract_value_def evaluate_contract_def rearmed_open_def entry_wf_def Let_def shm_simps
        list_all_iff split: if_splits)
qed (use assms in \<open>auto simp: contract_value_def evaluate_contract_def rearmed_open_def entry_wf_def
    Let_def shm_simps next_grid_line_def split: if_splits option.splits\<close>)

text \<open>
  An entry the pass reads but does not write: the clock, or a plain interlock that is alive.
\<close>

definition steady :: "registry \<Rightarrow> u64 \<Rightarrow> shm \<Rightarrow> string \<Rightarrow> bool" where
  "steady reg now_ns s n \<longleftrightarrow>
     n = clock_name \<or>
     (case by_name reg n of Some e \<Rightarrow> e_tier e = Interlock \<and> \<not> entry_dead now_ns e s | None \<Rightarrow> True)"

definition watched_names :: "interlock_entry \<Rightarrow> string set" where
  "watched_names e =
     (case e_tier e of
        WaitCounter \<Rightarrow> set_option (e_watched_name e)
      | WaitBarrier \<Rightarrow> (case e_barrier_conditions e of Some cs \<Rightarrow> fst ` set cs | None \<Rightarrow> {})
      | _ \<Rightarrow> {})"

lemma steady_mem:
  assumes "registry_inv reg s" and "distinct order"
    and run: "evaluate_each now_ms now_ns reg (isolated order) s = Some (rm, s')"
    and "steady reg now_ns s n" and e: "by_name reg n = Some e"
  shows "mem s' (e_handle e) = mem s (e_handle e)"
proof (cases "n \<in> set order \<and> n \<noteq> clock_name")
  case False
  then show ?thesis
    using registry_invD(4) [OF assms(1) _ e] by (intro evaluate_each_frame [OF run]) blast
next
  case True
  obtain pre post rm1 s1 b s2 rm2 where v: "mem s1 (e_handle e) = mem s (e_handle e)"
    "evaluate_entry now_ms now_ns reg quiet_visit e s1 = Some (b, s2)" "mem s' (e_handle e) = mem s2 (e_handle e)"
    using evaluate_visit [OF assms(1,2) _ e _ run] True by metis
  have "e_tier e = Interlock" "\<not> entry_dead now_ns e s1"
    using assms(4) e True entry_dead_mem(1) [OF v(1)] by (auto simp: steady_def)
  with v(2) have "s2 = s1"
    by (auto simp: evaluate_entry_cases evaluate_contract_def split: if_splits)
  with v show ?thesis by simp
qed

lemma contract_value_mem:
  assumes "mem t (e_handle e) = mem s (e_handle e)"
    and "\<And>n w. n \<in> watched_names e \<Longrightarrow> by_name reg n = Some w \<Longrightarrow> mem t (e_handle w) = mem s (e_handle w)"
  shows "contract_value now_ms reg e t = contract_value now_ms reg e s"
proof -
  have own: "load (e_handle e) w t = load (e_handle e) w s" for w using assms(1) by (simp add: load_def)
  have watched: "load_watched ww (e_handle w) t = load_watched ww (e_handle w) s"
    if "n \<in> watched_names e" "by_name reg n = Some w" for n w ww
    using assms(2) [OF that] by (cases ww) (simp_all add: load_def)
  show ?thesis
  proof (cases "e_tier e")
    case WaitCounter
    then show ?thesis using watched
      by (auto simp: contract_value_def own Let_def watched_names_def intro!: Option.bind_cong)
  next
    case WaitBarrier
    have "condition_met reg t c = condition_met reg s c"
      if "e_barrier_conditions e = Some cs" "c \<in> set cs" for cs c
    proof -
      obtain n ww th where c: "c = (n, ww, th)" by (cases c) auto
      have "n \<in> watched_names e" using that WaitBarrier by (force simp: watched_names_def c)
      with watched show ?thesis by (auto simp: c split: option.splits)
    qed
    with WaitBarrier show ?thesis
      by (cases "e_barrier_conditions e") (auto simp: contract_value_def own Let_def)
  qed (simp_all add: contract_value_def own)
qed

section \<open>Wakes\<close>

text \<open>Every store to a closed count in a history is followed by a wake of its waiters.\<close>

fun wakes_follow :: "mem_event list \<Rightarrow> bool" where
  "wakes_follow [] \<longleftrightarrow> True"
| "wakes_follow (Stored r w v # evs) \<longleftrightarrow> (w = Closed_Word \<longrightarrow> Woken r w \<in> set evs) \<and> wakes_follow evs"
| "wakes_follow (Woken r w # evs) \<longleftrightarrow> wakes_follow evs"

lemma wakes_follow_append: "wakes_follow xs \<Longrightarrow> wakes_follow ys \<Longrightarrow> wakes_follow (xs @ ys)"
  by (induction xs rule: wakes_follow.induct) auto

lemma evaluate_entry_wakes:
  assumes "evaluate_entry now_ms now_ns reg quiet_visit e s = Some (b, s')"
  shows "\<exists>evs. trace s' = trace s @ evs \<and> wakes_follow evs"
  using assms
  by (auto simp: evaluate_entry_cases evaluate_contract_def Let_def shm_simps
      split: if_splits tier.splits option.splits)

lemma evaluate_each_wakes:
  "evaluate_each now_ms now_ns reg (isolated order) s = Some (rm, s') \<Longrightarrow>
     \<exists>evs. trace s' = trace s @ evs \<and> wakes_follow evs"
proof (induction order arbitrary: s rm)
  case (Cons n order)
  show ?case
  proof (cases "n = clock_name \<or> by_name reg n = None")
    case True
    with Cons show ?thesis by (auto simp: Let_def split: if_splits)
  next
    case False
    with Cons.prems obtain e b t rm' where t: "evaluate_entry now_ms now_ns reg quiet_visit e s = Some (b, t)"
      and s': "evaluate_each now_ms now_ns reg (isolated order) t = Some (rm', s')"
      by (auto simp: Let_def bind_eq_Some_conv)
    from evaluate_entry_wakes [OF t] Cons.IH [OF s'] show ?thesis
      by (metis append.assoc wakes_follow_append)
  qed
qed simp

section \<open>Grid lines\<close>

lemma next_grid_line_unat:
  assumes "next_grid_line now_ms interval_ms = Some l" and "unat now_ms + unat interval_ms < 2 ^ 64"
  shows "unat l = (unat now_ms div unat interval_ms + 1) * unat interval_ms"
proof -
  let ?n = "unat now_ms" and ?i = "unat interval_ms"
  have le: "(?n div ?i + 1) * ?i \<le> ?n + ?i" by (simp add: div_times_less_eq_dividend)
  have l: "l = (now_ms div interval_ms + 1) * interval_ms"
    using assms(1) by (auto simp: next_grid_line_def split: if_splits)
  have i: "0 < ?i" using assms(1) by (auto simp: next_grid_line_def unat_gt_0 split: if_splits)
  have "?n div ?i \<le> ?n" by (rule div_le_dividend)
  then have q: "unat (now_ms div interval_ms + 1) = ?n div ?i + 1"
  proof -
    have "?n div ?i + 1 < 2 ^ 64" using \<open>?n div ?i \<le> ?n\<close> assms(2) i by linarith
    then show ?thesis by (subst unat_plus_u64) (simp_all add: unat_div_distrib)
  qed
  show ?thesis
    unfolding l using le assms(2) by (subst unat_mult_u64) (simp_all only: q)
qed

section \<open>Properties\<close>

text \<open>The words a new interlock of each tier is published with.\<close>

definition initial_words :: "tier \<Rightarrow> u64 \<Rightarrow> u64 \<Rightarrow> u64 \<Rightarrow> interlock" where
  "initial_words t clock_now_ms interval_ms now =
     \<lparr>open_count = (case t of WaitTimer \<Rightarrow> clock_now_ms | WaitBarrier \<Rightarrow> 1
        | WaitCron \<Rightarrow> (clock_now_ms div interval_ms + 1) * interval_ms | _ \<Rightarrow> 0),
      closed_count = (if t = WaitTimer \<or> t = WaitCron then clock_now_ms else 0),
      expiration_ns = now + CREATION_TTL_NANOS\<rparr>"

lemma init_words_mem:
  assumes "init_words t c ival h s = Some s'"
    and "mem s h = \<lparr>open_count = 0, closed_count = 0, expiration_ns = now + CREATION_TTL_NANOS\<rparr>"
  shows "mem s' h = initial_words t c (the ival) now"
  using assms
  by (cases t) (auto simp: initial_words_def shm_simps next_grid_line_def bind_eq_Some_conv split: if_splits)

lemma init_words_interval:
  "t \<noteq> WaitCron \<Longrightarrow> initial_words t c i now = initial_words t c j now"
  by (cases t) (simp_all add: initial_words_def)

text \<open>
  What a new entry watches, as the arguments of the request have it: the byte of a watched word
  is 0 for the open count and 1 for the closed count, every watched name is registered, and an
  interval is given in nanoseconds.
\<close>

fun word_byte :: "watched_word \<Rightarrow> u8" where
  "word_byte OpenCount = 0"
| "word_byte ClosedCount = 1"

definition condition_asked :: "registry \<Rightarrow> string \<times> u8 \<times> u64 \<Rightarrow> barrier_condition \<Rightarrow> bool" where
  "condition_asked reg c c' \<longleftrightarrow>
     (case (c, c') of ((n, b, v), (n', w, v')) \<Rightarrow> n' = n \<and> v' = v \<and> b = word_byte w \<and> by_name reg n \<noteq> None)"

definition watches_asked ::
    "registry \<Rightarrow> tier \<Rightarrow> string option \<Rightarrow> u8 option \<Rightarrow> u64 option \<Rightarrow> (string \<times> u8 \<times> u64) list option \<Rightarrow>
     interlock_entry \<Rightarrow> bool" where
  "watches_asked reg t wn ww ival conds e \<longleftrightarrow>
     (case t of
        WaitCounter \<Rightarrow>
          (\<exists>n w. wn = Some n \<and> by_name reg n \<noteq> None \<and> ww = Some (word_byte w) \<and>
             e_watched_name e = Some n \<and> e_watched_word e = Some w)
      | WaitTimer \<Rightarrow> e_watched_name e = Some clock_name \<and> e_watched_word e = Some OpenCount
      | WaitCron \<Rightarrow> e_watched_name e = Some clock_name \<and> e_watched_word e = Some OpenCount
      | _ \<Rightarrow> e_watched_name e = None \<and> e_watched_word e = None) \<and>
     (if t = WaitCron then \<exists>i. ival = Some i \<and> i div 1000000 \<noteq> 0 \<and> e_interval_ms e = Some (i div 1000000)
      else e_interval_ms e = None) \<and>
     (if t = WaitBarrier
      then \<exists>cs cs'. conds = Some cs \<and> e_barrier_conditions e = Some cs' \<and> list_all2 (condition_asked reg) cs cs'
      else e_barrier_conditions e = None)"

lemma word_from_byte_Inr: "word_from_byte b = Inr w \<Longrightarrow> b = word_byte w"
  by (auto split: if_splits)

lemma parse_conditions_asked:
  "parse_conditions reg cs = Inr cs' \<Longrightarrow> list_all2 (condition_asked reg) cs cs'"
  by (induction reg cs arbitrary: cs' rule: parse_conditions.induct)
     (auto simp: condition_asked_def simp del: word_from_byte.simps split: if_splits dest: word_from_byte_Inr)

lemma resolve_asked:
  assumes "resolve reg t wn ww ival conds = Inr res"
  shows "watches_asked reg t wn ww ival conds (entry_of i h t res)"
  using assms
  by (cases t) (auto simp: watches_asked_def Let_def simp del: word_from_byte.simps
      split: if_splits dest: word_from_byte_Inr parse_conditions_asked)

text \<open>
  C12: What a successful create does.  The name was not the reserved one; the identifier is the
  next one and the handle a region no entry had; attaching to the name from now on gives this
  interlock, every other name is untouched, and the new entry has the tier asked for and watches
  what the request asks for, name by name and word by word; the new interlock carries the words of
  its tier, computed from the clock's current value and the interval asked for; an interlock
  that had the name before has all three words at the sentinel, and every other existing
  interlock keeps its words.
\<close>

theorem create_success:
  assumes "registry_inv reg s"
    and "create k no_gap now name t wn ww ival conds reg s = Some (Inr (i, h), reg', s')"
  shows "name \<noteq> clock_name \<and> i = next_id reg \<and> next_id reg' = i + 1 \<and> h = next_region s \<and>
    attach name reg' = Inr (i, h) \<and> (\<forall>n. n \<noteq> name \<longrightarrow> by_name reg' n = by_name reg n) \<and>
    (\<exists>e. by_name reg' name = Some e \<and> e_tier e = t \<and> watches_asked reg t wn ww ival conds e) \<and>
    (\<exists>clk. clock reg = Some clk \<and>
       mem s' h = initial_words t (load clk Open_Word s) (the ival div 1000000) now) \<and>
    (\<forall>old. by_name reg name = Some old \<longrightarrow>
       mem s' (e_handle old) = \<lparr>open_count = SENTINEL, closed_count = SENTINEL, expiration_ns = SENTINEL\<rparr>) \<and>
    (\<forall>r. r < next_region s \<longrightarrow> map_option e_handle (by_name reg name) \<noteq> Some r \<longrightarrow> mem s' r = mem s r)"
proof -
  from create_Inr [OF assms(2)] obtain res s1 s2 clk where
    name: "name \<noteq> clock_name" and res: "resolve reg t wn ww ival conds = Inr res"
    and s1: "interlock_create k now s = (Inr h, s1)" and clk: "clock reg = Some clk"
    and s2: "init_words t (load clk Open_Word s1) (resolved_interval res) h s1 = Some s2"
    and s': "s' = reap_old no_gap (by_name reg name) s2" and i: "i = next_id reg"
    and reg': "reg' = reg\<lparr>next_id := i + 1, by_name := (by_name reg)(name \<mapsto> entry_of i h t res)\<rparr>"
    by metis
  note fresh = interlock_create_Inr [OF s1]
  have old: "by_name reg n = Some e \<Longrightarrow> e_handle e \<noteq> h" for n e
    using registry_invD(2) [OF assms(1)] fresh(1) by fastforce
  have "clk < next_region s" using clock_inv [OF assms(1)] clk by auto
  then have clk_load: "load clk Open_Word s1 = load clk Open_Word s"
    using fresh(1,4) by (simp add: load_def)
  have other: "mem s2 r = mem s r" if "r < next_region s" for r
  proof -
    have "mem s2 r = mem s1 r" using that fresh(1) load_init_words(1) [OF s2] by (intro mem_eqI) auto
    then show ?thesis using that fresh(1,4) by simp
  qed
  have "initial_words t c (the (resolved_interval res)) now = initial_words t c (the ival div 1000000) now" for c
    using resolve_interval [OF res] init_words_interval by (cases "t = WaitCron") auto
  then have "mem s2 h = initial_words t (load clk Open_Word s) (the ival div 1000000) now"
    using init_words_mem [OF s2 fresh(3)] clk_load by simp
  moreover have "mem s' h = mem s2 h"
    using old by (intro mem_eqI) (auto simp: s' shm_simps)
  moreover have "mem s' r = mem s2 r" if "map_option e_handle (by_name reg name) \<noteq> Some r" for r
    using that by (intro mem_eqI) (auto simp: s' shm_simps)
  moreover have "mem s' (e_handle e) = \<lparr>open_count = SENTINEL, closed_count = SENTINEL, expiration_ns = SENTINEL\<rparr>"
    if "by_name reg name = Some e" for e
    using that by (simp add: s' reap_old_def interlock_reap_def Let_def shm_simps)
  ultimately show ?thesis
    using name i fresh(1) clk other resolve_asked [OF res] by (auto simp: reg' attach_def)
qed

text \<open>
  C27: What a failed create does.  The registry is unchanged, every existing interlock keeps its
  words, and the error is the reserved-name error, the first error of the argument checks, or,
  once all checks have passed, the failed step of the allocation.
\<close>

theorem create_failure:
  assumes "create k gap now name t wn ww ival conds reg s = Some (Inl e, reg', s')"
  shows "reg' = reg \<and> (\<forall>r. r < next_region s \<longrightarrow> mem s' r = mem s r) \<and>
    (if name = clock_name then e = InvalidRequest ''\"clock\" is a reserved name''
     else case resolve reg t wn ww ival conds of
       Inl e' \<Rightarrow> e = e'
     | Inr res \<Rightarrow> fst (interlock_create k now s) = Inl e \<and> (\<exists>st n. e = AllocationFailed st n))"
proof -
  from create_Inl [OF assms] consider "reg' = reg" "name = clock_name" "s' = s"
      "e = InvalidRequest ''\"clock\" is a reserved name''"
    | "reg' = reg" "name \<noteq> clock_name" "s' = s" "resolve reg t wn ww ival conds = Inl e"
    | res where "reg' = reg" "name \<noteq> clock_name" "interlock_create k now s = (Inl e, s')"
      "resolve reg t wn ww ival conds = Inr res"
    by blast
  then show ?thesis
  proof cases
    case 3
    then show ?thesis using interlock_create_Inl(2,3) [OF 3(3)] by simp
  qed simp_all
qed

text \<open>
  As long as the counter does not wrap, create assigns an identifier no entry has.
\<close>

lemma create_ids_inv:
  assumes "ids_inv reg" and "next_id reg \<noteq> - 1"
    and "create k gap now name t wn ww ival conds reg s = Some (out, reg', s')"
  shows "ids_inv reg'"
proof (cases out)
  case (Inl e)
  with create_Inl assms(3) have "reg' = reg" by metis
  with assms(1) show ?thesis by simp
next
  case (Inr a)
  then obtain i h where out: "out = Inr (i, h)" by (cases a) auto
  have "unat (next_id reg) \<noteq> unat (- 1 :: u64)" using assms(2) by (simp only: word_unat_eq_iff not_False_eq_True)
  then have "unat (next_id reg) + 1 < 2 ^ 64" using unat_u64_bound [of "next_id reg"] by simp
  then have step: "next_id reg < next_id reg + 1" by (simp add: word_less_nat_alt unat_plus_u64)
  show ?thesis
  proof (rule create_Inr [OF assms(3) [unfolded out]])
    fix res
    assume i: "i = next_id reg"
      and r: "reg' = reg\<lparr>next_id := i + 1, by_name := (by_name reg)(name \<mapsto> entry_of i h t res)\<rparr>"
    have below: "e_id e < next_id reg" if "by_name reg n = Some e" for n e
      using assms(1) that by (auto simp: ids_inv_def)
    have "e_id e < next_id reg + 1" if "by_name reg n = Some e" for n e
      using below [OF that] step by (rule order_less_trans)
    moreover have "e_id e \<noteq> next_id reg" if "by_name reg n = Some e" for n e
      using below [OF that] by auto
    ultimately show ?thesis
      using assms(1) step by (fastforce simp: ids_inv_def i r split: if_splits)
  qed
qed

text \<open>
  C26: Create is safe.  On a well-formed registry it always returns (no panic, in particular no
  division by a zero interval and no missing clock), the registry it leaves is well formed, and
  as long as the 64-bit counter does not wrap the identifiers of the table stay distinct,
  whatever the request, the kernel's replies and the clock readings.
\<close>

theorem create_safe:
  assumes "registry_inv reg s" and "\<And>i. allocates (gap i)"
  shows "\<exists>out reg' s'. create k gap now name t wn ww ival conds reg s = Some (out, reg', s') \<and>
    registry_inv reg' s' \<and> clock reg' = clock reg \<and>
    (ids_inv reg \<longrightarrow> next_id reg \<noteq> - 1 \<longrightarrow> ids_inv reg')"
proof -
  obtain out reg' s' where r: "create k gap now name t wn ww ival conds reg s = Some (out, reg', s')"
    using create_total [OF assms(1)] by (metis option.exhaust prod_cases3)
  then show ?thesis using create_inv [OF assms(1) r assms(2)] create_clock [OF r] create_ids_inv [OF _ _ r] by blast
qed

text \<open>
  A new registry is well formed.  When its allocation succeeds and the arm loop gets one
  round nobody disturbs, \<open>new\<close> does not panic; it holds the clock alone, both counts of the
  clock are the start time in milliseconds, and its deadline is the later of the creation
  deadline and one second after the second reading.
\<close>

lemma registry_new_ok:
  assumes "memfd_ret k \<ge> 0" and "ftruncate_ret k = 0" and "mmap_ret k = Mapped"
    and "now_create + CREATION_TTL_NANOS \<noteq> SENTINEL"
  shows "\<exists>reg s'. registry_new k now_create now_arm now_start undisturbed s = Some (Inr reg, s') \<and>
    registry_inv reg s' \<and> ids_inv reg \<and> dom (by_name reg) = {clock_name} \<and>
    mem s' (next_region s) =
      \<lparr>open_count = now_start div 1000000, closed_count = now_start div 1000000,
       expiration_ns = max (now_create + CREATION_TTL_NANOS) (now_arm + 1000000000)\<rparr>"
proof -
  obtain s1 where s1: "interlock_create k now_create s = (Inr (next_region s), s1)"
    using assms(1-3) by (auto simp: interlock_create_def memfd_create_def ftruncate_def mmap_interlock_def)
  let ?e = "now_create + CREATION_TTL_NANOS" and ?d = "now_arm + 1000000000" and ?h = "next_region s"
  have e: "load ?h Expiration_Word s1 = ?e" and w: "load ?h Open_Word s1 = 0" "load ?h Closed_Word s1 = 0"
    using interlock_create_Inr(3) [OF s1] by (simp_all add: load_def)
  have "\<exists>s2. interlock_arm ?h 1000000000 now_arm undisturbed s1 = (Some (Inr ()), s2) \<and>
      next_region s2 = Suc ?h \<and> load ?h Expiration_Word s2 = max ?e ?d"
    using assms(4) interlock_create_Inr(2) [OF s1]
    by (auto simp: interlock_arm_def arm_undisturbed e shm_simps max_def)
  then obtain s2 where s2: "interlock_arm ?h 1000000000 now_arm undisturbed s1 = (Some (Inr ()), s2)"
    "next_region s2 = Suc ?h" "expiration_ns (mem s2 ?h) = max ?e ?d"
    by (auto simp: load_def)
  show ?thesis
    by (simp add: registry_new_def s1 s2 Let_def registry_inv_def ids_inv_def shm_simps clock_entry_def
        entry_wf_def dom_def)
qed

lemma registry_new_clock:
  assumes "registry_new k now_create now_arm now_start sched s = Some (Inr reg, s')"
  shows "clock reg = Some (next_region s)"
  using assms interlock_create_Inr(1)
  by (fastforce simp: registry_new_def clock_def clock_entry_def Let_def
      split: prod.splits sum.splits option.splits)

text \<open>
  C13: The pass is safe.  Whatever order the map is iterated in and whatever the clients write
  to shared memory between two entries (they may allocate, but not free, regions), the pass
  does not panic, and it leaves a well-formed registry with the same clock, a part of the
  old one.
\<close>

theorem evaluate_all_safe:
  assumes "registry_inv reg s" and "schedule_ok sched"
  shows "\<exists>reg' s'. evaluate_all now_ms now_ns sched reg s = Some (reg', s') \<and>
    registry_inv reg' s' \<and> clock reg' = clock reg \<and> by_name reg' \<subseteq>\<^sub>m by_name reg \<and>
    next_id reg' = next_id reg"
  using evaluate_all_inv [OF assms] by blast

lemma pass_dead:
  assumes "registry_inv reg s" and "distinct order" and "set order = dom (by_name reg)"
    and "evaluate_all now_ms now_ns (isolated order) reg s = Some (reg', s')"
    and "by_name reg n = Some e" and "n \<noteq> clock_name"
  shows "by_name reg' n = (if entry_dead now_ns e s then None else Some e) \<and>
    (entry_dead now_ns e s \<longrightarrow>
       mem s' (e_handle e) = \<lparr>open_count = SENTINEL, closed_count = SENTINEL, expiration_ns = SENTINEL\<rparr>)"
proof -
  from assms(4) obtain rm where rm: "evaluate_each now_ms now_ns reg (isolated order) s = Some (rm, s')"
    and reg': "reg' = remove_names rm reg" by (auto simp: evaluate_all_def)
  have n: "n \<in> set order" using assms(3,5) by auto
  obtain s1 b s2 where v: "mem s1 (e_handle e) = mem s (e_handle e)"
    "evaluate_entry now_ms now_ns reg quiet_visit e s1 = Some (b, s2)" "mem s' (e_handle e) = mem s2 (e_handle e)"
    using evaluate_visit [OF assms(1,2) n assms(5,6) rm] by metis
  have "mem s2 (e_handle e) = \<lparr>open_count = SENTINEL, closed_count = SENTINEL, expiration_ns = SENTINEL\<rparr>"
    if "entry_dead now_ns e s"
    using that v(2) entry_dead_mem(1) [OF v(1)]
    by (auto simp: evaluate_entry_cases interlock_reap_def Let_def shm_simps)
  then show ?thesis
    using evaluate_each_removed [OF assms(1,2) rm, of n] assms(5,6) n v(3)
    by (auto simp: reg' by_name_remove_names)
qed

text \<open>
  C25: The pass removes exactly the dead.  When nobody interferes, a name other than the clock
  disappears iff its interlock had a word at the sentinel or a passed deadline when the pass
  began, whatever the iteration order; the words of a removed interlock are all at the
  sentinel afterwards.
\<close>

theorem pass_removes_dead:
  assumes "registry_inv reg s" and "distinct order" and "set order = dom (by_name reg)"
    and "evaluate_all now_ms now_ns (isolated order) reg s = Some (reg', s')"
    and "by_name reg n = Some e" and "n \<noteq> clock_name"
  shows "by_name reg' n = (if entry_dead now_ns e s then None else Some e) \<and>
    (entry_dead now_ns e s \<longrightarrow>
       mem s' (e_handle e) = \<lparr>open_count = SENTINEL, closed_count = SENTINEL, expiration_ns = SENTINEL\<rparr>)"
  by (rule pass_dead [OF assms])

text \<open>
  The memory that the visit of an entry sees of the others: the words that the pass leaves of those
  it has visited before, the words at the start of the rest.
\<close>

definition seen :: "string list \<Rightarrow> registry \<Rightarrow> shm \<Rightarrow> shm \<Rightarrow> shm" where
  "seen before reg s s' =
     s\<lparr>mem := (\<lambda>r. if \<exists>m \<in> set before. map_option e_handle (by_name reg m) = Some r then mem s' r else mem s r)\<rparr>"

lemma seen_mem:
  assumes "registry_inv reg s" and "by_name reg m = Some w"
  shows "mem (seen before reg s s') (e_handle w) = (if m \<in> set before then mem s' (e_handle w) else mem s (e_handle w))"
proof -
  have "m' = m" if "map_option e_handle (by_name reg m') = Some (e_handle w)" for m'
    using that registry_invD(4) [OF assms(1) _ assms(2)] by auto
  then show ?thesis using assms(2) by (auto simp: seen_def)
qed

text \<open>An entry that is alive and open ends the pass as its contract on what its visit sees says.\<close>

lemma pass_contract_seen:
  assumes "registry_inv reg s" and "distinct (pre @ n # post)"
    and "evaluate_all now_ms now_ns (isolated (pre @ n # post)) reg s = Some (reg', s')"
    and "by_name reg n = Some e" and "n \<noteq> clock_name"
    and "\<not> entry_dead now_ns e s" and "entry_open e s"
  shows "by_name reg' n = Some e \<and>
    (case contract_value now_ms reg e (seen pre reg s s') of
       None \<Rightarrow> mem s' (e_handle e) = mem s (e_handle e)
     | Some v \<Rightarrow> load (e_handle e) Closed_Word s' = v \<and>
         load (e_handle e) Open_Word s' = rearmed_open now_ms e (load (e_handle e) Open_Word s) \<and>
         (\<exists>evs evs'. trace s' = evs @ [Stored (e_handle e) Closed_Word v, Woken (e_handle e) Closed_Word] @ evs'))"
proof -
  let ?h = "e_handle e"
  from assms(3) obtain rm where rm: "evaluate_each now_ms now_ns reg (isolated (pre @ n # post)) s = Some (rm, s')"
    and reg': "reg' = remove_names rm reg" by (auto simp: evaluate_all_def)
  obtain pre' post' rm1 s1 b s2 rm2 where order: "pre @ n # post = pre' @ n # post'"
    and v: "evaluate_each now_ms now_ns reg (isolated pre') s = Some (rm1, s1)"
    "mem s1 ?h = mem s ?h" "evaluate_entry now_ms now_ns reg quiet_visit e s1 = Some (b, s2)"
    "evaluate_each now_ms now_ns reg (isolated post') s2 = Some (rm2, s')" "mem s' ?h = mem s2 ?h"
    using evaluate_visit [OF assms(1,2) _ assms(4,5) rm] by (metis in_set_conv_decomp)
  have "n \<notin> set pre" "n \<notin> set post" using assms(2) by auto
  with order have eq: "pre' = pre" "post' = post" by (simp_all add: append_Cons_eq_iff)
  have distinct: "n \<notin> set pre" "n \<notin> set post" "set pre \<inter> set post = {}" using assms(2) by auto
  have own: "load ?h w s1 = load ?h w s" "load ?h w s' = load ?h w s2" for w
    using v(2,5) by (simp_all add: load_def)
  have other: "mem s1 (e_handle w) = mem (seen pre reg s s') (e_handle w)" if w: "by_name reg m = Some w" for m w
  proof (cases "m \<in> set pre")
    case True
    then have "m \<noteq> n" "m \<notin> set post" using distinct by auto
    have "mem s' (e_handle w) = mem s2 (e_handle w)"
      using registry_invD(4) [OF assms(1) _ w] \<open>m \<notin> set post\<close> eq by (intro evaluate_each_frame [OF v(4)]) blast
    also have "\<dots> = mem s1 (e_handle w)"
      using registry_invD(4) [OF assms(1) w assms(4)] \<open>m \<noteq> n\<close> by (intro evaluate_entry_frame(1) [OF v(3)]) blast
    finally show ?thesis using True by (simp add: seen_mem [OF assms(1) w])
  next
    case False
    have "mem s1 (e_handle w) = mem s (e_handle w)"
      using registry_invD(4) [OF assms(1) _ w] False eq by (intro evaluate_each_frame [OF v(1)]) blast
    then show ?thesis using False by (simp add: seen_mem [OF assms(1) w])
  qed
  then have c: "contract_value now_ms reg e s1 = contract_value now_ms reg e (seen pre reg s s')"
    using assms(4) by (intro contract_value_mem) auto
  have "evaluate_contract now_ms reg quiet_visit e (load ?h Open_Word s1) s1 = Some s2"
    using v(3) assms(6,7) entry_dead_mem [OF v(2)] by (auto simp: evaluate_entry_cases)
  note eff = evaluate_contract_value [OF registry_invD(3) [OF assms(1,4)] this, unfolded c own(1)]
  obtain evs where t: "trace s' = trace s2 @ evs" using evaluate_each_wakes [OF v(4)] by blast
  have "by_name reg' n = Some e"
    using evaluate_each_removed [OF assms(1,2) rm, of n] assms(4,6) by (auto simp: reg' by_name_remove_names)
  moreover have "(case contract_value now_ms reg e (seen pre reg s s') of
       None \<Rightarrow> mem s' ?h = mem s ?h
     | Some v \<Rightarrow> load ?h Closed_Word s' = v \<and>
         load ?h Open_Word s' = rearmed_open now_ms e (load ?h Open_Word s) \<and>
         (\<exists>evs evs'. trace s' = evs @ [Stored ?h Closed_Word v, Woken ?h Closed_Word] @ evs'))"
  proof (cases "contract_value now_ms reg e (seen pre reg s s')")
    case None
    with eff v(2,5) show ?thesis by simp
  next
    case (Some a)
    with eff t show ?thesis by (auto simp: own(2)) (metis append.assoc append_Cons append_Nil)
  qed
  ultimately show ?thesis by blast
qed

text \<open>What steady entries hold is seen as it was at the start.\<close>

lemma contract_seen_steady:
  assumes "registry_inv reg s" and "distinct (pre @ n # post)"
    and "evaluate_all now_ms now_ns (isolated (pre @ n # post)) reg s = Some (reg', s')"
    and "by_name reg n = Some e" and "\<forall>m \<in> watched_names e. steady reg now_ns s m"
  shows "contract_value now_ms reg e (seen pre reg s s') = contract_value now_ms reg e s"
proof (rule contract_value_mem)
  from assms(3) obtain rm where rm: "evaluate_each now_ms now_ns reg (isolated (pre @ n # post)) s = Some (rm, s')"
    by (auto simp: evaluate_all_def)
  have "n \<notin> set pre" using assms(2) by simp
  then show "mem (seen pre reg s s') (e_handle e) = mem s (e_handle e)" by (simp add: seen_mem [OF assms(1,4)])
  show "mem (seen pre reg s s') (e_handle w) = mem s (e_handle w)"
    if "m \<in> watched_names e" "by_name reg m = Some w" for m w
    using steady_mem [OF assms(1,2) rm bspec [OF assms(5) that(1)] that(2)] by (simp add: seen_mem [OF assms(1) that(2)])
qed

lemma pass_contract:
  assumes "registry_inv reg s" and "distinct order" and "set order = dom (by_name reg)"
    and "evaluate_all now_ms now_ns (isolated order) reg s = Some (reg', s')"
    and "by_name reg n = Some e" and "n \<noteq> clock_name"
    and "\<not> entry_dead now_ns e s" and "entry_open e s"
    and "\<forall>m \<in> watched_names e. steady reg now_ns s m"
  shows "by_name reg' n = Some e \<and>
    (case contract_value now_ms reg e s of
       None \<Rightarrow> mem s' (e_handle e) = mem s (e_handle e)
     | Some v \<Rightarrow> load (e_handle e) Closed_Word s' = v \<and>
         load (e_handle e) Open_Word s' = rearmed_open now_ms e (load (e_handle e) Open_Word s) \<and>
         (\<exists>evs evs'. trace s' = evs @ [Stored (e_handle e) Closed_Word v, Woken (e_handle e) Closed_Word] @ evs'))"
proof -
  have "n \<in> set order" using assms(3,5) by auto
  then obtain pre post where order: "order = pre @ n # post" by (auto simp: in_set_conv_decomp)
  show ?thesis
    using pass_contract_seen [OF assms(1) assms(2) [unfolded order] assms(4) [unfolded order] assms(5-8)]
      contract_seen_steady [OF assms(1) assms(2) [unfolded order] assms(4) [unfolded order] assms(5,9)]
    by simp
qed

text \<open>
  C8: The pass implements the wait contracts.  When nobody else writes to memory during a pass,
  every entry that is alive and open ends it as its contract decides, in whatever order the table
  is visited: if the contract is not met the entry's words are unchanged; if it is, its closed
  count is the contract's value, its open count is unchanged or, for cron, the next grid line,
  and the history has the store followed by the wake.  The contract is decided on the words the
  visit sees: those that the pass leaves of interlocks visited earlier, those at the start of the
  others.  For an entry that watches only the clock and plain interlocks that are alive these are
  the words at the start, whatever the order.
\<close>

theorem pass_implements_contracts:
  assumes "registry_inv reg s" and "distinct (pre @ n # post)" and "set (pre @ n # post) = dom (by_name reg)"
    and "evaluate_all now_ms now_ns (isolated (pre @ n # post)) reg s = Some (reg', s')"
    and "by_name reg n = Some e" and "n \<noteq> clock_name"
    and "\<not> entry_dead now_ns e s" and "entry_open e s"
  shows "by_name reg' n = Some e \<and>
    (case contract_value now_ms reg e (seen pre reg s s') of
       None \<Rightarrow> mem s' (e_handle e) = mem s (e_handle e)
     | Some v \<Rightarrow> load (e_handle e) Closed_Word s' = v \<and>
         load (e_handle e) Open_Word s' = rearmed_open now_ms e (load (e_handle e) Open_Word s) \<and>
         (\<exists>evs evs'. trace s' = evs @ [Stored (e_handle e) Closed_Word v, Woken (e_handle e) Closed_Word] @ evs')) \<and>
    ((\<forall>m \<in> watched_names e. steady reg now_ns s m) \<longrightarrow>
       contract_value now_ms reg e (seen pre reg s s') = contract_value now_ms reg e s)"
  using pass_contract_seen [OF assms(1,2,4-8)] contract_seen_steady [OF assms(1,2,4,5)] by blast

text \<open>
  C39: A counter fires with the sentinel when the pass has reaped what it watches.  Take a live,
  open counter that watches an interlock which is dead when a pass begins that nobody disturbs.
  If the pass visits the interlock first, it reaps it and then stores the sentinel into the
  counter's closed count and wakes its waiter, whatever the target; if it visits the counter
  first, the counter fires only when the interlock's words have reached the target, with the
  value they have.  So what a waiter is told depends on the iteration order of the hash map.
\<close>

theorem reaped_watch_fires_spuriously:
  assumes "registry_inv reg s" and "distinct (pre @ n # post)" and "set (pre @ n # post) = dom (by_name reg)"
    and "evaluate_all now_ms now_ns (isolated (pre @ n # post)) reg s = Some (reg', s')"
    and "by_name reg n = Some e" and "e_tier e = WaitCounter"
    and "e_watched_name e = Some m" and "e_watched_word e = Some ww" and "by_name reg m = Some w"
    and "\<not> entry_dead now_ns e s" and "entry_open e s" and "entry_dead now_ns w s" and "m \<noteq> clock_name"
  shows "(m \<in> set pre \<longrightarrow> load (e_handle e) Closed_Word s' = SENTINEL \<and>
      (\<exists>evs evs'. trace s' = evs @ [Stored (e_handle e) Closed_Word SENTINEL, Woken (e_handle e) Closed_Word] @ evs')) \<and>
    (m \<in> set post \<longrightarrow> load (e_handle e) Closed_Word s' =
      (if load (e_handle e) Open_Word s \<le> load_watched ww (e_handle w) s then load_watched ww (e_handle w) s
       else load (e_handle e) Closed_Word s))"
proof -
  let ?h = "e_handle e"
  have n: "n \<noteq> clock_name" using registry_invD(1) [OF assms(1)] assms(5,6) by (auto simp: clock_entry_def)
  note pass = pass_contract_seen [OF assms(1,2,4,5) n assms(10,11)]
  have "n \<notin> set pre" using assms(2) by simp
  then have own: "load ?h x (seen pre reg s s') = load ?h x s" for x
    by (simp add: load_def seen_mem [OF assms(1,5)])
  have decided: "contract_value now_ms reg e (seen pre reg s s') =
      (let v = load_watched ww (e_handle w) (seen pre reg s s') in if load ?h Open_Word s \<le> v then Some v else None)"
    by (simp add: contract_value_def assms(6-9) own Let_def)
  have dead: "mem s' (e_handle w) = \<lparr>open_count = SENTINEL, closed_count = SENTINEL, expiration_ns = SENTINEL\<rparr>"
    using pass_dead [OF assms(1-4,9,13)] assms(12) by blast
  have "load ?h Closed_Word s' = SENTINEL \<and>
      (\<exists>evs evs'. trace s' = evs @ [Stored ?h Closed_Word SENTINEL, Woken ?h Closed_Word] @ evs')" if "m \<in> set pre"
  proof -
    have "load_watched ww (e_handle w) (seen pre reg s s') = SENTINEL"
      using that dead by (cases ww) (simp_all add: load_def seen_mem [OF assms(1,9)])
    then have "contract_value now_ms reg e (seen pre reg s s') = Some SENTINEL" by (simp add: decided)
    with pass show ?thesis by simp
  qed
  moreover have "load ?h Closed_Word s' =
      (if load ?h Open_Word s \<le> load_watched ww (e_handle w) s then load_watched ww (e_handle w) s
       else load ?h Closed_Word s)" if "m \<in> set post"
  proof -
    have "m \<notin> set pre" using that assms(2) by auto
    then have "load_watched ww (e_handle w) (seen pre reg s s') = load_watched ww (e_handle w) s"
      by (cases ww) (simp_all add: load_def seen_mem [OF assms(1,9)])
    with pass show ?thesis by (auto simp: decided Let_def load_def split: if_splits)
  qed
  ultimately show ?thesis by blast
qed

text \<open>
  Cron keeps to its grid.  When a live, open cron entry's line has been reached and the
  sum of the time and the interval fits 64 bits, its evaluation stores the current time into
  the closed count and arms the open count at the first multiple of the interval after the
  current time; with an interval below \<open>2 ^ 63\<close> the entry is open again.
\<close>

theorem cron_rearms_on_grid:
  assumes "entry_wf e" and "e_tier e = WaitCron" and "e_interval_ms e = Some i"
    and "\<not> entry_dead now_ns e s" and "entry_open e s"
    and "load (e_handle e) Open_Word s \<le> now_ms"
    and "unat now_ms + unat i < 2 ^ 64" and "unat i < 2 ^ 63"
  shows "\<exists>s'. evaluate_entry now_ms now_ns reg quiet_visit e s = Some (False, s') \<and>
    load (e_handle e) Closed_Word s' = now_ms \<and>
    unat i dvd unat (load (e_handle e) Open_Word s') \<and>
    unat now_ms < unat (load (e_handle e) Open_Word s') \<and>
    unat (load (e_handle e) Open_Word s') \<le> unat now_ms + unat i \<and> entry_open e s'"
proof -
  let ?h = "e_handle e" and ?n = "unat now_ms" and ?i = "unat i"
  have i: "i \<noteq> 0" using assms(1-3) by (auto simp: entry_wf_def)
  then have i0: "0 < ?i" by (simp add: unat_gt_0)
  obtain l where l: "next_grid_line now_ms i = Some l" using i by (simp add: next_grid_line_def)
  note u = next_grid_line_unat [OF l assms(7)]
  have gt: "?n < unat l" unfolding u using i0 by (simp add: dividend_less_div_times add.commute)
  have le: "unat l \<le> ?n + ?i" unfolding u by (simp add: div_times_less_eq_dividend)
  have d: "unat (l - now_ms) = unat l - ?n" using gt by (simp add: unat_sub word_le_nat_alt)
  have "unat (l - now_ms) < 2 ^ 63" and pos: "0 < unat (l - now_ms)"
    using gt le assms(8) unfolding d by linarith+
  then have "0 < sint (l - now_ms)" unfolding sint_small [OF \<open>unat (l - now_ms) < 2 ^ 63\<close>] uint_nat
    by (simp only: of_nat_0_less_iff)
  moreover have "evaluate_entry now_ms now_ns reg quiet_visit e s = Some (False, store ?h Open_Word l (fire (\<lambda>s. s) ?h now_ms s))"
    using assms(2-6) l by (simp add: evaluate_entry_cases evaluate_contract_def Let_def)
  ultimately show ?thesis
    using gt le by (auto simp: shm_simps entry_open_def u)
qed

text \<open>
  No waiter on a closed count is left asleep by the pass: in the history of an isolated
  pass every store to a closed count, by firing or by reaping, is followed by the wake of that
  closed count.
\<close>

theorem pass_wakes_waiters:
  assumes "evaluate_all now_ms now_ns (isolated order) reg s = Some (reg', s')"
  shows "\<exists>evs. trace s' = trace s @ evs \<and> wakes_follow evs"
  using assms evaluate_each_wakes by (auto simp: evaluate_all_def)

section \<open>A sample registry\<close>

definition sample_registry :: registry where
  "sample_registry =
     \<lparr>next_id = 5, by_name =
        [clock_name \<mapsto> clock_entry 0,
         ''a'' \<mapsto> \<lparr>e_id = 1, e_handle = 1, e_tier = Interlock, e_watched_name = None,
                   e_watched_word = None, e_interval_ms = None, e_barrier_conditions = None\<rparr>,
         ''w'' \<mapsto> \<lparr>e_id = 2, e_handle = 2, e_tier = WaitCounter, e_watched_name = Some ''a'',
                   e_watched_word = Some OpenCount, e_interval_ms = None, e_barrier_conditions = None\<rparr>,
         ''c'' \<mapsto> \<lparr>e_id = 3, e_handle = 3, e_tier = WaitCron, e_watched_name = Some clock_name,
                   e_watched_word = Some OpenCount, e_interval_ms = Some 10, e_barrier_conditions = None\<rparr>]\<rparr>"

definition sample_shm :: "u64 \<Rightarrow> shm" where
  "sample_shm a_expiration =
     \<lparr>mem = (\<lambda>r. if r = 0 then \<lparr>open_count = 5000, closed_count = 100, expiration_ns = 6000000000\<rparr>
        else if r = 1 then \<lparr>open_count = 3, closed_count = 0, expiration_ns = a_expiration\<rparr>
        else if r = 2 then \<lparr>open_count = 3, closed_count = 0, expiration_ns = 6000000000\<rparr>
        else if r = 3 then \<lparr>open_count = 4990, closed_count = 4980, expiration_ns = 6000000000\<rparr>
        else zero_interlock),
      next_region = 4, trace = []\<rparr>"

abbreviation sample_order :: "string list" where
  "sample_order \<equiv> [''a'', ''w'', clock_name, ''c'']"

abbreviation good_replies :: alloc_replies where
  "good_replies \<equiv> \<lparr>memfd_ret = 3, memfd_errno = 0, ftruncate_ret = 0, ftruncate_errno = 0,
     mmap_ret = Mapped, mmap_errno = 0\<rparr>"

lemma sample_inv: "registry_inv sample_registry (sample_shm x)"
  by (auto simp: registry_inv_def sample_registry_def sample_shm_def clock_entry_def entry_wf_def
      split: if_splits)

lemma sample_order: "distinct sample_order" "set sample_order = dom (by_name sample_registry)"
  by (auto simp: sample_registry_def split: if_splits)

lemma sample_pass:
  obtains reg' s' where
    "evaluate_all 5000 5000000000 (isolated sample_order) sample_registry (sample_shm x) = Some (reg', s')"
  using evaluate_all_inv [OF sample_inv schedule_ok_isolated] by metis

section \<open>Witnesses\<close>

abbreviation sample_timer ::
    "((condition + u64 \<times> region) \<times> registry \<times> shm) option" where
  "sample_timer \<equiv>
     create good_replies no_gap 7000 ''a'' WaitTimer None None None None sample_registry (sample_shm 1000)"

lemma sample_timer_Some: "\<exists>reg' s'. sample_timer = Some (Inr (5, 4), reg', s')"
  by (simp add: create_def interlock_create_def memfd_create_def ftruncate_def mmap_interlock_def
      sample_registry_def sample_shm_def clock_def Let_def)

lemma create_success_witness:
  "\<exists>reg' s' e. sample_timer = Some (Inr (5, 4), reg', s') \<and> attach ''a'' reg' = Inr (5, 4) \<and>
     by_name reg' ''a'' = Some e \<and> e_watched_name e = Some clock_name"
proof -
  obtain reg' s' where r: "sample_timer = Some (Inr (5, 4), reg', s')" using sample_timer_Some by blast
  with create_success [OF sample_inv r] show ?thesis by (auto simp: watches_asked_def)
qed

lemma create_failure_witness:
  "\<exists>reg' s'. create good_replies no_gap 7000 ''b'' WaitBarrier None None None (Some [(''z'', 0, 1)])
      sample_registry (sample_shm 1000) = Some (Inl (InterlockNotFound ''z''), reg', s') \<and>
    reg' = sample_registry"
proof -
  have "\<exists>reg' s'. create good_replies no_gap 7000 ''b'' WaitBarrier None None None (Some [(''z'', 0, 1)])
      sample_registry (sample_shm 1000) = Some (Inl (InterlockNotFound ''z''), reg', s')"
    by (simp add: create_def sample_registry_def)
  then show ?thesis using create_failure by blast
qed

lemma create_safe_witness:
  "\<exists>out reg' s'. sample_timer = Some (out, reg', s') \<and> registry_inv reg' s' \<and> ids_inv reg'"
proof -
  have "ids_inv sample_registry" "next_id sample_registry \<noteq> - 1"
    by (auto simp: ids_inv_def sample_registry_def clock_entry_def split: if_splits)
  then show ?thesis
    using create_safe [OF sample_inv, of no_gap good_replies 7000 "''a''" WaitTimer None None None None 1000]
    by auto
qed

definition busy_visit :: visit where
  "busy_visit = \<lparr>before_visit = fetch_add 1 Open_Word 1, after_open = fetch_add 2 Closed_Word 1,
     after_closed = store 3 Open_Word SENTINEL, before_contract = store 1 Open_Word SENTINEL,
     after_watched = fetch_add 2 Open_Word 1, after_condition = (\<lambda>i. fetch_add 3 Open_Word (of_nat i)),
     in_fire = fetch_add 3 Closed_Word 1, before_rearm = fetch_add 3 Open_Word 7,
     in_reap = (\<lambda>i. fetch_add 1 Closed_Word (of_nat i))\<rparr>"

lemma evaluate_all_safe_witness:
  "\<exists>reg' s'. evaluate_all 5000 5000000000 [(''c'', busy_visit), (''w'', busy_visit)]
      sample_registry (sample_shm 1000) = Some (reg', s') \<and> registry_inv reg' s'"
proof -
  have "schedule_ok [(''c'', busy_visit), (''w'', busy_visit)]"
    by (simp add: schedule_ok_def visit_all_def busy_visit_def shm_simps fetch_add_def)
  from evaluate_all_safe [OF sample_inv this] show ?thesis by blast
qed

lemma pass_removes_dead_witness:
  "\<exists>reg' s'. evaluate_all 5000 5000000000 (isolated sample_order) sample_registry (sample_shm 1000)
      = Some (reg', s') \<and> by_name reg' ''a'' = None"
proof -
  obtain reg' s' where r: "evaluate_all 5000 5000000000 (isolated sample_order) sample_registry
      (sample_shm 1000) = Some (reg', s')" by (rule sample_pass)
  obtain e where e: "by_name sample_registry ''a'' = Some e" "entry_dead 5000000000 e (sample_shm 1000)"
    by (simp add: sample_registry_def entry_dead_def expiration_alive_def load_def sample_shm_def)
  with pass_removes_dead [OF sample_inv sample_order r e(1)] r show ?thesis by auto
qed

lemma pass_implements_contracts_witness:
  "\<exists>reg' s'. evaluate_all 5000 5000000000 (isolated sample_order) sample_registry (sample_shm 6000000000)
      = Some (reg', s') \<and> load 2 Closed_Word s' = 3"
proof -
  let ?s = "sample_shm 6000000000"
  obtain reg' s' where r: "evaluate_all 5000 5000000000 (isolated sample_order) sample_registry ?s
      = Some (reg', s')" by (rule sample_pass)
  have order: "sample_order = [''a''] @ ''w'' # [clock_name, ''c'']" by simp
  obtain e where e: "by_name sample_registry ''w'' = Some e" by (simp add: sample_registry_def)
  then have h: "e_handle e = 2" by (auto simp: sample_registry_def)
  have 1: "\<not> entry_dead 5000000000 e ?s" "entry_open e ?s"
    by (simp_all add: h entry_dead_def entry_open_def interlock_is_terminated_def expiration_alive_def
        load_def sample_shm_def SENTINEL_def)
  have 2: "\<forall>m \<in> watched_names e. steady sample_registry 5000000000 ?s m"
    using e by (auto simp: sample_registry_def watched_names_def steady_def entry_dead_def
        interlock_is_terminated_def expiration_alive_def load_def sample_shm_def SENTINEL_def)
  have 3: "contract_value 5000 sample_registry e ?s = Some 3"
    using e by (auto simp: contract_value_def sample_registry_def Let_def load_def sample_shm_def)
  note pass = pass_implements_contracts [OF sample_inv sample_order [unfolded order] r [unfolded order] e _ 1]
  have "load 2 Closed_Word s' = 3" using pass 2 by (auto simp: 3 h)
  with r show ?thesis by blast
qed

lemma reaped_watch_fires_spuriously_witness:
  "\<exists>reg' s'. evaluate_all 5000 5000000000 (isolated sample_order) sample_registry (store 2 Open_Word 4 (sample_shm 1000))
      = Some (reg', s') \<and> load 2 Closed_Word s' = SENTINEL"
proof -
  let ?s = "store 2 Open_Word 4 (sample_shm 1000)"
  have inv: "registry_inv sample_registry ?s" using sample_inv [of 1000] by (simp add: registry_inv_def shm_simps)
  obtain reg' s' where r: "evaluate_all 5000 5000000000 (isolated sample_order) sample_registry ?s
      = Some (reg', s')" using evaluate_all_inv [OF inv schedule_ok_isolated] by metis
  have order: "sample_order = [''a''] @ ''w'' # [clock_name, ''c'']" by simp
  obtain e w where e: "by_name sample_registry ''w'' = Some e" "by_name sample_registry ''a'' = Some w"
    by (simp add: sample_registry_def)
  then have f: "e_handle e = 2" "e_tier e = WaitCounter" "e_watched_name e = Some ''a''" "e_watched_word e = Some OpenCount"
    and h: "e_handle w = 1" by (auto simp: sample_registry_def)
  have "\<not> entry_dead 5000000000 e ?s" "entry_open e ?s" "entry_dead 5000000000 w ?s"
    by (simp_all add: f h entry_dead_def entry_open_def interlock_is_terminated_def expiration_alive_def shm_simps)
       (simp_all add: load_def sample_shm_def SENTINEL_def)
  from reaped_watch_fires_spuriously [OF inv sample_order [unfolded order] r [unfolded order] e(1) f(2-4) e(2) this]
  have "load 2 Closed_Word s' = SENTINEL" by (simp add: f(1))
  with r show ?thesis by blast
qed

lemma cron_rearms_on_grid_witness:
  "\<exists>e s'. by_name sample_registry ''c'' = Some e \<and>
     evaluate_entry 5000 5000000000 sample_registry quiet_visit e (sample_shm 0) = Some (False, s') \<and>
     10 dvd unat (load 3 Open_Word s')"
proof -
  obtain e where e: "by_name sample_registry ''c'' = Some e" by (simp add: sample_registry_def)
  then have f: "e_handle e = 3" "e_tier e = WaitCron" "e_interval_ms e = Some 10"
    by (auto simp: sample_registry_def)
  have 1: "\<not> entry_dead 5000000000 e (sample_shm 0)" "entry_open e (sample_shm 0)"
    "load (e_handle e) Open_Word (sample_shm 0) \<le> 5000"
    by (simp_all add: f(1) entry_dead_def entry_open_def interlock_is_terminated_def expiration_alive_def
        load_def sample_shm_def SENTINEL_def)
  show ?thesis
    using cron_rearms_on_grid [OF registry_invD(3) [OF sample_inv e] f(2,3) 1] e f(1) by auto
qed

lemma pass_wakes_waiters_witness:
  "\<exists>reg' s'. evaluate_all 5000 5000000000 (isolated sample_order) sample_registry (sample_shm 1000)
      = Some (reg', s') \<and> wakes_follow (drop (length (trace (sample_shm 1000))) (trace s'))"
proof -
  obtain reg' s' where r: "evaluate_all 5000 5000000000 (isolated sample_order) sample_registry
      (sample_shm 1000) = Some (reg', s')" by (rule sample_pass)
  from pass_wakes_waiters [OF r] r show ?thesis by auto
qed

end
