(* ===== verification/Wire.thy ===== *)
theory Wire
  imports Errors
begin

text \<open>
  \<open>abacus-daemon/src/wire.rs\<close>: the requests and responses of the UDS protocol, their binary
  encoding (version byte, tag, little-endian integers, length-prefixed UTF-8 strings, the
  whole behind a \<open>u32\<close> length prefix) and the decoders, with every fault they report.
  Positions into the payload are kept as the source keeps them.
\<close>

definition LENGTH_PREFIX_BYTES :: usize where "LENGTH_PREFIX_BYTES = 4"
definition MAX_MESSAGE_SIZE :: usize where "MAX_MESSAGE_SIZE = 4096"
definition PROTOCOL_VERSION :: u8 where "PROTOCOL_VERSION = 1"

definition TAG_CREATE_INTERLOCK :: u8 where "TAG_CREATE_INTERLOCK = 0x01"
definition TAG_ATTACH_INTERLOCK :: u8 where "TAG_ATTACH_INTERLOCK = 0x02"
definition TAG_CREATED :: u8 where "TAG_CREATED = 0x81"
definition TAG_ATTACHED :: u8 where "TAG_ATTACHED = 0x82"
definition TAG_ERROR :: u8 where "TAG_ERROR = 0x88"

definition ERR_INTERLOCK_REAPED :: u8 where "ERR_INTERLOCK_REAPED = 0x01"
definition ERR_INTERLOCK_NOT_FOUND :: u8 where "ERR_INTERLOCK_NOT_FOUND = 0x02"
definition ERR_ALLOCATION_FAILED :: u8 where "ERR_ALLOCATION_FAILED = 0x03"
definition ERR_INVALID_REQUEST :: u8 where "ERR_INVALID_REQUEST = 0x04"

lemmas wire_consts = LENGTH_PREFIX_BYTES_def MAX_MESSAGE_SIZE_def PROTOCOL_VERSION_def
  TAG_CREATE_INTERLOCK_def TAG_ATTACH_INTERLOCK_def TAG_CREATED_def TAG_ATTACHED_def TAG_ERROR_def

section \<open>Messages\<close>

type_synonym wire_condition = "string \<times> u8 \<times> u64"

datatype request =
    CreateInterlock (req_name: string) (req_tier: u8) (req_watched_name: "string option")
      (req_watched_word: "u8 option") (req_interval_ns: "u64 option")
      (req_conditions: "wire_condition list option")
  | AttachInterlock (req_name: string)

datatype response = Created u64 | Attached u64 | Error_Response u8 string

definition resp_interlock_reaped :: response where
  "resp_interlock_reaped = Error_Response ERR_INTERLOCK_REAPED ''InterlockReaped''"

definition resp_interlock_not_found :: "string \<Rightarrow> response" where
  "resp_interlock_not_found nm =
     Error_Response ERR_INTERLOCK_NOT_FOUND (''InterlockNotFound: '' @ nm)"

definition resp_allocation_failed :: "string \<Rightarrow> response" where
  "resp_allocation_failed msg = Error_Response ERR_ALLOCATION_FAILED msg"

definition resp_invalid_request :: "string \<Rightarrow> response" where
  "resp_invalid_request msg = Error_Response ERR_INVALID_REQUEST msg"

fun expected_fd_count :: "response \<Rightarrow> usize" where
  "expected_fd_count (Created i) = 1"
| "expected_fd_count (Attached i) = 1"
| "expected_fd_count (Error_Response c m) = 0"

section \<open>Encoding\<close>

text \<open>The encoders append to a buffer; here they return what they append.\<close>

definition encode_string :: "string \<Rightarrow> protocol_fault + u8 list" where
  "encode_string s =
     (let bytes = as_bytes s in
      if 65535 < length bytes then Inl (FrameTooLarge (length bytes) 65535)
      else Inr (u16_to_le_bytes (of_nat (length bytes)) @ bytes))"

fun encode_conditions :: "wire_condition list \<Rightarrow> protocol_fault + u8 list" where
  "encode_conditions [] = Inr []"
| "encode_conditions ((wn, ww, threshold) # cs) =
     and_then (encode_string wn) (\<lambda>b.
     and_then (encode_conditions cs) (\<lambda>r. Inr (b @ [ww] @ u64_to_le_bytes threshold @ r)))"

text \<open>
  The tier-specific fields.  The count of a barrier is \<open>conds.len() as u16\<close>, which keeps the
  low 16 bits.
\<close>

definition encode_tier_fields ::
    "u8 \<Rightarrow> string option \<Rightarrow> u8 option \<Rightarrow> u64 option \<Rightarrow> wire_condition list option \<Rightarrow>
     protocol_fault + u8 list" where
  "encode_tier_fields tier watched_name watched_word interval_ns conditions =
     (if tier = 1 then
        and_then (ok_or watched_word (Truncated 1 0)) (\<lambda>ww.
        (case watched_name of
           Some wn \<Rightarrow> and_then (encode_string wn) (\<lambda>b. Inr (b @ [ww]))
         | None \<Rightarrow> Inr [ww]))
      else if tier = 3 then
        (case interval_ns of Some ival \<Rightarrow> Inr (u64_to_le_bytes ival) | None \<Rightarrow> Inr [])
      else if tier = 4 then
        (case conditions of
           Some conds \<Rightarrow>
             and_then (encode_conditions conds) (\<lambda>b.
             Inr (u16_to_le_bytes (of_nat (length conds)) @ b))
         | None \<Rightarrow> Inr [])
      else Inr [])"

fun request_payload :: "request \<Rightarrow> protocol_fault + u8 list" where
  "request_payload (CreateInterlock name tier watched_name watched_word interval_ns conditions) =
     and_then (encode_string name) (\<lambda>n.
     and_then (encode_tier_fields tier watched_name watched_word interval_ns conditions) (\<lambda>f.
     Inr ([PROTOCOL_VERSION, TAG_CREATE_INTERLOCK] @ n @ [tier] @ f)))"
| "request_payload (AttachInterlock name) =
     and_then (encode_string name) (\<lambda>n. Inr ([PROTOCOL_VERSION, TAG_ATTACH_INTERLOCK] @ n))"

fun response_payload :: "response \<Rightarrow> protocol_fault + u8 list" where
  "response_payload (Created i) = Inr ([PROTOCOL_VERSION, TAG_CREATED] @ u64_to_le_bytes i)"
| "response_payload (Attached i) = Inr ([PROTOCOL_VERSION, TAG_ATTACHED] @ u64_to_le_bytes i)"
| "response_payload (Error_Response code message) =
     and_then (encode_string message) (\<lambda>m. Inr ([PROTOCOL_VERSION, TAG_ERROR, code] @ m))"

text \<open>The size check and the length prefix, the common tail of both encoders.\<close>

definition frame_of :: "u8 list \<Rightarrow> protocol_fault + u8 list" where
  "frame_of payload =
     (if MAX_MESSAGE_SIZE < length payload then Inl (FrameTooLarge (length payload) MAX_MESSAGE_SIZE)
      else Inr (u32_to_le_bytes (of_nat (length payload)) @ payload))"

definition encode_request :: "request \<Rightarrow> protocol_fault + u8 list" where
  "encode_request req = and_then (request_payload req) frame_of"

definition encode_response :: "response \<Rightarrow> protocol_fault + u8 list" where
  "encode_response resp = and_then (response_payload resp) frame_of"

section \<open>Decoding\<close>

definition decode_string :: "u8 list \<Rightarrow> protocol_fault + string" where
  "decode_string data =
     (if length data < 2 then Inl (Truncated 2 (length data))
      else let n = unat (u16_from_le_bytes [data ! 0, data ! 1]) in
      if length data < 2 + n then Inl (Truncated (2 + n) (length data))
      else ok_or (from_utf8 (take n (drop 2 data))) InvalidUtf8)"

text \<open>
  The loop over the conditions of a barrier: \<open>n\<close> are left, \<open>pos\<close> is the position in
  \<open>rest\<close>; the result is in the order read.
\<close>

fun decode_conditions :: "nat \<Rightarrow> u8 list \<Rightarrow> nat \<Rightarrow> protocol_fault + wire_condition list" where
  "decode_conditions 0 rest pos = Inr []"
| "decode_conditions (Suc n) rest pos =
     and_then (decode_string (drop pos rest)) (\<lambda>wn.
     let p = pos + (2 + length wn) in
     if length rest \<le> p then Inl (Truncated (p + 1) (length rest))
     else let ww = rest ! p; p = p + 1 in
     if length rest < p + 8 then Inl (Truncated (p + 8) (length rest))
     else let threshold = u64_from_le_bytes (take 8 (drop p rest)) in
     and_then (decode_conditions n rest (p + 8)) (\<lambda>cs. Inr ((wn, ww, threshold) # cs)))"

definition decode_create :: "u8 list \<Rightarrow> u8 list \<Rightarrow> protocol_fault + request" where
  "decode_create data rest =
     and_then (decode_string rest) (\<lambda>name.
     let pos = 2 + length name in
     if length rest \<le> pos then Inl (Truncated (length data + 1) (length data))
     else let tier = rest ! pos; pos = pos + 1 in
     if tier = 1 then
       and_then (decode_string (drop pos rest)) (\<lambda>wn.
       let pos = pos + (2 + length wn) in
       if length rest \<le> pos then Inl (Truncated (length data + 1) (length data))
       else Inr (CreateInterlock name tier (Some wn) (Some (rest ! pos)) None None))
     else if tier = 3 then
       (if length rest < pos + 8 then Inl (Truncated (pos + 8 + 2) (length rest))
        else Inr (CreateInterlock name tier None None
                    (Some (u64_from_le_bytes (take 8 (drop pos rest)))) None))
     else if tier = 4 then
       (if length rest < pos + 2 then Inl (Truncated (pos + 2) (length rest))
        else let count = unat (u16_from_le_bytes [rest ! pos, rest ! (pos + 1)]) in
        and_then (decode_conditions count rest (pos + 2)) (\<lambda>conds.
        Inr (CreateInterlock name tier None None None (Some conds))))
     else Inr (CreateInterlock name tier None None None None))"

definition decode_request :: "u8 list \<Rightarrow> protocol_fault + request" where
  "decode_request data =
     (if length data < 2 then Inl (Truncated 2 (length data))
      else if data ! 0 \<noteq> PROTOCOL_VERSION then Inl (UnsupportedVersion (data ! 0))
      else let tag = data ! 1; rest = drop 2 data in
      if tag = TAG_CREATE_INTERLOCK then decode_create data rest
      else if tag = TAG_ATTACH_INTERLOCK then
        and_then (decode_string rest) (\<lambda>name. Inr (AttachInterlock name))
      else Inl (UnknownTag tag))"

definition decode_response :: "u8 list \<Rightarrow> protocol_fault + response" where
  "decode_response data =
     (if length data < 2 then Inl (Truncated 2 (length data))
      else if data ! 0 \<noteq> PROTOCOL_VERSION then Inl (UnsupportedVersion (data ! 0))
      else let tag = data ! 1; rest = drop 2 data in
      if tag = TAG_CREATED then
        (if length rest < 8 then Inl (Truncated 10 (length data))
         else Inr (Created (u64_from_le_bytes (take 8 rest))))
      else if tag = TAG_ATTACHED then
        (if length rest < 8 then Inl (Truncated 10 (length data))
         else Inr (Attached (u64_from_le_bytes (take 8 rest))))
      else if tag = TAG_ERROR then
        (if rest = [] then Inl (Truncated 3 (length data))
         else let code = rest ! 0 in
         and_then (if 1 < length rest then decode_string (drop 1 rest) else Inr '''') (\<lambda>message.
         Inr (Error_Response code message)))
      else Inl (UnknownTag tag))"

section \<open>Strings\<close>

lemma u16_pair: "[u16_to_le_bytes w ! 0, u16_to_le_bytes w ! Suc 0] = u16_to_le_bytes w"
  by (rule nth_equalityI) (auto simp: less_Suc_eq numeral_2_eq_2 nth_Cons')

lemma u16_of_nat: "n \<le> 65535 \<Longrightarrow> unat (of_nat n :: u16) = n"
  by (simp add: unat_of_nat)

lemma encode_string_Inr:
  "encode_string s = Inr b \<longleftrightarrow>
     length s \<le> 65535 \<and> b = u16_to_le_bytes (of_nat (length s)) @ as_bytes s"
  by (auto simp: encode_string_def Let_def)

lemma length_encode_string: "encode_string s = Inr b \<Longrightarrow> length b = 2 + length s"
  by (auto simp: encode_string_Inr)

lemma decode_encode_string:
  assumes "encode_string s = Inr b" and "utf8_string s"
  shows "decode_string (b @ rest) = Inr s"
proof -
  from assms(1) have len: "length s \<le> 65535" and b: "b = u16_to_le_bytes (of_nat (length s)) @ as_bytes s"
    by (auto simp: encode_string_Inr)
  have "unat (u16_from_le_bytes [(b @ rest) ! 0, (b @ rest) ! 1]) = length s"
    using len by (simp add: b nth_append u16_pair le16.from_to_le u16_of_nat)
  moreover have "take (length s) (drop 2 (b @ rest)) = as_bytes s"
    by (simp add: b)
  ultimately show ?thesis
    using assms(2) by (simp add: decode_string_def Let_def b from_utf8_as_bytes)
qed

lemma decode_string_Inr:
  assumes "decode_string data = Inr s"
  shows "utf8_string s" and "\<exists>b. encode_string s = Inr b \<and> data = b @ drop (2 + length s) data"
proof -
  let ?w = "u16_from_le_bytes [data ! 0, data ! 1]"
  from assms have len: "2 + unat ?w \<le> length data"
    and dec: "from_utf8 (take (unat ?w) (drop 2 data)) = Some s"
    by (auto simp: decode_string_def Let_def split: if_splits)
  from dec show "utf8_string s" by (simp add: from_utf8_Some)
  from dec have bytes: "as_bytes s = take (unat ?w) (drop 2 data)" by (simp add: from_utf8_Some)
  then have n: "length s = unat ?w" using len by (metis length_as_bytes length_take length_drop
    le_diff_conv2 add.commute add_leE min.absorb2)
  have "unat ?w < 65536" using unsigned_less [of ?w] by (simp add: unat_of_nat)
  moreover have "u16_to_le_bytes (of_nat (length s)) = take 2 data"
  proof -
    have "take 2 data = [data ! 0, data ! 1]"
      using len by (intro nth_equalityI) (auto simp: less_Suc_eq numeral_2_eq_2)
    then show ?thesis by (simp add: n le16.to_from_le)
  qed
  ultimately have "encode_string s = Inr (take 2 data @ take (length s) (drop 2 data))"
    using bytes n by (simp add: encode_string_Inr)
  moreover have "data = (take 2 data @ take (length s) (drop 2 data)) @ drop (2 + length s) data"
    by (metis append.assoc append_take_drop_id drop_drop add.commute)
  ultimately show "\<exists>b. encode_string s = Inr b \<and> data = b @ drop (2 + length s) data"
    by blast
qed

section \<open>Canonical requests\<close>

text \<open>
  A request value that the protocol can carry: its strings are Rust strings, and exactly the
  fields of its tier are present.
\<close>

definition wf_conditions :: "wire_condition list \<Rightarrow> bool" where
  "wf_conditions cs \<longleftrightarrow> list_all (\<lambda>(wn, ww, threshold). utf8_string wn) cs"

fun canonical_request :: "request \<Rightarrow> bool" where
  "canonical_request (CreateInterlock name tier wn ww ival conds) \<longleftrightarrow>
     utf8_string name \<and>
     (if tier = 1 then (\<exists>n. wn = Some n \<and> utf8_string n) \<and> ww \<noteq> None \<and> ival = None \<and> conds = None
      else if tier = 3 then wn = None \<and> ww = None \<and> ival \<noteq> None \<and> conds = None
      else if tier = 4 then wn = None \<and> ww = None \<and> ival = None \<and> (\<exists>cs. conds = Some cs \<and> wf_conditions cs)
      else wn = None \<and> ww = None \<and> ival = None \<and> conds = None)"
| "canonical_request (AttachInterlock name) \<longleftrightarrow> utf8_string name"

fun wf_response :: "response \<Rightarrow> bool" where
  "wf_response (Error_Response c m) \<longleftrightarrow> utf8_string m"
| "wf_response _ \<longleftrightarrow> True"

section \<open>Barrier conditions\<close>

lemma decode_encode_conditions:
  assumes "encode_conditions cs = Inr b" and "wf_conditions cs" and "length pre = pos"
  shows "decode_conditions (length cs) (pre @ b @ post) pos = Inr cs"
  using assms
proof (induction cs arbitrary: b pre pos)
  case Nil
  then show ?case by simp
next
  case (Cons c cs)
  obtain wn ww th where c: "c = (wn, ww, th)" by (cases c) auto
  from Cons.prems(1) c obtain bn br where bn: "encode_string wn = Inr bn"
    and br: "encode_conditions cs = Inr br" and b: "b = bn @ [ww] @ u64_to_le_bytes th @ br"
    by auto
  from Cons.prems(2) c have utf: "utf8_string wn" and wf: "wf_conditions cs"
    by (simp_all add: wf_conditions_def)
  let ?rest = "pre @ b @ post" and ?p = "pos + (2 + length wn)"
  have split: "?rest = (pre @ bn) @ ww # (u64_to_le_bytes th @ br @ post)" by (simp add: b)
  have lp: "length (pre @ bn) = ?p" using Cons.prems(3) bn by (simp add: length_encode_string)
  have "decode_string (drop pos ?rest) = Inr wn"
    using Cons.prems(3) bn utf by (simp add: b decode_encode_string)
  moreover have "?rest ! ?p = ww" by (simp only: split nth_append_here [OF lp])
  moreover have "drop (?p + 1) ?rest = u64_to_le_bytes th @ br @ post"
  proof -
    have "drop (?p + 1) ?rest = drop 1 (drop ?p ?rest)" by (metis drop_drop add.commute)
    then show ?thesis by (simp only: split drop_append_here [OF lp]) simp
  qed
  moreover have "?p + 1 + 8 \<le> length ?rest" using lp by (simp only: split) simp
  moreover have "decode_conditions (length cs) ?rest (?p + 1 + 8) = Inr cs"
    using Cons.IH [OF br wf, of "pre @ bn @ [ww] @ u64_to_le_bytes th" "?p + 1 + 8"] lp
    by (simp add: b)
  ultimately show ?case
    by (simp add: c Let_def le64.read_here)
qed

lemma decode_conditions_Inr:
  assumes "decode_conditions n rest pos = Inr cs"
  shows "length cs = n" and "wf_conditions cs"
    and "\<exists>b. encode_conditions cs = Inr b \<and> drop pos rest = b @ drop (pos + length b) rest"
proof -
  have "length cs = n \<and> wf_conditions cs \<and>
      (\<exists>b. encode_conditions cs = Inr b \<and> drop pos rest = b @ drop (pos + length b) rest)"
    using assms
  proof (induction n rest pos arbitrary: cs rule: decode_conditions.induct)
    case (1 rest pos)
    then show ?case by (simp add: wf_conditions_def)
  next
    case (2 n rest pos)
    from "2.prems" obtain wn where wn: "decode_string (drop pos rest) = Inr wn" by auto
    let ?p = "pos + (2 + length wn)"
    let ?ww = "rest ! ?p" and ?th = "u64_from_le_bytes (take 8 (drop (?p + 1) rest))"
    from "2.prems" wn obtain cs' where cs': "decode_conditions n rest (?p + 1 + 8) = Inr cs'"
      and cs: "cs = (wn, ?ww, ?th) # cs'" and len: "?p + 1 + 8 \<le> length rest"
      by (auto simp: Let_def split: if_splits)
    from len have "\<not> length rest \<le> ?p" "\<not> length rest < ?p + 1 + 8" by simp_all
    with "2.IH" [OF wn refl _ refl refl _ refl] cs'
    obtain br where IH: "length cs' = n" "wf_conditions cs'" "encode_conditions cs' = Inr br"
      "drop (?p + 1 + 8) rest = br @ drop (?p + 1 + 8 + length br) rest"
      by blast
    from decode_string_Inr(2) [OF wn] obtain bn where bn: "encode_string wn = Inr bn"
      and dn: "drop pos rest = bn @ drop ?p rest"
      by (auto simp: add.commute add.left_commute)
    have "drop ?p rest = ?ww # drop (?p + 1) rest"
      using len by (simp add: Cons_nth_drop_Suc)
    moreover have "drop (?p + 1) rest = u64_to_le_bytes ?th @ drop (?p + 1 + 8) rest"
      using le64.take_split [of "drop (?p + 1) rest"] len by (simp add: add.commute add.left_commute)
    ultimately have "drop pos rest =
        (bn @ [?ww] @ u64_to_le_bytes ?th @ br) @ drop (?p + 1 + 8 + length br) rest"
      using dn IH(4) by simp
    moreover have "pos + length (bn @ [?ww] @ u64_to_le_bytes ?th @ br) = ?p + 1 + 8 + length br"
      using length_encode_string [OF bn] by simp
    ultimately have d: "drop pos rest = (bn @ [?ww] @ u64_to_le_bytes ?th @ br) @
        drop (pos + length (bn @ [?ww] @ u64_to_le_bytes ?th @ br)) rest"
      by (simp only:)
    have e: "encode_conditions cs = Inr (bn @ [?ww] @ u64_to_le_bytes ?th @ br)"
      by (simp add: cs bn IH(3))
    have "length cs = Suc n" and "wf_conditions cs"
      using IH(1,2) decode_string_Inr(1) [OF wn] by (simp_all add: cs wf_conditions_def)
    with d e show ?case by blast
  qed
  then show "length cs = n" and "wf_conditions cs"
    and "\<exists>b. encode_conditions cs = Inr b \<and> drop pos rest = b @ drop (pos + length b) rest"
    by auto
qed

section \<open>Messages behind frames\<close>

text \<open>
  The interface between a message format and the transport: a payload decodes to the message
  it was made from.  Framing alone then gives that a frame announces its payload's length,
  that the payload fits the receiver's buffer, and that a stream of frames parses in one way
  only.  Requests and responses are its two interpretations.
\<close>

locale frame_codec =
  fixes payload_of :: "'m \<Rightarrow> protocol_fault + u8 list"
    and decode :: "u8 list \<Rightarrow> protocol_fault + 'm"
    and ok :: "'m \<Rightarrow> bool"
  assumes decode_payload:
    "ok m \<Longrightarrow> payload_of m = Inr p \<Longrightarrow> length p \<le> MAX_MESSAGE_SIZE \<Longrightarrow> decode p = Inr m"
begin

lemma frame_layout:
  assumes "and_then (payload_of m) frame_of = Inr f"
  obtains p where "payload_of m = Inr p" and "length p \<le> MAX_MESSAGE_SIZE"
    and "f = u32_to_le_bytes (of_nat (length p)) @ p" and "unat (of_nat (length p) :: u32) = length p"
  using assms by (auto simp: frame_of_def MAX_MESSAGE_SIZE_def unat_of_nat split: if_splits)

lemma decode_frame:
  assumes "ok m" and "and_then (payload_of m) frame_of = Inr f"
  shows "decode (drop LENGTH_PREFIX_BYTES f) = Inr m"
    and "unat (u32_from_le_bytes (take LENGTH_PREFIX_BYTES f)) = length (drop LENGTH_PREFIX_BYTES f)"
    and "length (drop LENGTH_PREFIX_BYTES f) \<le> MAX_MESSAGE_SIZE"
proof -
  from frame_layout [OF assms(2)] obtain p where p: "payload_of m = Inr p"
    "length p \<le> MAX_MESSAGE_SIZE" "f = u32_to_le_bytes (of_nat (length p)) @ p"
    "unat (of_nat (length p) :: u32) = length p" .
  then show "decode (drop LENGTH_PREFIX_BYTES f) = Inr m"
    and "unat (u32_from_le_bytes (take LENGTH_PREFIX_BYTES f)) = length (drop LENGTH_PREFIX_BYTES f)"
    and "length (drop LENGTH_PREFIX_BYTES f) \<le> MAX_MESSAGE_SIZE"
    by (simp_all add: decode_payload [OF assms(1)] LENGTH_PREFIX_BYTES_def)
qed

lemma frame_self_delimiting:
  assumes "ok m" and "ok m'"
    and "and_then (payload_of m) frame_of = Inr f" and "and_then (payload_of m') frame_of = Inr f'"
    and "f @ x = f' @ x'"
  shows "m = m' \<and> x = x'"
proof -
  from frame_layout [OF assms(3)] obtain p where p: "payload_of m = Inr p"
    "f = u32_to_le_bytes (of_nat (length p)) @ p" "unat (of_nat (length p) :: u32) = length p"
    "length p \<le> MAX_MESSAGE_SIZE" .
  from frame_layout [OF assms(4)] obtain q where q: "payload_of m' = Inr q"
    "f' = u32_to_le_bytes (of_nat (length q)) @ q" "unat (of_nat (length q) :: u32) = length q"
    "length q \<le> MAX_MESSAGE_SIZE" .
  from assms(5) p(2) q(2)
  have "u32_to_le_bytes (of_nat (length p)) = u32_to_le_bytes (of_nat (length q))"
    and rest: "p @ x = q @ x'"
    by (simp_all add: append_eq_append_conv)
  then have "length p = length q" using p(3) q(3) by (metis le32.from_to_le)
  with rest have "p = q" and "x = x'" by auto
  moreover from this p(1,4) q(1,4) assms(1,2) have "m = m'"
    by (metis decode_payload sum.inject(2))
  ultimately show ?thesis by simp
qed

end

text \<open>
  The decoder behind the name, in terms of the bytes \<open>bf\<close> that follow the tier.
\<close>

lemma decode_create_fields:
  assumes name: "decode_string rest = Inr name" and pre: "length pre = 2 + length name"
    and rest: "rest = pre @ tier # bf"
  shows "decode_create data rest =
    (if tier = 1 then
       and_then (decode_string bf) (\<lambda>wn.
       if length bf \<le> 2 + length wn then Inl (Truncated (length data + 1) (length data))
       else Inr (CreateInterlock name tier (Some wn) (Some (bf ! (2 + length wn))) None None))
     else if tier = 3 then
       (if length bf < 8 then Inl (Truncated (length pre + 1 + 8 + 2) (length rest))
        else Inr (CreateInterlock name tier None None (Some (u64_from_le_bytes (take 8 bf))) None))
     else if tier = 4 then
       (if length bf < 2 then Inl (Truncated (length pre + 1 + 2) (length rest))
        else and_then (decode_conditions (unat (u16_from_le_bytes [bf ! 0, bf ! 1])) rest
               (length pre + 1 + 2))
             (\<lambda>conds. Inr (CreateInterlock name tier None None None (Some conds))))
     else Inr (CreateInterlock name tier None None None None))"
proof -
  define P where "P = length pre"
  have at: "rest ! P = tier" and after: "drop (P + 1) rest = bf"
    and len: "length rest = P + 1 + length bf" and nth: "\<And>k. rest ! (P + 1 + k) = bf ! k"
    by (simp_all add: rest P_def nth_append)
  have nth0: "rest ! (P + 1) = bf ! 0" using nth [of 0] by simp
  have 1: "\<not> length rest \<le> P" "\<And>k. length rest \<le> P + 1 + k \<longleftrightarrow> length bf \<le> k"
    "\<And>k. length rest < P + 1 + k \<longleftrightarrow> length bf < k"
    by (simp_all add: len)
  show ?thesis
    unfolding decode_create_def name and_then.simps pre [symmetric] P_def [symmetric]
    by (simp only: Let_def 1 at after nth nth0 if_False add.assoc [of P 1 1, symmetric] simp_thms)
qed

lemma length_encode_conditions: "encode_conditions cs = Inr b \<Longrightarrow> 11 * length cs \<le> length b"
  by (induction cs arbitrary: b rule: encode_conditions.induct)
     (fastforce dest: length_encode_string)+

text \<open>What the decoder makes of a tier byte and encoded fields behind an encoded name.\<close>

lemma decode_create_encoded:
  assumes name: "decode_string (bn @ tier # bf) = Inr name" and lb: "length bn = 2 + length name"
    and can: "canonical_request (CreateInterlock name tier wn ww ival conds)"
    and enc: "encode_tier_fields tier wn ww ival conds = Inr bf" and len: "length bf \<le> MAX_MESSAGE_SIZE"
  shows "decode_create data (bn @ tier # bf) = Inr (CreateInterlock name tier wn ww ival conds)"
proof -
  note fields = decode_create_fields [OF name lb refl, of data]
  note can = can [simplified]
  consider "tier = 1" | "tier = 3" | "tier = 4" | "tier \<noteq> 1" "tier \<noteq> 3" "tier \<noteq> 4" by blast
  then show ?thesis
  proof cases
    case 1
    with can obtain n w where wn: "wn = Some n" "utf8_string n" "ww = Some w" "ival = None" "conds = None"
      by auto
    with enc 1 obtain bm where bm: "encode_string n = Inr bm" and bf: "bf = bm @ [w]"
      by (auto simp: encode_tier_fields_def)
    have "decode_string bf = Inr n" unfolding bf by (rule decode_encode_string [OF bm wn(2)])
    moreover have "bf ! (2 + length n) = w" "length bf = 2 + length n + 1"
      using length_encode_string [OF bm] by (simp_all add: bf nth_append)
    ultimately show ?thesis
      unfolding fields wn using 1 by simp
  next
    case 2
    with can obtain v where v: "wn = None" "ww = None" "ival = Some v" "conds = None" by auto
    with enc 2 have "bf = u64_to_le_bytes v" by (simp add: encode_tier_fields_def)
    then show ?thesis unfolding fields v using 2 by simp
  next
    case 3
    with can obtain cs where cs: "wn = None" "ww = None" "ival = None" "conds = Some cs" "wf_conditions cs"
      by auto
    with enc 3 obtain bc where bc: "encode_conditions cs = Inr bc"
      and bf: "bf = u16_to_le_bytes (of_nat (length cs)) @ bc"
      by (auto simp: encode_tier_fields_def)
    let ?c = "u16_to_le_bytes (of_nat (length cs) :: u16)"
    have "length cs \<le> 65535"
      using len length_encode_conditions [OF bc] by (simp add: bf MAX_MESSAGE_SIZE_def)
    then have count: "unat (u16_from_le_bytes [bf ! 0, bf ! 1]) = length cs"
      by (simp add: bf nth_append u16_pair u16_of_nat)
    have "decode_conditions (length cs) (bn @ tier # bf) (length bn + 1 + 2) = Inr cs"
      using decode_encode_conditions [OF bc cs(5), of "bn @ tier # ?c" "length bn + 1 + 2" "[]"]
      by (simp add: bf)
    moreover have "2 \<le> length bf" by (simp add: bf)
    ultimately show ?thesis
      unfolding fields cs count using 3 by simp
  next
    case 4
    with can show ?thesis unfolding fields by simp
  qed
qed

lemma decode_request_payload:
  assumes "canonical_request req" and "request_payload req = Inr p" and "length p \<le> MAX_MESSAGE_SIZE"
  shows "decode_request p = Inr req"
proof (cases req)
  case (AttachInterlock name)
  with assms obtain b where "encode_string name = Inr b"
    and p: "p = [PROTOCOL_VERSION, TAG_ATTACH_INTERLOCK] @ b" by auto
  with assms AttachInterlock have "decode_string b = Inr name"
    using decode_encode_string [of name b "[]"] by simp
  then show ?thesis
    by (simp add: p AttachInterlock decode_request_def Let_def wire_consts)
next
  case (CreateInterlock name tier wn ww ival conds)
  with assms obtain bn bf where bn: "encode_string name = Inr bn"
    and bf: "encode_tier_fields tier wn ww ival conds = Inr bf"
    and p: "p = [PROTOCOL_VERSION, TAG_CREATE_INTERLOCK] @ bn @ [tier] @ bf" by auto
  have "decode_string (bn @ tier # bf) = Inr name"
    using assms(1) bn CreateInterlock by (simp add: decode_encode_string)
  moreover have "length bn = 2 + length name" using bn by (simp add: length_encode_string)
  ultimately have "decode_create p (bn @ tier # bf) = Inr req"
    using decode_create_encoded assms(1,3) bf p unfolding CreateInterlock by simp
  then show ?thesis
    by (simp add: p decode_request_def Let_def wire_consts)
qed

lemma decode_response_payload:
  assumes "wf_response resp" and "response_payload resp = Inr p"
  shows "decode_response p = Inr resp"
proof (cases resp)
  case (Error_Response code m)
  with assms obtain b where b: "encode_string m = Inr b"
    and p: "p = [PROTOCOL_VERSION, TAG_ERROR, code] @ b" by auto
  have "decode_string b = Inr m"
    using decode_encode_string [OF b, of "[]"] assms(1) Error_Response by simp
  moreover have "2 \<le> length b" using length_encode_string [OF b] by simp
  ultimately show ?thesis
    by (auto simp: p Error_Response decode_response_def Let_def wire_consts)
qed (use assms(2) in \<open>auto simp: decode_response_def Let_def wire_consts codec_simps\<close>)

interpretation req_codec: frame_codec request_payload decode_request canonical_request
  by unfold_locales (rule decode_request_payload)

interpretation resp_codec: frame_codec response_payload decode_response wf_response
  by unfold_locales (rule decode_response_payload)

section \<open>What the decoder accepts\<close>

text \<open>
  The fields of each tier: where the decoder accepts the bytes \<open>bf\<close> behind the tier, they start
  with the encoding of the fields it read.
\<close>

lemma counter_fields_Inr:
  assumes "and_then (decode_string bf) (\<lambda>wn.
        if length bf \<le> 2 + length wn then Inl e
        else Inr (CreateInterlock name 1 (Some wn) (Some (bf ! (2 + length wn))) None None)) = Inr req"
  obtains n bm t where "req = CreateInterlock name 1 (Some n) (Some (bf ! (2 + length n))) None None"
    and "utf8_string n" and "encode_string n = Inr bm" and "bf = (bm @ [bf ! (2 + length n)]) @ t"
proof -
  from assms obtain n where n: "decode_string bf = Inr n" "2 + length n < length bf"
    "req = CreateInterlock name 1 (Some n) (Some (bf ! (2 + length n))) None None"
    unfolding and_then_eq_Inr by (metis Inl_Inr_False Inr_inject not_le)
  from decode_string_Inr(2) [OF n(1)] obtain bm where bm: "encode_string n = Inr bm"
    "bf = bm @ drop (2 + length n) bf" by blast
  then have "bf = (bm @ [bf ! (2 + length n)]) @ drop (Suc (2 + length n)) bf"
    using n(2) Cons_nth_drop_Suc [OF n(2)] by simp
  with n(3) decode_string_Inr(1) [OF n(1)] bm(1) show thesis by (rule that)
qed

lemma barrier_fields_Inr:
  assumes rest: "rest = pre @ tier # bf" and two: "2 \<le> length bf"
    and cs: "decode_conditions (unat (u16_from_le_bytes [bf ! 0, bf ! 1])) rest (length pre + 1 + 2) = Inr cs"
  obtains bc t where "wf_conditions cs" and "encode_conditions cs = Inr bc"
    and "bf = (u16_to_le_bytes (of_nat (length cs)) @ bc) @ t"
proof -
  let ?p = "length pre + 1 + 2"
  from decode_conditions_Inr(3) [OF cs] obtain bc where bc: "encode_conditions cs = Inr bc"
    and drop: "drop ?p rest = bc @ drop (?p + length bc) rest" by blast
  have "drop ?p rest = drop 2 bf" by (simp add: rest)
  moreover have "take 2 bf = [bf ! 0, bf ! 1]"
    using two by (intro nth_equalityI) (auto simp: less_Suc_eq numeral_2_eq_2)
  then have "take 2 bf = u16_to_le_bytes (of_nat (length cs))"
    by (simp add: decode_conditions_Inr(1) [OF cs] le16.to_from_le)
  ultimately have "bf = (u16_to_le_bytes (of_nat (length cs)) @ bc) @ drop (?p + length bc) rest"
    using drop by (metis append_take_drop_id append.assoc)
  with decode_conditions_Inr(2) [OF cs] bc show thesis by (rule that)
qed

text \<open>The bytes behind the tier, for every tier.\<close>

lemma tier_fields_Inr:
  assumes name: "decode_string rest = Inr name" and pre: "length pre = 2 + length name"
    and rest: "rest = pre @ tier # bf" and dec: "decode_create data rest = Inr req"
  obtains wn ww ival conds f t where "req = CreateInterlock name tier wn ww ival conds"
    and "canonical_request req" and "encode_tier_fields tier wn ww ival conds = Inr f" and "bf = f @ t"
proof -
  note fields = decode_create_fields [OF name pre rest, of data, unfolded dec, symmetric]
  have utf: "utf8_string name" by (rule decode_string_Inr(1) [OF name])
  consider "tier = 1" | "tier = 3" | "tier = 4" | "tier \<noteq> 1" "tier \<noteq> 3" "tier \<noteq> 4" by blast
  then show thesis
  proof cases
    case 1
    from fields [unfolded 1, simplified simp_thms if_True]
    obtain n bm t where n: "req = CreateInterlock name 1 (Some n) (Some (bf ! (2 + length n))) None None"
      "utf8_string n" "encode_string n = Inr bm" and bf: "bf = (bm @ [bf ! (2 + length n)]) @ t"
      by (rule counter_fields_Inr)
    show thesis
      by (rule that [OF _ _ _ bf, of "Some n" "Some (bf ! (2 + length n))" None None])
         (use utf 1 n in \<open>simp_all add: encode_tier_fields_def\<close>)
  next
    case 2
    with fields have "8 \<le> length bf"
      and req: "req = CreateInterlock name 3 None None (Some (u64_from_le_bytes (take 8 bf))) None"
      by (auto split: if_splits)
    then show thesis
      using utf 2 le64.take_split [of bf]
      by (intro that [of None None "Some (u64_from_le_bytes (take 8 bf))" None
            "u64_to_le_bytes (u64_from_le_bytes (take 8 bf))" "drop 8 bf"])
         (auto simp: encode_tier_fields_def)
  next
    case 3
    from fields [unfolded 3] obtain cs where two: "2 \<le> length bf"
      and cs: "decode_conditions (unat (u16_from_le_bytes [bf ! 0, bf ! 1])) rest (length pre + 1 + 2) = Inr cs"
      and req: "req = CreateInterlock name 4 None None None (Some cs)"
      by (cases "length bf < 2") auto
    from barrier_fields_Inr [OF rest two cs] obtain bc t where
      bc: "wf_conditions cs" "encode_conditions cs = Inr bc"
      and bf: "bf = (u16_to_le_bytes (of_nat (length cs)) @ bc) @ t" .
    show thesis
      by (rule that [OF _ _ _ bf, of None None None "Some cs"])
         (use utf 3 req bc in \<open>simp_all add: encode_tier_fields_def\<close>)
  next
    case 4
    with fields have "req = CreateInterlock name tier None None None None" by simp
    with utf 4 show thesis by (intro that) (auto simp: encode_tier_fields_def)
  qed
qed

lemma decode_create_Inr:
  assumes "decode_create data rest = Inr req"
  shows "canonical_request req \<and>
    (\<exists>p. request_payload req = Inr ([PROTOCOL_VERSION, TAG_CREATE_INTERLOCK] @ p) \<and>
      rest = p @ drop (length p) rest)"
proof -
  from assms obtain name where name: "decode_string rest = Inr name"
    and pos: "2 + length name < length rest"
    by (auto simp: decode_create_def Let_def split: if_splits)
  from decode_string_Inr(2) [OF name] obtain bn where bn: "encode_string name = Inr bn"
    and split: "rest = bn @ drop (2 + length name) rest" by blast
  have lb: "length bn = 2 + length name" using bn by (simp add: length_encode_string)
  obtain tier bf where tail: "drop (2 + length name) rest = tier # bf"
    using pos by (metis Cons_nth_drop_Suc)
  then have rest: "rest = bn @ tier # bf" using split by simp
  from tier_fields_Inr [OF name lb rest assms] obtain wn ww ival conds f t where
    req: "req = CreateInterlock name tier wn ww ival conds" and can: "canonical_request req"
    and enc: "encode_tier_fields tier wn ww ival conds = Inr f" and bf: "bf = f @ t" .
  show ?thesis
    using can bn enc by (auto simp: req rest bf intro!: exI [of _ "bn @ tier # f"])
qed

lemma decode_request_Inr:
  assumes "decode_request data = Inr req"
  shows "canonical_request req \<and> (\<exists>p t. request_payload req = Inr p \<and> data = p @ t)"
proof -
  from assms have len: "2 \<le> length data" and v: "data ! 0 = PROTOCOL_VERSION"
    by (auto simp: decode_request_def split: if_splits)
  have data: "data = data ! 0 # data ! 1 # drop 2 data"
    using len by (cases data; cases "tl data") auto
  consider "data ! 1 = TAG_CREATE_INTERLOCK" "decode_create data (drop 2 data) = Inr req"
    | name where "data ! 1 = TAG_ATTACH_INTERLOCK" "decode_string (drop 2 data) = Inr name"
        "req = AttachInterlock name"
    using assms by (auto simp: decode_request_def Let_def split: if_splits)
  then show ?thesis
  proof cases
    case 1
    from decode_create_Inr [OF 1(2)] obtain p where can: "canonical_request req"
      and p: "request_payload req = Inr ([PROTOCOL_VERSION, TAG_CREATE_INTERLOCK] @ p)"
      and rest: "drop 2 data = p @ drop (length p) (drop 2 data)" by blast
    have "data = ([PROTOCOL_VERSION, TAG_CREATE_INTERLOCK] @ p) @ drop (length p) (drop 2 data)"
      using data v 1(1) rest by (metis append_Cons append_Nil)
    with can p show ?thesis by blast
  next
    case 2
    from decode_string_Inr [OF 2(2)] obtain b where utf: "utf8_string name"
      and b: "encode_string name = Inr b" "drop 2 data = b @ drop (2 + length name) (drop 2 data)"
      by blast
    have "data = ([PROTOCOL_VERSION, TAG_ATTACH_INTERLOCK] @ b) @ drop (2 + length name) (drop 2 data)"
      using data v 2(1) b(2) by (metis append_Cons append_Nil)
    with utf b 2(3) show ?thesis by (intro conjI exI) auto
  qed
qed

text \<open>
  What a decoder can answer: a fault of the payload, in which a truncation always misses at
  least one byte.  The limits of a frame are not its business.
\<close>

fun decoder_fault :: "protocol_fault \<Rightarrow> bool" where
  "decoder_fault (Truncated n h) \<longleftrightarrow> h < n"
| "decoder_fault (FrameTooLarge l m) \<longleftrightarrow> False"
| "decoder_fault _ \<longleftrightarrow> True"

lemma decode_string_fault: "decode_string data = Inl e \<Longrightarrow> decoder_fault e"
  by (auto simp: decode_string_def Let_def split: if_splits)

lemma decode_conditions_fault: "decode_conditions n rest pos = Inl e \<Longrightarrow> decoder_fault e"
proof (induction n rest pos rule: decode_conditions.induct)
  case (2 n rest pos)
  show ?case
  proof (cases "decode_string (drop pos rest)")
    case (Inl f)
    with 2 show ?thesis using decode_string_fault by simp
  next
    case (Inr wn)
    then show ?thesis
      using 2 by (auto simp: Let_def and_then_eq_Inl split: if_splits)
  qed
qed simp

lemma decode_create_fault: "decode_create data rest = Inl e \<Longrightarrow> decoder_fault e"
  by (auto simp: decode_create_def Let_def and_then_eq_Inl
      dest: decode_string_fault decode_conditions_fault split: if_splits)

lemma decode_request_fault: "decode_request data = Inl e \<Longrightarrow> decoder_fault e"
  by (auto simp: decode_request_def Let_def and_then_eq_Inl
      dest: decode_string_fault decode_create_fault split: if_splits)

section \<open>Properties\<close>

text \<open>
  C16: Messages survive the wire.  For every request whose strings are UTF-8 and that carries
  exactly the fields of its tier, whenever \<open>encode_request\<close> produces a frame, the length
  prefix of that frame is the length of its payload, the payload fits \<open>MAX_MESSAGE_SIZE\<close>,
  and \<open>decode_request\<close> on the payload returns the same request; the same holds of responses.
\<close>

theorem messages_round_trip:
  assumes "canonical_request req" and "encode_request req = Inr f"
    and "wf_response resp" and "encode_response resp = Inr g"
  shows "decode_request (drop LENGTH_PREFIX_BYTES f) = Inr req \<and>
    unat (u32_from_le_bytes (take LENGTH_PREFIX_BYTES f)) = length (drop LENGTH_PREFIX_BYTES f) \<and>
    length (drop LENGTH_PREFIX_BYTES f) \<le> MAX_MESSAGE_SIZE \<and>
    decode_response (drop LENGTH_PREFIX_BYTES g) = Inr resp \<and>
    unat (u32_from_le_bytes (take LENGTH_PREFIX_BYTES g)) = length (drop LENGTH_PREFIX_BYTES g) \<and>
    length (drop LENGTH_PREFIX_BYTES g) \<le> MAX_MESSAGE_SIZE"
  using req_codec.decode_frame [OF assms(1)] resp_codec.decode_frame [OF assms(3)] assms(2,4)
  by (simp add: encode_request_def encode_response_def)

text \<open>
  C28: The decoder accepts nothing but encodings.  A payload that \<open>decode_request\<close> accepts
  yields a request with valid strings and exactly its tier's fields, and starts with the
  encoding of that request; a rejected one is answered with a fault of the payload, where a
  truncation names more bytes than there are.
\<close>

theorem decode_request_sound:
  "(case decode_request data of
      Inl e \<Rightarrow> decoder_fault e
    | Inr req \<Rightarrow> canonical_request req \<and> (\<exists>p t. request_payload req = Inr p \<and> data = p @ t))"
proof (cases "decode_request data")
  case (Inl e)
  with decode_request_fault [OF Inl] show ?thesis by simp
next
  case (Inr req)
  with decode_request_Inr [OF Inr] show ?thesis by simp
qed

text \<open>
  A stream of requests parses in one way only: two frames of well-formed requests that
  start the same stream are the same request, and leave the same rest.
\<close>

lemma request_stream_unique:
  assumes "canonical_request req" and "canonical_request req'"
    and "encode_request req = Inr f" and "encode_request req' = Inr f'" and "f @ x = f' @ x'"
  shows "req = req' \<and> x = x'"
  using req_codec.frame_self_delimiting [OF assms(1,2) _ _ assms(5)] assms(3,4)
  by (simp add: encode_request_def)

section \<open>Witnesses\<close>

definition sample_request :: request where
  "sample_request = CreateInterlock ''gate'' 4 None None None (Some [(''a'', 1, 7), (''clock'', 0, 9)])"

lemma sample_request_frame:
  "canonical_request sample_request \<and> (\<exists>f. encode_request sample_request = Inr f)"
  by (simp add: sample_request_def encode_request_def encode_tier_fields_def wf_conditions_def
      encode_string_def Let_def frame_of_def MAX_MESSAGE_SIZE_def utf8_string_ascii)

lemma messages_round_trip_witness:
  "\<exists>f g. encode_request sample_request = Inr f \<and>
     decode_request (drop LENGTH_PREFIX_BYTES f) = Inr sample_request \<and>
     encode_response (resp_interlock_not_found ''a'') = Inr g \<and>
     decode_response (drop LENGTH_PREFIX_BYTES g) = Inr (resp_interlock_not_found ''a'')"
proof -
  let ?r = "resp_interlock_not_found ''a''"
  from sample_request_frame obtain f where f: "canonical_request sample_request"
    "encode_request sample_request = Inr f" by blast
  have "wf_response ?r" by (simp add: resp_interlock_not_found_def utf8_string_ascii)
  moreover obtain g where "encode_response ?r = Inr g"
    by (simp add: resp_interlock_not_found_def encode_response_def encode_string_def Let_def
        frame_of_def MAX_MESSAGE_SIZE_def)
  ultimately show ?thesis using messages_round_trip [OF f, of ?r g] f(2) by blast
qed

end
