(* ===== verification/Transport.thy ===== *)
theory Transport
  imports Wire
begin

text \<open>
  \<open>abacus-daemon/src/transport.rs\<close>: frames over a Unix stream socket, with file descriptors
  passed beside them, and the take-over of the socket path.

  The socket is a script of what the kernel does: the successive things that arrive, the
  successive replies to writes.  A call that finds its script at an end waits for ever, and the
  operation it belongs to is \<^const>\<open>None\<close>.  Descriptors are 32-bit values, as in the control
  messages that carry them.  Error numbers are Linux's.
\<close>

definition EINTR :: errno where "EINTR = 4"
definition EINVAL :: errno where "EINVAL = 22"
definition EPIPE :: errno where "EPIPE = 32"
definition ECONNRESET :: errno where "ECONNRESET = 104"
definition EAGAIN :: errno where "EAGAIN = 11"

definition MAX_FDS_PER_MESSAGE :: usize where "MAX_FDS_PER_MESSAGE = 1"

type_synonym fd = u32

section \<open>Sockets\<close>

text \<open>
  \<open>Bytes []\<close> is the end of the stream.  \<open>Wrote n\<close> accepts at most \<open>n\<close> bytes.
\<close>

datatype arrival = Bytes "u8 list" | Read_Failed errno

datatype write_reply = Wrote nat | Write_Failed errno

text \<open>The kinds of \<open>std::io::Error\<close> the code tells apart.\<close>

definition is_interrupted :: "errno \<Rightarrow> bool" where "is_interrupted e \<longleftrightarrow> e = EINTR"

definition is_would_block :: "errno \<Rightarrow> bool" where "is_would_block e \<longleftrightarrow> e = EAGAIN"

fun stream_read :: "nat \<Rightarrow> arrival list \<Rightarrow> ((errno + u8 list) \<times> arrival list) option" where
  "stream_read n [] = None"
| "stream_read n (Bytes bs # evs) =
     Some (if n < length bs then (Inr (take n bs), Bytes (drop n bs) # evs) else (Inr bs, evs))"
| "stream_read n (Read_Failed e # evs) = Some (Inl e, evs)"

record connection =
  incoming :: "arrival list"
  replies :: "write_reply list"
  sent :: "u8 list"
  sent_fds :: "fd list"

section \<open>Reading\<close>

fun arrival_weight :: "arrival \<Rightarrow> nat" where
  "arrival_weight (Bytes bs) = Suc (length bs)"
| "arrival_weight (Read_Failed e) = 1"

definition weight :: "arrival list \<Rightarrow> nat" where
  "weight evs = sum_list (map arrival_weight evs)"

lemma weight_simps [simp]:
  "weight [] = 0" "weight (e # evs) = arrival_weight e + weight evs"
  by (simp_all add: weight_def)

lemma stream_read_weight:
  "stream_read n evs = Some (r, evs') \<Longrightarrow> 0 < n \<Longrightarrow> weight evs' < weight evs"
  by (induction n evs rule: stream_read.induct) (auto split: if_splits)

text \<open>
  The loop of \<open>read_exact_retrying\<close>; \<open>buf\<close> is the filled part of the buffer, \<open>n\<close> its
  size.
\<close>

function read_loop ::
    "bool \<Rightarrow> nat \<Rightarrow> u8 list \<Rightarrow> arrival list \<Rightarrow> ((transport_error + u8 list) \<times> arrival list) option" where
  "read_loop is_frame_start n buf evs =
     (if n \<le> length buf then Some (Inr buf, evs)
      else case stream_read (n - length buf) evs of
        None \<Rightarrow> None
      | Some (r, evs') \<Rightarrow>
         (case r of
            Inr bs \<Rightarrow>
              (if bs = [] then
                 (if buf = [] \<and> is_frame_start then Some (Inl ConnectionClosed, evs')
                  else Some (Inl (Protocol (Truncated n (length buf))), evs'))
               else read_loop is_frame_start n (buf @ bs) evs')
          | Inl e \<Rightarrow>
              (if is_interrupted e then read_loop is_frame_start n buf evs'
               else if is_would_block e then
                 (if buf = [] \<and> is_frame_start then Some (Inl WouldBlock, evs')
                  else read_loop is_frame_start n buf evs')
               else Some (Inl (Io Read e), evs'))))"
  by auto
termination
  by (relation "measure (\<lambda>(_, _, _, evs). weight evs)") (auto dest: stream_read_weight)

declare read_loop.simps [simp del]

definition read_exact_retrying ::
    "nat \<Rightarrow> bool \<Rightarrow> arrival list \<Rightarrow> ((transport_error + u8 list) \<times> arrival list) option" where
  "read_exact_retrying n is_frame_start evs = read_loop is_frame_start n [] evs"

text \<open>\<open>?\<close> on an operation that reads.\<close>

fun io_then ::
    "((transport_error + 'a) \<times> arrival list) option \<Rightarrow>
     ('a \<Rightarrow> arrival list \<Rightarrow> ((transport_error + 'b) \<times> arrival list) option) \<Rightarrow>
     ((transport_error + 'b) \<times> arrival list) option" where
  "io_then None k = None"
| "io_then (Some (Inl e, evs)) k = Some (Inl e, evs)"
| "io_then (Some (Inr x, evs)) k = k x evs"

definition read_frame_prefix :: "arrival list \<Rightarrow> ((transport_error + usize) \<times> arrival list) option" where
  "read_frame_prefix evs =
     io_then (read_exact_retrying LENGTH_PREFIX_BYTES True evs) (\<lambda>prefix evs.
     let len = unat (u32_from_le_bytes prefix) in
     if MAX_MESSAGE_SIZE < len then Some (Inl (Protocol (FrameTooLarge len MAX_MESSAGE_SIZE)), evs)
     else Some (Inr len, evs))"

definition read_frame_payload ::
    "usize \<Rightarrow> arrival list \<Rightarrow> ((transport_error + u8 list) \<times> arrival list) option" where
  "read_frame_payload n evs = read_exact_retrying n False evs"

definition recv_request :: "arrival list \<Rightarrow> ((transport_error + request) \<times> arrival list) option" where
  "recv_request evs =
     io_then (read_frame_prefix evs) (\<lambda>payload_len evs.
     io_then (read_frame_payload payload_len evs) (\<lambda>payload evs.
     Some (map_err Protocol (decode_request payload), evs)))"

section \<open>Writing\<close>

text \<open>The replies left, the bytes the kernel accepted, and the result.\<close>

fun write_all_retrying ::
    "u8 list \<Rightarrow> write_reply list \<Rightarrow> ((transport_error + unit) \<times> u8 list \<times> write_reply list) option" where
  "write_all_retrying buf [] = (if buf = [] then Some (Inr (), [], []) else None)"
| "write_all_retrying buf (reply # rs) =
     (if buf = [] then Some (Inr (), [], reply # rs)
      else case reply of
        Wrote n \<Rightarrow>
          (if n = 0 then Some (Inl (Io Write EPIPE), [], rs)
           else map_option (\<lambda>(r, out, rs'). (r, take n buf @ out, rs'))
                  (write_all_retrying (drop n buf) rs))
      | Write_Failed e \<Rightarrow>
          (if is_interrupted e then write_all_retrying buf rs else Some (Inl (Io Write e), [], rs)))"

section \<open>Control messages\<close>

text \<open>Sizes on a 64-bit Linux target.\<close>

definition sizeof_cmsghdr :: usize where "sizeof_cmsghdr = 16"
definition sizeof_usize :: usize where "sizeof_usize = 8"
definition sizeof_RawFd :: usize where "sizeof_RawFd = 4"

definition cmsg_align :: "usize \<Rightarrow> usize" where
  "cmsg_align n = (n + sizeof_usize - 1) div sizeof_usize * sizeof_usize"

definition cmsg_space_for_fds :: "usize \<Rightarrow> usize" where
  "cmsg_space_for_fds n = cmsg_align sizeof_cmsghdr + cmsg_align (n * sizeof_RawFd)"

definition CMSG_SPACE :: "usize \<Rightarrow> usize" where
  "CMSG_SPACE n = cmsg_align n + cmsg_align sizeof_cmsghdr"

definition SOL_SOCKET :: int where "SOL_SOCKET = 1"
definition SCM_RIGHTS :: int where "SCM_RIGHTS = 1"

record cmsg =
  cmsg_level :: int
  cmsg_type :: int
  cmsg_data :: "u8 list"

definition fds_cmsg :: "fd list \<Rightarrow> cmsg" where
  "fds_cmsg fds = \<lparr>cmsg_level = SOL_SOCKET, cmsg_type = SCM_RIGHTS, cmsg_data = concat (map u32_to_le_bytes fds)\<rparr>"

definition data_fds :: "u8 list \<Rightarrow> fd list" where
  "data_fds data =
     map (\<lambda>i. u32_from_le_bytes (take sizeof_RawFd (drop (i * sizeof_RawFd) data)))
       [0..<length data div sizeof_RawFd]"

fun extract_fds_from_cmsg :: "cmsg list \<Rightarrow> fd list" where
  "extract_fds_from_cmsg [] = []"
| "extract_fds_from_cmsg (c # cs) =
     (if cmsg_level c = SOL_SOCKET \<and> cmsg_type c = SCM_RIGHTS then data_fds (cmsg_data c) else [])
     @ extract_fds_from_cmsg cs"

section \<open>Sending with descriptors\<close>

fun sendmsg_retry ::
    "u8 list \<Rightarrow> write_reply list \<Rightarrow> ((transport_error + nat) \<times> write_reply list) option" where
  "sendmsg_retry frame [] = None"
| "sendmsg_retry frame (Write_Failed e # rs) =
     (if e = EINTR then sendmsg_retry frame rs else Some (Inl (Io SendMsg e), rs))"
| "sendmsg_retry frame (Wrote n # rs) = Some (Inr (min n (length frame)), rs)"

text \<open>
  The descriptors travel with the bytes of the \<open>sendmsg\<close>.  \<open>CMSG_FIRSTHDR\<close> is null when
  the control buffer cannot hold a header.
\<close>

definition sendmsg_with_fds ::
    "u8 list \<Rightarrow> fd list \<Rightarrow> connection \<Rightarrow> ((transport_error + unit) \<times> connection) option" where
  "sendmsg_with_fds frame fds c =
     (if MAX_FDS_PER_MESSAGE < length fds
      then Some (Inl (Protocol (FrameTooLarge (length fds) MAX_FDS_PER_MESSAGE)), c)
      else let fd_bytes = length fds * sizeof_RawFd; controllen = CMSG_SPACE fd_bytes in
      if controllen < sizeof_cmsghdr then Some (Inl (Io SendMsg EINVAL), c)
      else case sendmsg_retry frame (replies c) of
        None \<Rightarrow> None
      | Some (Inl e, rs) \<Rightarrow> Some (Inl e, c\<lparr>replies := rs\<rparr>)
      | Some (Inr n, rs) \<Rightarrow>
          (let c1 = c\<lparr>replies := rs, sent := sent c @ take n frame, sent_fds := sent_fds c @ fds\<rparr> in
           if n < length frame then
             map_option (\<lambda>(r, out, rs'). (r, c1\<lparr>replies := rs', sent := sent c1 @ out\<rparr>))
               (write_all_retrying (drop n frame) rs)
           else Some (Inr (), c1)))"

definition send_response :: "response \<Rightarrow> connection \<Rightarrow> ((transport_error + unit) \<times> connection) option" where
  "send_response resp c =
     (case encode_response resp of
        Inl f \<Rightarrow> Some (Inl (Protocol f), c)
      | Inr frame \<Rightarrow>
          map_option (\<lambda>(r, out, rs). (r, c\<lparr>replies := rs, sent := sent c @ out\<rparr>))
            (write_all_retrying frame (replies c)))"

definition send_response_with_fds ::
    "response \<Rightarrow> fd list \<Rightarrow> connection \<Rightarrow> ((transport_error + unit) \<times> connection) option" where
  "send_response_with_fds resp fds c =
     (case encode_response resp of
        Inl f \<Rightarrow> Some (Inl (Protocol f), c)
      | Inr frame \<Rightarrow> sendmsg_with_fds frame fds c)"

text \<open>
  A kernel that answers the writes of any one frame: it accepts as many bytes as a frame can have,
  in however many parts, or fails with something else than an interruption.
\<close>

fun accepted :: "write_reply \<Rightarrow> nat" where
  "accepted (Wrote n) = n"
| "accepted (Write_Failed e) = 0"

definition socket_answers :: "write_reply list \<Rightarrow> bool" where
  "socket_answers rs \<longleftrightarrow>
     LENGTH_PREFIX_BYTES + MAX_MESSAGE_SIZE \<le> sum_list (map accepted rs) \<or>
     (\<exists>e. Write_Failed e \<in> set rs \<and> e \<noteq> EINTR)"

section \<open>Receiving a response\<close>

text \<open>
  What a \<open>recvmsg\<close> into a buffer of four bytes returns: at most four bytes, the control
  messages, and whether they were truncated.
\<close>

datatype msg_arrival = Msg "u8 list" "cmsg list" bool | Msg_Failed errno

fun recvmsg_retry :: "msg_arrival list \<Rightarrow> (transport_error + u8 list \<times> cmsg list \<times> bool) option" where
  "recvmsg_retry [] = None"
| "recvmsg_retry (Msg bs cs trunc # ms) = Some (Inr (bs, cs, trunc))"
| "recvmsg_retry (Msg_Failed e # ms) =
     (if e = EINTR then recvmsg_retry ms else Some (Inl (Io RecvMsg e)))"

definition recvmsg_prefix_with_fds ::
    "msg_arrival list \<Rightarrow> arrival list \<Rightarrow> ((transport_error + u8 list \<times> fd list) \<times> arrival list) option" where
  "recvmsg_prefix_with_fds ms evs =
     (case recvmsg_retry ms of
        None \<Rightarrow> None
      | Some (Inl e) \<Rightarrow> Some (Inl e, evs)
      | Some (Inr (bs, cs, trunc)) \<Rightarrow>
          (if bs = [] then Some (Inl ConnectionClosed, evs)
           else let fds = extract_fds_from_cmsg cs in
           if trunc then Some (Inl (Protocol (Truncated MAX_FDS_PER_MESSAGE (length fds))), evs)
           else if length bs < LENGTH_PREFIX_BYTES then
             io_then (read_exact_retrying (LENGTH_PREFIX_BYTES - length bs) False evs)
               (\<lambda>more evs. Some (Inr (bs @ more, fds), evs))
           else Some (Inr (bs, fds), evs)))"

definition recv_response ::
    "msg_arrival list \<Rightarrow> arrival list \<Rightarrow> ((transport_error + response \<times> fd list) \<times> arrival list) option" where
  "recv_response ms evs =
     io_then (recvmsg_prefix_with_fds ms evs) (\<lambda>(prefix, fds) evs.
     let payload_len = unat (u32_from_le_bytes prefix) in
     if MAX_MESSAGE_SIZE < payload_len
     then Some (Inl (Protocol (FrameTooLarge payload_len MAX_MESSAGE_SIZE)), evs)
     else io_then (read_frame_payload payload_len evs) (\<lambda>payload evs.
     case decode_response payload of
       Inl f \<Rightarrow> Some (Inl (Protocol f), evs)
     | Inr resp \<Rightarrow>
         (let needed = expected_fd_count resp in
          if length fds \<noteq> needed then Some (Inl (Protocol (Truncated needed (length fds))), evs)
          else Some (Inr (resp, fds), evs))))"

section \<open>The socket path\<close>

text \<open>What the file system answers, and what is done to the path, in order.\<close>

record path_replies =
  path_exists :: bool
  metadata :: "errno + bool"
  probe_connects :: bool
  bind_reply :: "errno + unit"
  nonblocking_reply :: "errno + unit"
  listen_rc :: int
  listen_errno :: errno

datatype path_action = Remove_File | Bind_Path | Listen_On

definition is_socket_file :: "path_replies \<Rightarrow> transport_error + bool" where
  "is_socket_file k = map_err (Io Stat) (metadata k)"

definition remove_stale :: "string \<Rightarrow> path_replies \<Rightarrow> (transport_error + unit) \<times> path_action list" where
  "remove_stale path k =
     (if \<not> path_exists k then (Inr (), [])
      else case is_socket_file k of
        Inl e \<Rightarrow> (Inl e, [])
      | Inr is_socket \<Rightarrow>
          (if is_socket then
             (if probe_connects k then (Inl (SocketPathOccupied path True), [])
              else (Inr (), [Remove_File]))
           else (Inl (SocketPathOccupied path False), [])))"

definition server_create :: "string \<Rightarrow> path_replies \<Rightarrow> (transport_error + string) \<times> path_action list" where
  "server_create path k =
     (case remove_stale path k of
        (Inl e, acts) \<Rightarrow> (Inl e, acts)
      | (Inr _, acts) \<Rightarrow>
          (case bind_reply k of
             Inl e \<Rightarrow> (Inl (Io Bind e), acts)
           | Inr _ \<Rightarrow>
               (case nonblocking_reply k of
                  Inl e \<Rightarrow> (Inl (Io SetNonBlocking e), acts @ [Bind_Path])
                | Inr _ \<Rightarrow>
                    (if listen_rc k \<noteq> 0
                     then (Inl (Io Listen (listen_errno k)), acts @ [Bind_Path, Remove_File])
                     else (Inr path, acts @ [Bind_Path, Listen_On])))))"

datatype accept_reply = Accepted connection | Accept_Would_Block | Accept_Failed errno

fun try_accept :: "accept_reply \<Rightarrow> transport_error + connection option" where
  "try_accept (Accepted c) = Inr (Some c)"
| "try_accept Accept_Would_Block = Inr None"
| "try_accept (Accept_Failed e) = Inl (Io Accept e)"

definition connection_connect :: "errno + connection \<Rightarrow> transport_error + connection" where
  "connection_connect reply = map_err (Io Connect) reply"

definition set_nonblocking :: "errno + unit \<Rightarrow> transport_error + unit" where
  "set_nonblocking reply = map_err (Io SetNonBlocking) reply"

definition set_timeouts :: "errno + unit \<Rightarrow> errno + unit \<Rightarrow> transport_error + unit" where
  "set_timeouts read_reply write_reply =
     and_then (map_err (Io Read) read_reply) (\<lambda>_. map_err (Io Write) write_reply)"

section \<open>What has arrived\<close>

fun arrived :: "arrival list \<Rightarrow> u8 list" where
  "arrived [] = []"
| "arrived (Bytes bs # evs) = bs @ arrived evs"
| "arrived (Read_Failed e # evs) = arrived evs"

text \<open>
  A stream that neither ends nor fails: data in any pieces, with interruptions and empty polls
  between them; and one whose next data is there before a poll comes up empty.
\<close>

definition quiet :: "arrival list \<Rightarrow> bool" where
  "quiet evs \<longleftrightarrow> list_all (\<lambda>e. case e of Bytes bs \<Rightarrow> bs \<noteq> [] | Read_Failed e \<Rightarrow> e = EINTR \<or> e = EAGAIN) evs"

fun ready :: "arrival list \<Rightarrow> bool" where
  "ready [] \<longleftrightarrow> False"
| "ready (Bytes bs # evs) \<longleftrightarrow> bs \<noteq> []"
| "ready (Read_Failed e # evs) \<longleftrightarrow> e = EINTR \<and> ready evs"

lemma quiet_simps [simp]:
  "quiet []" "quiet (Bytes bs # evs) \<longleftrightarrow> bs \<noteq> [] \<and> quiet evs"
  "quiet (Read_Failed e # evs) \<longleftrightarrow> (e = EINTR \<or> e = EAGAIN) \<and> quiet evs"
  by (simp_all add: quiet_def)

lemma errno_distinct [simp]: "EAGAIN \<noteq> EINTR" "EINTR \<noteq> EAGAIN"
  by (simp_all add: EINTR_def EAGAIN_def)

lemma error_kinds [simp]:
  "is_interrupted EINTR" "\<not> is_interrupted EAGAIN" "is_would_block EAGAIN" "\<not> is_would_block EINTR"
  by (simp_all add: is_interrupted_def is_would_block_def EINTR_def EAGAIN_def)

lemma stream_read_arrived:
  "stream_read n evs = Some (Inr bs, evs') \<Longrightarrow> arrived evs = bs @ arrived evs' \<and> length bs \<le> n"
  "stream_read n evs = Some (Inl e, evs') \<Longrightarrow> arrived evs = arrived evs'"
  by (induction n evs rule: stream_read.induct) (auto split: if_splits)

lemma stream_read_quiet:
  "stream_read n evs = Some (r, evs') \<Longrightarrow> 0 < n \<Longrightarrow> quiet evs \<Longrightarrow>
     quiet evs' \<and> (case r of Inr bs \<Rightarrow> bs \<noteq> [] | Inl e \<Rightarrow> e = EINTR \<or> e = EAGAIN)"
  by (induction n evs rule: stream_read.induct) (auto split: if_splits)

lemma stream_read_ready:
  "stream_read n evs = Some (Inl e, evs') \<Longrightarrow> ready evs \<Longrightarrow> e = EINTR \<and> ready evs'"
  by (induction n evs rule: stream_read.induct) (auto split: if_splits)

lemma stream_read_None: "stream_read n evs = None \<longleftrightarrow> evs = []"
  by (induction n evs rule: stream_read.induct) auto

section \<open>Reading loses nothing\<close>

text \<open>An error number that a read gives up on.\<close>

definition read_error :: "errno \<Rightarrow> bool" where
  "read_error e \<longleftrightarrow> \<not> is_interrupted e \<and> \<not> is_would_block e"

text \<open>
  What a read into a buffer of \<open>n\<close> bytes says of the bytes \<open>c\<close> it has filled it with.
\<close>

definition read_outcome :: "bool \<Rightarrow> nat \<Rightarrow> u8 list \<Rightarrow> transport_error + u8 list \<Rightarrow> bool" where
  "read_outcome start n c r \<longleftrightarrow>
     (case r of
        Inr b \<Rightarrow> b = c \<and> length c = n
      | Inl e \<Rightarrow> length c < n \<and>
          (start \<and> c = [] \<and> (e = WouldBlock \<or> e = ConnectionClosed) \<or>
           \<not> (start \<and> c = []) \<and> e = Protocol (Truncated n (length c)) \<or>
           (\<exists>k. read_error k \<and> e = Io Read k)))"

lemma read_loop_conserves:
  "read_loop start n buf evs = Some (r, evs') \<Longrightarrow> length buf \<le> n \<Longrightarrow>
     \<exists>c. arrived evs = c @ arrived evs' \<and> read_outcome start n (buf @ c) r"
proof (induction start n buf evs arbitrary: r evs' rule: read_loop.induct)
  case (1 start n buf evs)
  show ?case
  proof (cases "n \<le> length buf")
    case True
    with "1.prems" show ?thesis by (auto simp: read_loop.simps [of start n buf evs] read_outcome_def)
  next
    case False
    with "1.prems"(1) obtain a t where a: "stream_read (n - length buf) evs = Some (a, t)"
      by (auto simp: read_loop.simps [of start n buf evs] split: option.splits)
    note step = read_loop.simps [of start n buf evs]
    show ?thesis
    proof (cases a)
      case (Inl e)
      have arr: "arrived evs = arrived t" using stream_read_arrived(2) a Inl by blast
      consider "read_loop start n buf t = Some (r, evs')"
          "is_interrupted e \<or> is_would_block e \<and> \<not> (buf = [] \<and> start)"
        | "r = Inl WouldBlock" "evs' = t" "buf = []" "start" | "r = Inl (Io Read e)" "evs' = t" "read_error e"
        using "1.prems"(1) a Inl False by (auto simp: step read_error_def split: if_splits)
      then show ?thesis
      proof cases
        case 1
        then show ?thesis
          using "1.IH"(1,2) [OF False a refl Inl] "1.prems"(2) arr by (cases "is_interrupted e") auto
      qed (use False in \<open>auto simp: arr read_outcome_def\<close>)
    next
      case (Inr bs)
      have arr: "arrived evs = bs @ arrived t" "length bs \<le> n - length buf"
        using stream_read_arrived(1) a Inr by blast+
      show ?thesis
      proof (cases "bs = []")
        case True
        with "1.prems"(1) a Inr False arr show ?thesis by (auto simp: step read_outcome_def split: if_splits)
      next
        case bs: False
        with "1.prems"(1) a Inr False have "read_loop start n (buf @ bs) t = Some (r, evs')"
          by (simp add: step)
        moreover have "length (buf @ bs) \<le> n" using arr(2) False by simp
        ultimately obtain c where "arrived t = c @ arrived evs'" "read_outcome start n ((buf @ bs) @ c) r"
          using "1.IH"(3) [OF False a refl Inr bs] by blast
        with arr show ?thesis by (intro exI [of _ "bs @ c"]) simp
      qed
    qed
  qed
qed

lemma read_loop_quiet:
  "quiet evs \<Longrightarrow> n \<le> length buf + length (arrived evs) \<Longrightarrow> length buf \<le> n \<Longrightarrow>
     (start \<Longrightarrow> buf = [] \<Longrightarrow> ready evs) \<Longrightarrow>
     \<exists>evs'. read_loop start n buf evs = Some (Inr (take n (buf @ arrived evs)), evs') \<and>
       arrived evs' = drop (n - length buf) (arrived evs) \<and> quiet evs'"
proof (induction start n buf evs rule: read_loop.induct)
  case (1 start n buf evs)
  note step = read_loop.simps [of start n buf evs]
  show ?case
  proof (cases "n \<le> length buf")
    case True
    with "1.prems" show ?thesis by (auto simp: step)
  next
    case False
    with "1.prems"(2) have "evs \<noteq> []" by auto
    then obtain a t where a: "stream_read (n - length buf) evs = Some (a, t)"
      using stream_read_None [of "n - length buf" evs] by (cases "stream_read (n - length buf) evs") auto
    have q: "quiet t" "case a of Inr bs \<Rightarrow> bs \<noteq> [] | Inl e \<Rightarrow> e = EINTR \<or> e = EAGAIN"
      using stream_read_quiet [OF a _ "1.prems"(1)] False by auto
    show ?thesis
    proof (cases a)
      case (Inl e)
      have arr: "arrived evs = arrived t" using stream_read_arrived(2) a Inl by blast
      have ready: "start \<and> buf = [] \<longrightarrow> e = EINTR \<and> ready t"
        using stream_read_ready a Inl "1.prems"(4) by blast
      have "read_loop start n buf evs = read_loop start n buf t"
        using a Inl False q ready by (auto simp: step)
      moreover have "\<exists>evs'. read_loop start n buf t = Some (Inr (take n (buf @ arrived t)), evs') \<and>
          arrived evs' = drop (n - length buf) (arrived t) \<and> quiet evs'"
      proof (cases "e = EINTR")
        case True
        with "1.IH"(1) [OF False a refl Inl] q(1) ready "1.prems"(2,3) arr show ?thesis by auto
      next
        case neq: False
        with q(2) Inl have "e = EAGAIN" by simp
        with neq "1.IH"(2) [OF False a refl Inl] q(1) ready "1.prems"(2,3) arr show ?thesis by auto
      qed
      ultimately show ?thesis by (simp add: arr)
    next
      case (Inr bs)
      have arr: "arrived evs = bs @ arrived t" "length bs \<le> n - length buf"
        using stream_read_arrived(1) a Inr by blast+
      have bs: "bs \<noteq> []" using q(2) Inr by simp
      have "read_loop start n buf evs = read_loop start n (buf @ bs) t"
        using a Inr False bs by (simp add: step)
      with "1.IH"(3) [OF False a refl Inr bs q(1)] arr "1.prems"(2) bs False show ?thesis
        by auto
    qed
  qed
qed

section \<open>Frames\<close>

text \<open>The two reads of a frame, which both receivers make.\<close>

definition recv_payload :: "arrival list \<Rightarrow> ((transport_error + u8 list) \<times> arrival list) option" where
  "recv_payload evs = io_then (read_frame_prefix evs) (\<lambda>n evs. read_frame_payload n evs)"

lemma io_then_assoc:
  "io_then (io_then m f) g = io_then m (\<lambda>x evs. io_then (f x evs) g)"
  by (cases m; cases "fst (the m)") auto

lemma recv_request_payload:
  "recv_request evs =
     io_then (recv_payload evs) (\<lambda>p evs. Some (map_err Protocol (decode_request p), evs))"
  by (simp add: recv_request_def recv_payload_def io_then_assoc)

lemma io_then_Some:
  "io_then m k = Some (r, evs') \<Longrightarrow>
     (\<exists>e. m = Some (Inl e, evs') \<and> r = Inl e) \<or> (\<exists>x evs. m = Some (Inr x, evs) \<and> k x evs = Some (r, evs'))"
  by (cases m; cases "fst (the m)") auto

text \<open>What the two reads of a frame take from the stream.\<close>

lemma read_frame_prefix_conserves:
  assumes "read_frame_prefix evs = Some (r, evs')"
  shows "\<exists>c. arrived evs = c @ arrived evs' \<and>
    (case r of
       Inr n \<Rightarrow> length c = LENGTH_PREFIX_BYTES \<and> n = unat (u32_from_le_bytes c) \<and> n \<le> MAX_MESSAGE_SIZE
     | Inl e \<Rightarrow> read_outcome True LENGTH_PREFIX_BYTES c (Inl e) \<or>
         length c = LENGTH_PREFIX_BYTES \<and> MAX_MESSAGE_SIZE < unat (u32_from_le_bytes c) \<and>
         e = Protocol (FrameTooLarge (unat (u32_from_le_bytes c)) MAX_MESSAGE_SIZE))"
proof -
  from io_then_Some [OF assms [unfolded read_frame_prefix_def]]
  obtain a evs1 where a: "read_exact_retrying LENGTH_PREFIX_BYTES True evs = Some (a, evs1)" by blast
  then obtain c where c: "arrived evs = c @ arrived evs1" "read_outcome True LENGTH_PREFIX_BYTES c a"
    using read_loop_conserves [of True LENGTH_PREFIX_BYTES "[]" evs a evs1] by (auto simp: read_exact_retrying_def)
  show ?thesis
  proof (cases a)
    case (Inl e)
    with assms a c show ?thesis by (auto simp: read_frame_prefix_def)
  next
    case (Inr p)
    with assms a c show ?thesis
      by (auto simp: read_frame_prefix_def read_outcome_def Let_def split: if_splits)
  qed
qed

lemma read_frame_payload_conserves:
  "read_frame_payload n evs = Some (r, evs') \<Longrightarrow> \<exists>c. arrived evs = c @ arrived evs' \<and> read_outcome False n c r"
  using read_loop_conserves [of False n "[]" evs r evs'] by (simp add: read_frame_payload_def read_exact_retrying_def)

context frame_codec
begin

text \<open>A payload behind its own length is read whole, however it arrives.\<close>

lemma read_payload:
  assumes "and_then (payload_of m) frame_of = Inr f" and "quiet evs"
    and "arrived evs = drop LENGTH_PREFIX_BYTES f @ x"
  shows "\<exists>evs'. read_frame_payload (length (drop LENGTH_PREFIX_BYTES f)) evs =
      Some (Inr (drop LENGTH_PREFIX_BYTES f), evs') \<and> arrived evs' = x \<and> quiet evs'"
  using read_loop_quiet [OF assms(2), of "length (drop LENGTH_PREFIX_BYTES f)" "[]" False]
  by (simp add: read_frame_payload_def read_exact_retrying_def assms(3))

lemma recv_frame:
  assumes "ok m" and f: "and_then (payload_of m) frame_of = Inr f"
    and "quiet evs" and "ready evs" and "arrived evs = f @ x"
  shows "\<exists>p evs'. recv_payload evs = Some (Inr p, evs') \<and> decode p = Inr m \<and> arrived evs' = x \<and> quiet evs'"
proof -
  note d = decode_frame [OF assms(1) f]
  let ?f = "take LENGTH_PREFIX_BYTES f" and ?p = "drop LENGTH_PREFIX_BYTES f"
  from f have lf: "LENGTH_PREFIX_BYTES \<le> length f"
    by (rule frame_layout) (simp add: LENGTH_PREFIX_BYTES_def)
  then have arr: "take LENGTH_PREFIX_BYTES (arrived evs) = ?f" "drop LENGTH_PREFIX_BYTES (arrived evs) = ?p @ x"
    using assms(5) by simp_all
  obtain evs1 where 1: "read_exact_retrying LENGTH_PREFIX_BYTES True evs = Some (Inr ?f, evs1)"
    "arrived evs1 = ?p @ x" "quiet evs1"
    using read_loop_quiet [OF assms(3), of LENGTH_PREFIX_BYTES "[]" True] lf assms(4,5) arr
    by (auto simp: read_exact_retrying_def)
  from read_payload [OF f 1(3,2)] obtain evs2 where
    "read_frame_payload (length ?p) evs1 = Some (Inr ?p, evs2)" "arrived evs2 = x" "quiet evs2" by blast
  with 1(1) d show ?thesis
    by (auto simp: recv_payload_def read_frame_prefix_def Let_def)
qed

end

section \<open>Writing\<close>

lemma write_all_Some:
  "write_all_retrying buf rs = Some (r, out, rs') \<Longrightarrow>
     (case r of Inr u \<Rightarrow> out = buf | Inl e \<Rightarrow> \<exists>t. t \<noteq> [] \<and> buf = out @ t)"
proof (induction rs arbitrary: buf r out)
  case Nil
  then show ?case by (auto split: if_splits)
next
  case (Cons reply rs)
  show ?case
  proof (cases reply)
    case (Wrote n)
    show ?thesis
    proof (cases "buf = [] \<or> n = 0")
      case True
      with Cons.prems Wrote show ?thesis by (auto split: if_splits)
    next
      case False
      with Cons.prems Wrote obtain out' where out: "out = take n buf @ out'"
        "write_all_retrying (drop n buf) rs = Some (r, out', rs')" by auto
      from Cons.IH [OF out(2)] show ?thesis
        unfolding out(1) by (auto split: sum.splits) (metis append_take_drop_id)
    qed
  next
    case (Write_Failed e)
    with Cons.prems Cons.IH show ?thesis by (auto split: if_splits)
  qed
qed

lemma data_fds_concat: "data_fds (concat (map u32_to_le_bytes fds)) = fds"
proof (rule nth_equalityI)
  have len: "length (concat (map u32_to_le_bytes fds)) = length fds * 4"
    by (induction fds) simp_all
  then show "length (data_fds (concat (map u32_to_le_bytes fds))) = length fds"
    by (simp add: data_fds_def sizeof_RawFd_def)
  fix i
  assume "i < length (data_fds (concat (map u32_to_le_bytes fds)))"
  then have i: "i < length fds" by (simp add: data_fds_def sizeof_RawFd_def len)
  have chunk: "take 4 (drop (i * 4) (concat (map u32_to_le_bytes gs))) = u32_to_le_bytes (gs ! i)"
    if "i < length gs" for i :: nat and gs :: "fd list"
    using that
  proof (induction gs arbitrary: i)
    case (Cons g gs)
    then show ?case by (cases i) simp_all
  qed simp
  show "data_fds (concat (map u32_to_le_bytes fds)) ! i = fds ! i"
    using i chunk [OF i] by (simp add: data_fds_def sizeof_RawFd_def len codec_simps)
qed

lemma sendmsg_Inr: "sendmsg_retry frame rs = Some (Inr n, rs') \<Longrightarrow> n \<le> length frame"
  by (induction frame rs rule: sendmsg_retry.induct) (auto split: if_splits)

lemma sendmsg_with_fds_Inr:
  assumes "sendmsg_with_fds frame fds c = Some (Inr u, c')"
  shows "sent c' = sent c @ frame \<and> sent_fds c' = sent_fds c @ fds \<and> length fds \<le> MAX_FDS_PER_MESSAGE"
  using assms sendmsg_Inr
  by (fastforce simp: sendmsg_with_fds_def Let_def split: if_splits option.splits sum.splits
      dest: write_all_Some)

lemma extract_fds_cmsg [simp]: "extract_fds_from_cmsg [fds_cmsg fds] = fds"
  by (simp add: fds_cmsg_def data_fds_concat)

lemma recv_response_frame:
  assumes "wf_response resp" and "expected_fd_count resp = length fds" and fds: "extract_fds_from_cmsg cs = fds"
    and enc: "encode_response resp = Inr (bs @ later)" and "bs \<noteq> []" and "length bs \<le> LENGTH_PREFIX_BYTES"
    and "quiet evs" and "arrived evs = later"
  shows "\<exists>evs'. recv_response [Msg bs cs False] evs = Some (Inr (resp, fds), evs') \<and> arrived evs' = []"
proof -
  define f where fbm: "f = bs @ later"
  have f: "encode_response resp = Inr f" using enc by (simp add: fbm)
  have f': "and_then (response_payload resp) frame_of = Inr f" using f by (simp add: encode_response_def)
  note d = resp_codec.decode_frame [OF assms(1) f']
  let ?pre = "take LENGTH_PREFIX_BYTES f" and ?p = "drop LENGTH_PREFIX_BYTES f"
  have lf: "LENGTH_PREFIX_BYTES \<le> length f"
    by (rule resp_codec.frame_layout [OF f']) (simp add: LENGTH_PREFIX_BYTES_def)
  have "\<exists>evs1. recvmsg_prefix_with_fds [Msg bs cs False] evs = Some (Inr (?pre, fds), evs1) \<and>
      arrived evs1 = ?p \<and> quiet evs1"
  proof (cases "length bs < LENGTH_PREFIX_BYTES")
    case True
    let ?k = "LENGTH_PREFIX_BYTES - length bs"
    have k: "?k \<le> length (arrived evs)" using lf assms(8) by (simp add: fbm)
    obtain evs1 where "read_exact_retrying ?k False evs = Some (Inr (take ?k later), evs1)"
      "arrived evs1 = drop ?k later" "quiet evs1"
      using read_loop_quiet [OF assms(7), of ?k "[]" False] k assms(8)
      by (auto simp: read_exact_retrying_def)
    with True assms(5) fds show ?thesis
      by (simp add: recvmsg_prefix_with_fds_def Let_def fbm)
  next
    case False
    with assms(5-8) fds show ?thesis
      by (simp add: recvmsg_prefix_with_fds_def Let_def fbm)
  qed
  then obtain evs1 where 1: "recvmsg_prefix_with_fds [Msg bs cs False] evs = Some (Inr (?pre, fds), evs1)"
    "arrived evs1 = ?p @ []" "quiet evs1" by auto
  from resp_codec.read_payload [OF f' 1(3,2)] obtain evs2 where
    "read_frame_payload (length ?p) evs1 = Some (Inr ?p, evs2)" "arrived evs2 = []" by blast
  with 1(1) d assms(2) show ?thesis
    by (simp add: recv_response_def Let_def)
qed

text \<open>Sending returns when the kernel answers.\<close>

lemma write_all_returns:
  "length buf \<le> sum_list (map accepted rs) \<or> (\<exists>e. Write_Failed e \<in> set rs \<and> e \<noteq> EINTR) \<Longrightarrow>
     \<exists>r out rs'. write_all_retrying buf rs = Some (r, out, rs')"
  by (induction buf rs rule: write_all_retrying.induct;
      (auto simp: is_interrupted_def le_diff_conv add.commute split: write_reply.splits; blast)?)

lemma sendmsg_returns:
  "0 < sum_list (map accepted rs) \<or> (\<exists>e. Write_Failed e \<in> set rs \<and> e \<noteq> EINTR) \<Longrightarrow>
     sendmsg_retry frame rs \<noteq> None"
  by (induction frame rs rule: sendmsg_retry.induct) auto

lemma sendmsg_rest:
  "sendmsg_retry frame rs = Some (Inr n, rs') \<Longrightarrow>
     n \<le> length frame \<and> sum_list (map accepted rs) - n \<le> sum_list (map accepted rs') \<or> n = length frame"
  by (induction frame rs rule: sendmsg_retry.induct) (auto split: if_splits)

lemma sendmsg_fails_later:
  "sendmsg_retry frame rs = Some (Inr n, rs') \<Longrightarrow> Write_Failed e \<in> set rs \<Longrightarrow> e \<noteq> EINTR \<Longrightarrow>
     Write_Failed e \<in> set rs'"
  by (induction frame rs rule: sendmsg_retry.induct) (auto split: if_splits)

lemma response_frame_length:
  "encode_response resp = Inr f \<Longrightarrow> length f \<le> LENGTH_PREFIX_BYTES + MAX_MESSAGE_SIZE"
  by (auto simp: encode_response_def frame_of_def LENGTH_PREFIX_BYTES_def split: sum.splits if_splits)

lemma send_response_returns: "socket_answers (replies c) \<Longrightarrow> send_response resp c \<noteq> None"
  using write_all_returns [of _ "replies c"] response_frame_length
  by (fastforce simp: send_response_def socket_answers_def split: sum.splits)

lemma send_response_with_fds_returns:
  assumes "socket_answers (replies c)"
  shows "send_response_with_fds resp fds c \<noteq> None"
proof (cases "encode_response resp")
  case (Inr f)
  have answers: "length f \<le> sum_list (map accepted (replies c)) \<or> (\<exists>e. Write_Failed e \<in> set (replies c) \<and> e \<noteq> EINTR)"
    using assms response_frame_length [OF Inr] by (auto simp: socket_answers_def)
  have "0 < sum_list (map accepted (replies c)) \<or> (\<exists>e. Write_Failed e \<in> set (replies c) \<and> e \<noteq> EINTR)"
    using assms by (auto simp: socket_answers_def LENGTH_PREFIX_BYTES_def)
  then obtain r rs where sm: "sendmsg_retry f (replies c) = Some (r, rs)" using sendmsg_returns by fastforce
  show ?thesis
  proof (cases r)
    case r: (Inr n)
    have "length (drop n f) \<le> sum_list (map accepted rs) \<or> (\<exists>e. Write_Failed e \<in> set rs \<and> e \<noteq> EINTR)"
      if "n < length f"
      using answers sendmsg_rest [OF sm [unfolded r]] sendmsg_fails_later [OF sm [unfolded r]] that
      by (elim disjE exE conjE) auto
    then have "n < length f \<Longrightarrow> \<exists>r out rs'. write_all_retrying (drop n f) rs = Some (r, out, rs')"
      by (rule write_all_returns)
    with sm Inr r show ?thesis
      by (cases "n < length f") (auto simp: send_response_with_fds_def sendmsg_with_fds_def Let_def)
  qed (use sm Inr in \<open>simp add: send_response_with_fds_def sendmsg_with_fds_def Let_def\<close>)
qed (simp add: send_response_with_fds_def)

section \<open>Properties\<close>

text \<open>
  C17: A request arrives whole.  However the bytes of an encoded request are split into
  pieces, and wherever interruptions and, after its first byte, empty polls come between them,
  \<open>recv_request\<close> returns that request and leaves exactly the bytes that follow the frame.
\<close>

theorem recv_request_any_segmentation:
  assumes "canonical_request req" and "encode_request req = Inr f"
    and "quiet evs" and "ready evs" and "arrived evs = f @ x"
  shows "\<exists>evs'. recv_request evs = Some (Inr req, evs') \<and> arrived evs' = x \<and> quiet evs'"
  using req_codec.recv_frame [OF assms(1) _ assms(3-5)] assms(2)
  by (auto simp: recv_request_payload encode_request_def)

text \<open>
  What \<open>recv_request\<close> says of the bytes it has taken off the stream: nothing at all; a part of the
  four bytes of a prefix, or a prefix and a part of its payload, when the stream ended or failed;
  the prefix alone of a frame that is too large; or a whole frame, with the verdict of the decoder
  on its payload.
\<close>

inductive request_outcome :: "u8 list \<Rightarrow> transport_error + request \<Rightarrow> bool" where
  nothing: "request_outcome [] (Inl WouldBlock)"
| closed: "request_outcome [] (Inl ConnectionClosed)"
| prefix_cut: "c \<noteq> [] \<Longrightarrow> length c < LENGTH_PREFIX_BYTES \<Longrightarrow>
    request_outcome c (Inl (Protocol (Truncated LENGTH_PREFIX_BYTES (length c))))"
| prefix_failed: "length c < LENGTH_PREFIX_BYTES \<Longrightarrow> read_error k \<Longrightarrow> request_outcome c (Inl (Io Read k))"
| too_large: "length c = LENGTH_PREFIX_BYTES \<Longrightarrow> n = unat (u32_from_le_bytes c) \<Longrightarrow> MAX_MESSAGE_SIZE < n \<Longrightarrow>
    request_outcome c (Inl (Protocol (FrameTooLarge n MAX_MESSAGE_SIZE)))"
| payload_cut: "length a = LENGTH_PREFIX_BYTES \<Longrightarrow> n = unat (u32_from_le_bytes a) \<Longrightarrow> n \<le> MAX_MESSAGE_SIZE \<Longrightarrow>
    length p < n \<Longrightarrow> request_outcome (a @ p) (Inl (Protocol (Truncated n (length p))))"
| payload_failed: "length a = LENGTH_PREFIX_BYTES \<Longrightarrow> n = unat (u32_from_le_bytes a) \<Longrightarrow> n \<le> MAX_MESSAGE_SIZE \<Longrightarrow>
    length p < n \<Longrightarrow> read_error k \<Longrightarrow> request_outcome (a @ p) (Inl (Io Read k))"
| whole: "length a = LENGTH_PREFIX_BYTES \<Longrightarrow> length p = unat (u32_from_le_bytes a) \<Longrightarrow> length p \<le> MAX_MESSAGE_SIZE \<Longrightarrow>
    request_outcome (a @ p) (map_err Protocol (decode_request p))"

text \<open>
  C29: Nothing that arrived is lost silently.  Whatever the socket does, the bytes
  \<open>recv_request\<close> has taken and the bytes still to come are the bytes that arrived, and every
  outcome says what has been taken: nothing when there was no data or the peer had closed; when
  the stream ended in a frame, or failed, less than the prefix, or the prefix and less than its
  payload, and how much the error says; the prefix alone when the frame is too large, so that the
  payload is read next as if it were a new frame; otherwise a whole frame, and then the outcome is
  the request its payload decodes to or the decoder's fault.
\<close>

theorem recv_request_conserves:
  assumes "recv_request evs = Some (r, evs')"
  shows "\<exists>c. arrived evs = c @ arrived evs' \<and> request_outcome c r"
proof -
  from io_then_Some [OF assms [unfolded recv_request_def]]
  consider e where "read_frame_prefix evs = Some (Inl e, evs')" "r = Inl e"
    | n evs1 where "read_frame_prefix evs = Some (Inr n, evs1)"
        "io_then (read_frame_payload n evs1)
          (\<lambda>payload evs. Some (map_err Protocol (decode_request payload), evs)) = Some (r, evs')"
    by blast
  then show ?thesis
  proof cases
    case (1 e)
    from read_frame_prefix_conserves [OF 1(1)] obtain c where "arrived evs = c @ arrived evs'"
      "read_outcome True LENGTH_PREFIX_BYTES c (Inl e) \<or>
         length c = LENGTH_PREFIX_BYTES \<and> MAX_MESSAGE_SIZE < unat (u32_from_le_bytes c) \<and>
         e = Protocol (FrameTooLarge (unat (u32_from_le_bytes c)) MAX_MESSAGE_SIZE)" by auto
    then show ?thesis
      by (auto simp: 1(2) read_outcome_def intro: request_outcome.intros)
  next
    case (2 n evs1)
    from read_frame_prefix_conserves [OF 2(1)] obtain a where a: "arrived evs = a @ arrived evs1"
      "length a = LENGTH_PREFIX_BYTES" "n = unat (u32_from_le_bytes a)" "n \<le> MAX_MESSAGE_SIZE" by auto
    from io_then_Some [OF 2(2)] obtain x evs2 where "read_frame_payload n evs1 = Some (x, evs2)" by blast
    with 2(2) have x: "read_frame_payload n evs1 = Some (x, evs')"
      "r = (case x of Inl e \<Rightarrow> Inl e | Inr p \<Rightarrow> map_err Protocol (decode_request p))"
      by (cases x; simp)+
    from read_frame_payload_conserves [OF x(1)] obtain p where p: "arrived evs1 = p @ arrived evs'"
      "read_outcome False n p x" by blast
    have "request_outcome (a @ p) r"
    proof (cases x)
      case (Inl e)
      with p(2) x(2) a(2-4) show ?thesis
        by (auto simp: read_outcome_def intro: request_outcome.payload_cut request_outcome.payload_failed)
    next
      case (Inr b)
      with p(2) x(2) a(2-4) show ?thesis by (auto simp: read_outcome_def intro: request_outcome.whole)
    qed
    with a(1) p(1) show ?thesis by (intro exI [of _ "a @ p"]) simp
  qed
qed

text \<open>
  A frame that stops half-way holds its reader.  When a few bytes of a prefix have arrived
  and no more follow, \<open>recv_request\<close> polls again and again: after any number of empty polls it
  has still not returned.
\<close>

lemma partial_frame_spins:
  assumes "bs \<noteq> []" and "length bs < LENGTH_PREFIX_BYTES"
  shows "recv_request (Bytes bs # replicate n (Read_Failed EAGAIN)) = None"
proof -
  have "read_loop True LENGTH_PREFIX_BYTES bs (replicate n (Read_Failed EAGAIN)) = None"
    using assms by (induction n) (simp_all add: read_loop.simps)
  then have "read_exact_retrying LENGTH_PREFIX_BYTES True (Bytes bs # replicate n (Read_Failed EAGAIN)) = None"
    using assms by (simp add: read_exact_retrying_def read_loop.simps [of True _ "[]"])
  then show ?thesis by (simp add: recv_request_def read_frame_prefix_def)
qed

text \<open>
  C18: A response and its descriptor arrive.  When \<open>send_response_with_fds\<close> reports success,
  the bytes it put on the stream are the frame and the descriptor went with them, however many
  writes that took; a receiver that gets those bytes, the first one to four of them with the
  descriptor's control message, reads back the same response and the same descriptor.
\<close>

theorem response_delivery:
  assumes "wf_response resp" and "expected_fd_count resp = length fds"
    and "send_response_with_fds resp fds c = Some (Inr u, c')"
    and "sent c' = sent c @ bs @ later" and "bs \<noteq> []" and "length bs \<le> LENGTH_PREFIX_BYTES"
    and "quiet evs" and "arrived evs = later"
  shows "sent_fds c' = sent_fds c @ fds \<and>
    (\<exists>evs'. recv_response [Msg bs [fds_cmsg fds] False] evs = Some (Inr (resp, fds), evs') \<and> arrived evs' = [])"
proof -
  from assms(3) obtain f where f: "encode_response resp = Inr f"
    and snd: "sendmsg_with_fds f fds c = Some (Inr u, c')"
    by (auto simp: send_response_with_fds_def split: sum.splits)
  from sendmsg_with_fds_Inr [OF snd] assms(4) have fbm: "f = bs @ later" and sf: "sent_fds c' = sent_fds c @ fds"
    by auto
  from recv_response_frame [OF assms(1,2) extract_fds_cmsg f [unfolded fbm] assms(5-8)] sf show ?thesis by blast
qed

text \<open>
  Taking over the socket path removes nothing that is alive.  When the path exists and is
  not a dead socket (it is no socket, it cannot be examined, or somebody answers on it), the
  server is not created and nothing is done to the path; a created server has ended by
  listening, and the only thing it removed, if anything, is a dead socket.
\<close>

theorem server_create_path:
  "(path_exists k \<and> (metadata k \<noteq> Inr True \<or> probe_connects k) \<longrightarrow>
      (\<exists>e. server_create path k = (Inl e, []))) \<and>
   (\<forall>p acts. server_create path k = (Inr p, acts) \<longrightarrow>
      p = path \<and> (acts = [Bind_Path, Listen_On] \<and> \<not> path_exists k \<or>
        acts = [Remove_File, Bind_Path, Listen_On] \<and> path_exists k \<and> metadata k = Inr True \<and> \<not> probe_connects k))"
  by (cases "metadata k")
     (auto simp: server_create_def remove_stale_def is_socket_file_def split: sum.splits if_splits)

section \<open>Witnesses\<close>

definition bytewise :: "u8 list \<Rightarrow> arrival list" where
  "bytewise bs = concat (map (\<lambda>b. [Bytes [b], Read_Failed EAGAIN, Read_Failed EINTR]) bs)"

lemma bytewise: "quiet (bytewise bs)" "arrived (bytewise bs) = bs" "bs \<noteq> [] \<Longrightarrow> ready (bytewise bs)"
proof -
  show "quiet (bytewise bs)" "arrived (bytewise bs) = bs"
    by (induction bs) (simp_all add: bytewise_def)
  show "bs \<noteq> [] \<Longrightarrow> ready (bytewise bs)"
    by (cases bs) (simp_all add: bytewise_def)
qed

lemma sample_frame:
  obtains f where "canonical_request sample_request" "encode_request sample_request = Inr f" "f \<noteq> []"
proof -
  obtain f where f: "canonical_request sample_request" "encode_request sample_request = Inr f"
    using sample_request_frame by blast
  have "\<And>w :: u32. \<And>p. u32_to_le_bytes w @ p \<noteq> []"
    by (simp flip: length_greater_0_conv)
  then have "f \<noteq> []"
    by (metis req_codec.frame_layout encode_request_def f(2))
  with f that show thesis by blast
qed

lemma recv_request_any_segmentation_witness:
  "\<exists>f evs'. encode_request sample_request = Inr f \<and>
     recv_request (bytewise f) = Some (Inr sample_request, evs') \<and> arrived evs' = []"
proof (rule sample_frame)
  fix f
  assume f: "canonical_request sample_request" "encode_request sample_request = Inr f" "f \<noteq> []"
  from recv_request_any_segmentation [OF f(1,2) bytewise(1) bytewise(3) [OF f(3)], of "[]"] f(2)
  show ?thesis by (auto simp: bytewise(2))
qed

lemma recv_request_conserves_witness:
  "\<exists>evs' c. recv_request [Read_Failed EAGAIN, Bytes [1, 2]] = Some (Inl WouldBlock, evs') \<and>
     [1, 2] = c @ arrived evs' \<and> c = []"
proof -
  have "recv_request [Read_Failed EAGAIN, Bytes [1, 2]] = Some (Inl WouldBlock, [Bytes [1, 2]])"
    by (simp add: recv_request_def read_frame_prefix_def read_exact_retrying_def read_loop.simps
        LENGTH_PREFIX_BYTES_def)
  with recv_request_conserves [OF this] show ?thesis by auto
qed

abbreviation sample_connection :: "write_reply list \<Rightarrow> connection" where
  "sample_connection rs \<equiv> \<lparr>incoming = [], replies = rs, sent = [], sent_fds = []\<rparr>"

lemma sample_response_frame:
  "encode_response (Created 7) = Inr (u32_to_le_bytes 10 @ [PROTOCOL_VERSION, TAG_CREATED] @ u64_to_le_bytes 7)"
  by (simp add: encode_response_def frame_of_def MAX_MESSAGE_SIZE_def)

lemma response_delivery_witness:
  "\<exists>c'. send_response_with_fds (Created 7) [9] (sample_connection [Write_Failed EINTR, Wrote 3, Wrote 50]) =
       Some (Inr (), c') \<and> sent_fds c' = [9]"
proof -
  let ?c = "sample_connection [Write_Failed EINTR, Wrote 3, Wrote 50]"
  obtain c' where c': "send_response_with_fds (Created 7) [9] ?c = Some (Inr (), c')"
    "sent c' = u32_to_le_bytes 10 @ [PROTOCOL_VERSION, TAG_CREATED] @ u64_to_le_bytes 7"
    by (simp add: send_response_with_fds_def sample_response_frame sendmsg_with_fds_def Let_def
        MAX_FDS_PER_MESSAGE_def CMSG_SPACE_def cmsg_align_def sizeof_cmsghdr_def sizeof_usize_def
        sizeof_RawFd_def)
  let ?bs = "u32_to_le_bytes (10 :: u32)" and ?later = "[PROTOCOL_VERSION, TAG_CREATED] @ u64_to_le_bytes 7"
  have "wf_response (Created 7)" "expected_fd_count (Created 7) = length [9 :: fd]" by simp_all
  moreover have "sent c' = sent ?c @ ?bs @ ?later" using c'(2) by simp
  moreover have "?bs \<noteq> []" "length ?bs \<le> LENGTH_PREFIX_BYTES"
    by (simp_all add: LENGTH_PREFIX_BYTES_def flip: length_greater_0_conv)
  moreover have "quiet [Bytes ?later]" "arrived [Bytes ?later] = ?later" by simp_all
  ultimately have "sent_fds c' = sent_fds ?c @ [9]"
    using response_delivery [OF _ _ c'(1)] by blast
  with c'(1) show ?thesis by simp
qed

lemma server_create_path_witness:
  "\<exists>e. server_create ''/run/a'' \<lparr>path_exists = True, metadata = Inr True, probe_connects = True,
     bind_reply = Inr (), nonblocking_reply = Inr (), listen_rc = 0, listen_errno = 0\<rparr> = (Inl e, [])"
  by (rule server_create_path [THEN conjunct1, THEN mp]) simp

end
