(* ===== verification/Daemon.thy ===== *)
theory Daemon
  imports Registry Transport
begin

text \<open>
  \<open>abacus-daemon/src/daemon.rs\<close> and \<open>main.rs\<close>: the command line, the handling of one
  request, and the event loop: poll, accept, serve, remove, advance the clock, evaluate.  Each
  operation takes what the kernel answers as arguments; \<^const>\<open>None\<close> is an operation that
  does not return.
\<close>

section \<open>Command line\<close>

definition default_socket_path :: string where
  "default_socket_path = ''/run/abacus-rts/abacus.sock''"

fun strip_prefix :: "string \<Rightarrow> string \<Rightarrow> string option" where
  "strip_prefix [] s = Some s"
| "strip_prefix (p # ps) [] = None"
| "strip_prefix (p # ps) (c # cs) = (if p = c then strip_prefix ps cs else None)"

fun find_equals_form :: "string list \<Rightarrow> string option" where
  "find_equals_form [] = None"
| "find_equals_form (arg # args) =
     (case strip_prefix ''--socket-path='' arg of Some path \<Rightarrow> Some path | None \<Rightarrow> find_equals_form args)"

fun find_two_arg_form :: "string list \<Rightarrow> string option" where
  "find_two_arg_form [] = None"
| "find_two_arg_form [arg] = None"
| "find_two_arg_form (arg # path # args) =
     (if arg = ''--socket-path'' then Some path else find_two_arg_form (path # args))"

text \<open>\<open>args[1..]\<close> panics when there is not even a program name.\<close>

definition parse_args :: "string list \<Rightarrow> string option" where
  "parse_args args =
     (case args of
        [] \<Rightarrow> None
      | prog # rest \<Rightarrow>
          Some (case find_equals_form rest of
             Some path \<Rightarrow> path
           | None \<Rightarrow> (case find_two_arg_form rest of Some path \<Rightarrow> path | None \<Rightarrow> default_socket_path)))"

section \<open>Errors\<close>

fun is_connection_error :: "transport_error \<Rightarrow> bool" where
  "is_connection_error ConnectionClosed \<longleftrightarrow> True"
| "is_connection_error (Io operation e) \<longleftrightarrow>
     operation \<in> {Read, Write, SendMsg, RecvMsg} \<and> (e = EPIPE \<or> e = ECONNRESET)"
| "is_connection_error _ \<longleftrightarrow> False"

fun map_condition_to_response :: "condition \<Rightarrow> response" where
  "map_condition_to_response (InterlockNotFound nm) =
     resp_interlock_not_found (condition_display (InterlockNotFound nm))"
| "map_condition_to_response InterlockReaped = resp_interlock_reaped"
| "map_condition_to_response (AllocationFailed st e) =
     resp_allocation_failed (condition_display (AllocationFailed st e))"
| "map_condition_to_response (InvalidRequest m) =
     resp_invalid_request (condition_display (InvalidRequest m))"

section \<open>One request\<close>

definition tier_from_byte :: "u8 \<Rightarrow> tier option" where
  "tier_from_byte b =
     (if b = 0 then Some Interlock else if b = 1 then Some WaitCounter
      else if b = 2 then Some WaitTimer else if b = 3 then Some WaitCron
      else if b = 4 then Some WaitBarrier else None)"

text \<open>
  What the kernel answers while one request is served, and what others do to shared memory in
  the middle of a reap.
\<close>

record request_env =
  alloc :: alloc_replies
  reap_gap :: reap_gaps
  create_now :: u64
  dup_ret :: int
  dup_errno :: errno

type_synonym served = "((transport_error + unit) \<times> connection \<times> registry \<times> shm) option"

text \<open>\<open>let _ = send_response\<close> and \<open>send_response(...)?\<close>.\<close>

definition reply_ignoring :: "response \<Rightarrow> connection \<Rightarrow> registry \<Rightarrow> shm \<Rightarrow> served" where
  "reply_ignoring resp c reg s =
     map_option (\<lambda>(r, c'). (Inr (), c', reg, s)) (send_response resp c)"

definition reply :: "response \<Rightarrow> connection \<Rightarrow> registry \<Rightarrow> shm \<Rightarrow> served" where
  "reply resp c reg s = map_option (\<lambda>(r, c'). (r, c', reg, s)) (send_response resp c)"

text \<open>A duplicate of the handle's descriptor travels with the response.\<close>

definition reply_with_handle ::
    "request_env \<Rightarrow> response \<Rightarrow> region \<Rightarrow> connection \<Rightarrow> registry \<Rightarrow> shm \<Rightarrow> served" where
  "reply_with_handle env resp h c reg s =
     (case interlock_dup_fd (dup_ret env) (dup_errno env) h of
        Inl e \<Rightarrow> reply_ignoring (resp_allocation_failed (''fd dup failed: '' @ condition_display e)) c reg s
      | Inr _ \<Rightarrow>
          map_option (\<lambda>(r, c'). (r, c', reg, s))
            (send_response_with_fds resp [word_of_int (dup_ret env)] c))"

fun dispatch :: "request_env \<Rightarrow> request \<Rightarrow> connection \<Rightarrow> registry \<Rightarrow> shm \<Rightarrow> served" where
  "dispatch env (CreateInterlock name t wn ww ival conds) c reg s =
     (case tier_from_byte t of
        None \<Rightarrow> reply (resp_invalid_request ''invalid tier'') c reg s
      | Some tr \<Rightarrow>
          (case create (alloc env) (reap_gap env) (create_now env) name tr wn ww ival conds reg s of
             None \<Rightarrow> None
           | Some (Inr (i, h), reg', s') \<Rightarrow> reply_with_handle env (Created i) h c reg' s'
           | Some (Inl e, reg', s') \<Rightarrow> reply (map_condition_to_response e) c reg' s'))"
| "dispatch env (AttachInterlock name) c reg s =
     (case attach name reg of
        Inr (i, h) \<Rightarrow> reply_with_handle env (Attached i) h c reg s
      | Inl e \<Rightarrow> reply (map_condition_to_response e) c reg s)"

definition handle_client_request :: "request_env \<Rightarrow> connection \<Rightarrow> registry \<Rightarrow> shm \<Rightarrow> served" where
  "handle_client_request env c reg s =
     (case recv_request (incoming c) of
        None \<Rightarrow> None
      | Some (r, evs) \<Rightarrow>
          (let c = c\<lparr>incoming := evs\<rparr> in
           case r of
             Inr req \<Rightarrow> dispatch env req c reg s
           | Inl WouldBlock \<Rightarrow> Some (Inr (), c, reg, s)
           | Inl (Protocol fault) \<Rightarrow>
               reply_ignoring (resp_invalid_request (protocol_fault_display fault)) c reg s
           | Inl e \<Rightarrow> Some (Inl e, c, reg, s)))"

section \<open>The event loop\<close>

text \<open>The cast to \<open>i32\<close> keeps the low 32 bits; poll takes a negative timeout for none.\<close>

definition poll_timeout :: "u64 \<Rightarrow> u64 \<Rightarrow> u64 \<Rightarrow> i32" where
  "poll_timeout anchor cyc now =
     (let next_boundary = anchor + cyc * NANOS_PER_MS in
      if now < next_boundary then ucast ((next_boundary - now + NANOS_PER_MS - 1) div NANOS_PER_MS)
      else 0)"

text \<open>
  The accept loop over the replies of \<open>accept\<close>, each with the reply to switching the new
  stream to non-blocking.
\<close>

fun accept_loop :: "(accept_reply \<times> (errno + unit)) list \<Rightarrow> connection list \<Rightarrow> connection list option" where
  "accept_loop [] clients = None"
| "accept_loop ((ar, nb) # later) clients =
     (case try_accept ar of
        Inr (Some conn) \<Rightarrow>
          (case set_nonblocking nb of
             Inl e \<Rightarrow> accept_loop later clients
           | Inr _ \<Rightarrow> accept_loop later (clients @ [conn]))
      | Inr None \<Rightarrow> Some clients
      | Inl e \<Rightarrow> Some clients)"

text \<open>What poll reports for one descriptor.\<close>

record revents =
  hup_or_err :: bool
  pollin :: bool

text \<open>
  What a cycle obtains from outside: readings of the clock, replies of the kernel, and what
  others do to shared memory before each request, before the tick, during the evaluation pass,
  after it, and during the arm.
\<close>

record cycle_env =
  poll_now :: u64
  poll_ret :: "i32 \<Rightarrow> int"
  poll_errno :: errno
  listener_in :: bool
  accepts :: "(accept_reply \<times> (errno + unit)) list"
  client_revents :: "nat \<Rightarrow> revents"
  request_envs :: "nat \<Rightarrow> request_env"
  before_request :: "nat \<Rightarrow> shm \<Rightarrow> shm"
  before_tick :: "shm \<Rightarrow> shm"
  clock_now :: u64
  eval_now :: u64
  eval_sched :: pass_schedule
  after_pass :: "shm \<Rightarrow> shm"
  refresh_now :: u64
  refresh_sched :: arm_schedule

record daemon =
  anchor :: u64
  cycle :: u64
  clock_handle :: region
  clients :: "connection list"
  reg_of :: registry
  shm_of :: shm

text \<open>
  Serving the clients that were polled, in index order; the indices to remove are collected.
\<close>

fun serve_clients ::
    "cycle_env \<Rightarrow> nat list \<Rightarrow> connection list \<Rightarrow> registry \<Rightarrow> shm \<Rightarrow>
     (nat list \<times> connection list \<times> registry \<times> shm) option" where
  "serve_clients env [] cs reg s = Some ([], cs, reg, s)"
| "serve_clients env (i # js) cs reg s =
     (if hup_or_err (client_revents env i) then
        map_option (\<lambda>(rm, out). (i # rm, out)) (serve_clients env js cs reg s)
      else if pollin (client_revents env i) then
        (case handle_client_request (request_envs env i) (cs ! i) reg (before_request env i s) of
           None \<Rightarrow> None
         | Some (r, c', reg', s') \<Rightarrow>
             map_option
               (\<lambda>(rm, out). (case r of
                   Inr _ \<Rightarrow> rm
                 | Inl e \<Rightarrow> if is_connection_error e then i # rm else rm, out))
               (serve_clients env js (cs[i := c']) reg' s'))
      else serve_clients env js cs reg s)"

text \<open>\<open>Vec::remove\<close> panics past the end.\<close>

fun remove_each :: "nat list \<Rightarrow> 'a list \<Rightarrow> 'a list option" where
  "remove_each [] xs = Some xs"
| "remove_each (i # js) xs =
     (if i < length xs then remove_each js (take i xs @ drop (Suc i) xs) else None)"

fun dedup :: "nat list \<Rightarrow> nat list" where
  "dedup (x # y # zs) = (if x = y then dedup (y # zs) else x # dedup (y # zs))"
| "dedup xs = xs"

definition remove_clients :: "nat list \<Rightarrow> 'a list \<Rightarrow> 'a list option" where
  "remove_clients to_remove xs = remove_each (rev (dedup (sort to_remove))) xs"

text \<open>The part of the loop after the clients: clock, evaluation, wake, refresh.\<close>

definition tick ::
    "cycle_env \<Rightarrow> region \<Rightarrow> registry \<Rightarrow> shm \<Rightarrow> (registry \<times> shm) option" where
  "tick env clk reg s =
     (let current_ms = clock_now env div NANOS_PER_MS;
          s1 = store clk Open_Word current_ms (before_tick env s) in
      Option.bind (evaluate_all current_ms (eval_now env) (eval_sched env) reg s1) (\<lambda>(reg', s2).
      map_option (\<lambda>s4. (reg', s4))
        (refresh_clock_expiration (refresh_now env) (refresh_sched env) reg' (futex_wake clk Open_Word (after_pass env s2)))))"

definition daemon_cycle :: "cycle_env \<Rightarrow> daemon \<Rightarrow> (startup_error + daemon) option" where
  "daemon_cycle env d =
     (let d = d\<lparr>cycle := cycle d + 1\<rparr>;
          timeout_ms = poll_timeout (anchor d) (cycle d) (poll_now env) in
      if poll_ret env timeout_ms < 0 \<and> poll_errno env \<noteq> EINTR then Some (Inl (EventLoopFailed (poll_errno env)))
      else
        Option.bind (if listener_in env then accept_loop (accepts env) (clients d) else Some (clients d)) (\<lambda>cs.
        Option.bind (serve_clients env [0..<length (clients d)] cs (reg_of d) (shm_of d)) (\<lambda>(rm, cs', reg', s').
        Option.bind (remove_clients rm cs') (\<lambda>cs''.
        Option.bind (tick env (clock_handle d) reg' s') (\<lambda>(reg'', s'').
        Some (Inr (d\<lparr>clients := cs'', reg_of := reg'', shm_of := s''\<rparr>)))))))"

text \<open>Up to the first cycle.\<close>

definition daemon_start ::
    "string \<Rightarrow> path_replies \<Rightarrow> alloc_replies \<Rightarrow> u64 \<Rightarrow> u64 \<Rightarrow> u64 \<Rightarrow> arm_schedule \<Rightarrow> u64 \<Rightarrow> shm \<Rightarrow>
     (startup_error + daemon) option" where
  "daemon_start path pk k now_create now_arm now_start sched now_anchor s =
     (case fst (server_create path pk) of
        Inl e \<Rightarrow> Some (Inl (startup_from_transport e))
      | Inr _ \<Rightarrow>
          (case registry_new k now_create now_arm now_start sched s of
             None \<Rightarrow> None
           | Some (Inl e, s') \<Rightarrow> Some (Inl (startup_from_condition e))
           | Some (Inr reg, s') \<Rightarrow>
               map_option (\<lambda>clk. Inr \<lparr>anchor = now_anchor, cycle = 0, clock_handle = clk, clients = [],
                   reg_of = reg, shm_of = s'\<rparr>) (clock reg)))"

section \<open>Serving keeps the registry\<close>

text \<open>
  What every operation of the daemon keeps to, from one registry and memory to the next: the
  registry stays well formed with the same clock, regions are only added, and a region outside
  the table stays outside it.
\<close>

definition keeps :: "registry \<Rightarrow> shm \<Rightarrow> registry \<Rightarrow> shm \<Rightarrow> bool" where
  "keeps reg s reg' s' \<longleftrightarrow>
     registry_inv reg' s' \<and> clock reg' = clock reg \<and> next_region s \<le> next_region s' \<and>
     (\<forall>r. r < next_region s \<longrightarrow> orphan reg r \<longrightarrow> orphan reg' r \<and> mem s' r = mem s r)"

lemma keeps_refl: "registry_inv reg s \<Longrightarrow> keeps reg s reg s"
  by (simp add: keeps_def)

lemma keeps_trans: "keeps reg s reg' s' \<Longrightarrow> keeps reg' s' reg'' s'' \<Longrightarrow> keeps reg s reg'' s''"
  unfolding keeps_def by (metis order_less_le_trans order_trans)

lemma create_keeps:
  assumes "registry_inv reg s" and c: "create k no_gap now name t wn ww ival conds reg s = Some (out, reg', s')"
  shows "keeps reg s reg' s'"
  using create_inv [OF assms] create_clock [OF c] create_frame [OF c]
  by (auto simp: keeps_def orphan_def)

lemma reply_keeps:
  "reply resp c reg s = Some (r, c', reg', s') \<Longrightarrow> reg' = reg \<and> s' = s"
  "reply_ignoring resp c reg s = Some (r, c', reg', s') \<Longrightarrow> reg' = reg \<and> s' = s \<and> r = Inr ()"
  "reply_with_handle env resp h c reg s = Some (r, c', reg', s') \<Longrightarrow> reg' = reg \<and> s' = s"
  by (auto simp: reply_def reply_ignoring_def reply_with_handle_def split: sum.splits)

text \<open>
  Serving a request returns once the stream holds a whole frame, an end or an error, or nothing at
  all, and the kernel answers the writes of the response.
\<close>

definition client_answered :: "cycle_env \<Rightarrow> nat \<Rightarrow> connection \<Rightarrow> bool" where
  "client_answered env i c \<longleftrightarrow>
     (pollin (client_revents env i) \<and> \<not> hup_or_err (client_revents env i) \<longrightarrow>
        recv_request (incoming c) \<noteq> None \<and> socket_answers (replies c))"

lemma replies_return:
  assumes "socket_answers (replies c)"
  shows "reply resp c reg s \<noteq> None" and "reply_ignoring resp c reg s \<noteq> None"
    and "reply_with_handle env resp h c reg s \<noteq> None"
  using send_response_returns [OF assms] send_response_with_fds_returns [OF assms]
  by (simp_all add: reply_def reply_ignoring_def reply_with_handle_def option.map_disc_iff del: not_None_eq split: sum.split)

lemma dispatch_returns:
  assumes "registry_inv reg s" and "socket_answers (replies c)"
  shows "dispatch env req c reg s \<noteq> None"
proof (cases req)
  case (CreateInterlock name t wn ww ival conds)
  have "create (alloc env) (reap_gap env) (create_now env) name tr wn ww ival conds reg s \<noteq> None" for tr
    by (rule create_total [OF assms(1)])
  then show ?thesis
    using replies_return [OF assms(2)] unfolding CreateInterlock
    by (auto split: option.splits sum.splits prod.splits simp del: not_None_eq)
next
  case (AttachInterlock name)
  show ?thesis
    using replies_return [OF assms(2)] unfolding AttachInterlock
    by (auto split: sum.splits prod.splits simp del: not_None_eq)
qed

lemma handle_returns:
  assumes "registry_inv reg s" and "recv_request (incoming c) \<noteq> None" and "socket_answers (replies c)"
  shows "handle_client_request env c reg s \<noteq> None"
proof -
  obtain r evs where r: "recv_request (incoming c) = Some (r, evs)" using assms(2) by auto
  have "socket_answers (replies (c\<lparr>incoming := evs\<rparr>))" using assms(3) by simp
  note dispatch_returns [OF assms(1) this] replies_return(2) [OF this]
  then show ?thesis
    by (simp add: handle_client_request_def r Let_def del: not_None_eq split: sum.split transport_error.split)
qed

text \<open>
  The interface of serving: a relation between registry and memory before and after that
  \<open>create\<close> establishes and that others keep to, both of a kind \<open>calm\<close>, holds of serving any
  number of clients.
\<close>

locale request_effects =
  fixes rel :: "registry \<Rightarrow> shm \<Rightarrow> registry \<Rightarrow> shm \<Rightarrow> bool"
    and calm :: "(shm \<Rightarrow> shm) \<Rightarrow> bool"
  assumes rel_refl: "registry_inv reg s \<Longrightarrow> rel reg s reg s"
    and rel_trans: "rel reg s reg1 s1 \<Longrightarrow> rel reg1 s1 reg2 s2 \<Longrightarrow> rel reg s reg2 s2"
    and rel_inv: "rel reg s reg' s' \<Longrightarrow> registry_inv reg' s'"
    and rel_create: "registry_inv reg s \<Longrightarrow> (\<And>i. calm (gap i)) \<Longrightarrow>
      create k gap now name t wn ww ival conds reg s = Some (out, reg', s') \<Longrightarrow> rel reg s reg' s'"
    and rel_others: "registry_inv reg s \<Longrightarrow> calm f \<Longrightarrow> rel reg s reg (f s)"
begin

lemma dispatching:
  assumes "registry_inv reg s" and "\<And>i. calm (reap_gap env i)"
    and "dispatch env req c reg s = Some (r, c', reg', s')"
  shows "rel reg s reg' s'"
proof (cases req)
  case (AttachInterlock name)
  with assms(3) have "reg' = reg" "s' = s"
    by (auto split: sum.splits prod.splits dest: reply_keeps)
  with assms(1) show ?thesis by (simp add: rel_refl)
next
  case (CreateInterlock name t wn ww ival conds)
  show ?thesis
  proof (cases "tier_from_byte t")
    case None
    with assms(1,3) CreateInterlock reply_keeps(1) show ?thesis by (fastforce intro: rel_refl)
  next
    case (Some tr)
    with assms(3) CreateInterlock obtain out where
      "create (alloc env) (reap_gap env) (create_now env) name tr wn ww ival conds reg s = Some (out, reg', s')"
      by (auto split: option.splits sum.splits prod.splits dest: reply_keeps)
    with assms(1,2) show ?thesis by (intro rel_create)
  qed
qed

lemma handling:
  assumes "registry_inv reg s" and "\<And>i. calm (reap_gap env i)"
    and "handle_client_request env c reg s = Some (r, c', reg', s')"
  shows "rel reg s reg' s'"
proof -
  have "rel reg s reg' s'" if "dispatch env req c1 reg s = Some (r, c', reg', s')" for req c1
    by (rule dispatching [OF assms(1) _ that]) (rule assms(2))
  with assms(1,3) show ?thesis
    by (auto simp: handle_client_request_def Let_def rel_refl split: option.splits sum.splits transport_error.splits)
       (auto simp: rel_refl dest: reply_keeps(2))
qed

lemma serving:
  "registry_inv reg s \<Longrightarrow> (\<And>i. calm (before_request env i)) \<Longrightarrow>
     (\<And>i j. calm (reap_gap (request_envs env i) j)) \<Longrightarrow>
     serve_clients env js cs reg s = Some (rm, cs', reg', s') \<Longrightarrow> rel reg s reg' s'"
proof (induction js arbitrary: cs reg s rm)
  case Nil
  then show ?case by (simp add: rel_refl)
next
  case (Cons i js)
  show ?case
  proof (cases "hup_or_err (client_revents env i) \<or> \<not> pollin (client_revents env i)")
    case True
    with Cons.prems(4) obtain rm' where "serve_clients env js cs reg s = Some (rm', cs', reg', s')"
      by (auto split: if_splits)
    then show ?thesis by (rule Cons.IH [OF Cons.prems(1-3)])
  next
    case False
    let ?s = "before_request env i s"
    have o: "rel reg s reg ?s" by (rule rel_others [OF Cons.prems(1,2)])
    from Cons.prems(4) False obtain r c1 reg1 s1 rm' where
      h: "handle_client_request (request_envs env i) (cs ! i) reg ?s = Some (r, c1, reg1, s1)"
      and t: "serve_clients env js (cs[i := c1]) reg1 s1 = Some (rm', cs', reg', s')"
      by (auto split: option.splits if_splits)
    have k: "rel reg ?s reg1 s1" by (rule handling [OF rel_inv [OF o] Cons.prems(3) h])
    have "rel reg1 s1 reg' s'" by (rule Cons.IH [OF rel_inv [OF k] Cons.prems(2,3) t])
    with o k show ?thesis by (blast intro: rel_trans)
  qed
qed

lemma serving_returns:
  "registry_inv reg s \<Longrightarrow> (\<And>i. calm (before_request env i)) \<Longrightarrow>
     (\<And>i j. calm (reap_gap (request_envs env i) j)) \<Longrightarrow> distinct js \<Longrightarrow>
     \<forall>i \<in> set js. client_answered env i (cs ! i) \<Longrightarrow> serve_clients env js cs reg s \<noteq> None"
proof (induction js arbitrary: cs reg s)
  case (Cons i js)
  show ?case
  proof (cases "hup_or_err (client_revents env i) \<or> \<not> pollin (client_revents env i)")
    case True
    have "serve_clients env js cs reg s \<noteq> None" by (rule Cons.IH) (use Cons.prems in simp_all)
    with True show ?thesis by auto
  next
    case False
    let ?s = "before_request env i s"
    have inv: "registry_inv reg ?s" by (rule rel_inv [OF rel_others [OF Cons.prems(1,2)]])
    have "recv_request (incoming (cs ! i)) \<noteq> None" "socket_answers (replies (cs ! i))"
      using Cons.prems(5) False by (simp_all add: client_answered_def)
    from handle_returns [OF inv this, of "request_envs env i"] obtain r c1 reg1 s1 where
      h: "handle_client_request (request_envs env i) (cs ! i) reg ?s = Some (r, c1, reg1, s1)"
      by (metis option.exhaust prod_cases4)
    have k: "registry_inv reg1 s1" by (rule rel_inv [OF handling [OF inv Cons.prems(3) h]])
    have "\<forall>j \<in> set js. client_answered env j (cs[i := c1] ! j)"
      using Cons.prems(4,5) by (metis distinct.simps(2) list.set_intros(2) nth_list_update_neq)
    with Cons.prems(4) have "serve_clients env js (cs[i := c1]) reg1 s1 \<noteq> None"
      by (intro Cons.IH [OF k Cons.prems(2,3)]) simp_all
    with False h show ?thesis by auto
  qed
qed simp

end

text \<open>With nobody interfering, serving keeps the registry and all memory outside the table.\<close>

interpretation quiet_requests: request_effects keeps "\<lambda>f. f = (\<lambda>s. s)"
proof
  fix reg s gap k now name t wn ww ival conds out reg' s'
  assume "registry_inv reg s" and "\<And>i. gap i = (\<lambda>s. s)"
    and "create k gap now name t wn ww ival conds reg s = Some (out, reg', s')"
  moreover from this have "gap = no_gap" by blast
  ultimately show "keeps reg s reg' s'" by (simp add: create_keeps)
qed (auto simp: keeps_refl keeps_def dest: keeps_trans intro: keeps_trans [unfolded keeps_def])

text \<open>The list of clients keeps its length, and the indices to remove are among those served.\<close>

lemma serve_indices:
  "serve_clients env js cs reg s = Some (rm, cs', reg', s') \<Longrightarrow>
     length cs' = length cs \<and> set rm \<subseteq> set js \<and> (distinct js \<longrightarrow> distinct rm)"
proof (induction js arbitrary: cs reg s rm)
  case (Cons i js)
  from Cons.prems obtain rm' cs1 reg1 s1 where
    "serve_clients env js cs1 reg1 s1 = Some (rm', cs', reg', s')" "length cs1 = length cs"
    "rm = i # rm' \<or> rm = rm'"
    by (auto split: if_splits option.splits sum.splits)
  with Cons.IH [OF this(1)] show ?case by auto
qed simp

text \<open>The turn of a client: what comes before and after it in the cycle leaves its connection alone.\<close>

lemma serve_split:
  "serve_clients env (js @ ks) cs reg s = Some (rm, cs', reg', s') \<Longrightarrow>
     \<exists>rm1 cs1 reg1 s1 rm2. serve_clients env js cs reg s = Some (rm1, cs1, reg1, s1) \<and>
       serve_clients env ks cs1 reg1 s1 = Some (rm2, cs', reg', s') \<and> rm = rm1 @ rm2"
proof (induction js arbitrary: cs reg s rm)
  case (Cons i js)
  have IH: "\<exists>rm1 cs1 reg1 s1 rm2. serve_clients env js c r u = Some (rm1, cs1, reg1, s1) \<and>
      serve_clients env ks cs1 reg1 s1 = Some (rm2, cs', reg', s') \<and> rm' = rm1 @ rm2"
    if "serve_clients env (js @ ks) c r u = Some (rm', cs', reg', s')" for c r u rm'
    by (rule Cons.IH [OF that])
  show ?case
  proof (cases "\<not> hup_or_err (client_revents env i) \<and> pollin (client_revents env i)")
    case True
    then obtain r c' reg0 s0 where
      "handle_client_request (request_envs env i) (cs ! i) reg (before_request env i s) = Some (r, c', reg0, s0)"
      using Cons.prems by (auto split: option.splits)
    with True Cons.prems show ?thesis by (cases r) (auto dest!: IH split: if_splits)
  next
    case False
    with Cons.prems show ?thesis by (auto dest!: IH split: if_splits)
  qed
qed simp

lemma serve_untouched:
  "serve_clients env js cs reg s = Some (rm, cs', reg', s') \<Longrightarrow> i \<notin> set js \<Longrightarrow> cs' ! i = cs ! i"
  by (induction js arbitrary: cs reg s rm) (auto split: if_splits option.splits)

definition turn_taken ::
    "cycle_env \<Rightarrow> nat \<Rightarrow> connection \<Rightarrow> registry \<Rightarrow> shm \<Rightarrow> connection \<Rightarrow> bool \<Rightarrow> bool" where
  "turn_taken env i c reg s c' dropped =
     (if hup_or_err (client_revents env i) then dropped \<and> c' = c
      else if pollin (client_revents env i) then
        (case handle_client_request (request_envs env i) c reg s of
           None \<Rightarrow> False
         | Some (r, d, reg', s') \<Rightarrow> c' = d \<and> dropped = (case r of Inl e \<Rightarrow> is_connection_error e | Inr u \<Rightarrow> False))
      else \<not> dropped \<and> c' = c)"

lemma serve_turn:
  assumes "serve_clients env (pre @ i # post) cs reg s = Some (rm, cs', reg', s')"
    and out: "i \<notin> set pre" "i \<notin> set post" and "i < length cs"
  shows "\<exists>rm1 cs1 reg1 s1. serve_clients env pre cs reg s = Some (rm1, cs1, reg1, s1) \<and>
    turn_taken env i (cs ! i) reg1 (before_request env i s1) (cs' ! i) (i \<in> set rm)"
proof -
  obtain rm1 cs1 reg1 s1 rm2 where before: "serve_clients env pre cs reg s = Some (rm1, cs1, reg1, s1)"
    and turn: "serve_clients env (i # post) cs1 reg1 s1 = Some (rm2, cs', reg', s')" and rm: "rm = rm1 @ rm2"
    using serve_split [OF assms(1)] by blast
  have c: "cs1 ! i = cs ! i" "i < length cs1" "i \<notin> set rm1"
    using serve_untouched [OF before out(1)] serve_indices [OF before] out(1) assms(4) by auto
  have after: "cs' ! i = ds ! i \<and> i \<notin> set rm'"
    if "serve_clients env post ds reg2 s2 = Some (rm', cs', reg', s')" for ds reg2 s2 rm'
    using serve_untouched [OF that out(2)] serve_indices [OF that] out(2) by auto
  have "turn_taken env i (cs ! i) reg1 (before_request env i s1) (cs' ! i) (i \<in> set rm2)"
  proof (cases "\<not> hup_or_err (client_revents env i) \<and> pollin (client_revents env i)")
    case True
    then obtain r c' reg2 s2 where
      h: "handle_client_request (request_envs env i) (cs1 ! i) reg1 (before_request env i s1) = Some (r, c', reg2, s2)"
      using turn by (auto split: option.splits)
    then obtain rm' where rest: "serve_clients env post (cs1[i := c']) reg2 s2 = Some (rm', cs', reg', s')"
      "rm2 = (case r of Inr u \<Rightarrow> rm' | Inl e \<Rightarrow> if is_connection_error e then i # rm' else rm')"
      using True turn by auto
    have "cs' ! i = c'" using after [OF rest(1)] c(2) by simp
    with True h c(1) rest(2) after [OF rest(1)] show ?thesis by (cases r) (auto simp: turn_taken_def)
  next
    case False
    with turn c(1) show ?thesis by (auto simp: turn_taken_def split: if_splits dest: after)
  qed
  moreover have "(i \<in> set rm) = (i \<in> set rm2)" using c(3) by (simp add: rm)
  ultimately have "turn_taken env i (cs ! i) reg1 (before_request env i s1) (cs' ! i) (i \<in> set rm)" by simp
  with before show ?thesis by (intro exI conjI)
qed

section \<open>Removing clients\<close>

lemma dedup_distinct: "sorted xs \<Longrightarrow> sorted_wrt (<) (dedup xs) \<and> set (dedup xs) = set xs"
proof (induction xs rule: dedup.induct)
  case (1 x y zs)
  then show ?case by (auto simp: order_less_le)
qed auto

lemma remove_each_snoc:
  "remove_each (js @ [i]) xs =
     Option.bind (remove_each js xs) (\<lambda>ys. if i < length ys then Some (take i ys @ drop (Suc i) ys) else None)"
  by (induction js arbitrary: xs) auto

lemma nths_remove_above:
  "i < length xs \<Longrightarrow> \<forall>j \<in> S. i < j \<Longrightarrow>
     (let ys = nths xs (- S) in i < length ys \<and> take i ys @ drop (Suc i) ys = nths xs (- insert i S))"
proof (induction xs arbitrary: i S)
  case (Cons x xs)
  show ?case
  proof (cases i)
    case 0
    have "(0 :: nat) \<notin> S" using Cons.prems(2) 0 by auto
    moreover have "{j. Suc j \<in> - S} = {j. Suc j \<in> - insert 0 S}" by auto
    ultimately show ?thesis by (simp add: 0 nths_Cons)
  next
    case (Suc k)
    have "0 \<notin> S" "\<forall>j \<in> {j. Suc j \<in> S}. k < j" using Cons.prems(2) Suc by auto
    moreover have "{j. Suc j \<in> - S} = - {j. Suc j \<in> S}"
      "{j. Suc j \<in> - insert (Suc k) S} = - insert k {j. Suc j \<in> S}" by auto
    ultimately show ?thesis
      using Cons.IH [of k "{j. Suc j \<in> S}"] Cons.prems(1) by (simp add: Suc nths_Cons Let_def)
  qed
qed simp

lemma remove_each_rev:
  "sorted_wrt (<) js \<Longrightarrow> \<forall>j \<in> set js. j < length xs \<Longrightarrow> remove_each (rev js) xs = Some (nths xs (- set js))"
proof (induction js)
  case Nil
  then show ?case by (simp add: nths_all)
next
  case (Cons j js)
  then have "remove_each (rev js) xs = Some (nths xs (- set js))" by simp
  moreover have "let ys = nths xs (- set js) in
      j < length ys \<and> take j ys @ drop (Suc j) ys = nths xs (- insert j (set js))"
    using Cons.prems by (intro nths_remove_above) auto
  ultimately show ?case by (simp add: remove_each_snoc Let_def)
qed

lemma remove_clients_nths:
  "\<forall>j \<in> set rm. j < length xs \<Longrightarrow> remove_clients rm xs = Some (nths xs (- set rm))"
  using dedup_distinct [of "sort rm"] remove_each_rev [of "dedup (sort rm)" xs]
  by (simp add: remove_clients_def)

section \<open>The tick\<close>

lemma registry_inv_store:
  "registry_inv reg (store r w v s) \<longleftrightarrow> registry_inv reg s"
  "registry_inv reg (futex_wake r w s) \<longleftrightarrow> registry_inv reg s"
  by (simp_all add: registry_inv_def shm_simps)

text \<open>A schedule of spurious failures only, that ends in a round that succeeds.\<close>

definition spurious_only :: "arm_schedule \<Rightarrow> bool" where
  "spurious_only sched \<longleftrightarrow> (\<forall>(f, b) \<in> set sched. f = (\<lambda>s. s)) \<and> (\<lambda>s. s, False) \<in> set sched"

lemma arm_spurious:
  assumes "spurious_only sched"
  shows "arm_loop r deadline sched s =
     (if load r Expiration_Word s = SENTINEL then (Some (Inl InterlockReaped), s)
      else if deadline \<le> load r Expiration_Word s then (Some (Inr ()), s)
      else (Some (Inr ()), store r Expiration_Word deadline s))"
  using assms
proof (induction sched)
  case Nil
  then show ?case by (simp add: spurious_only_def)
next
  case (Cons x sched)
  obtain b where x: "x = (\<lambda>s. s, b)" using Cons.prems by (cases x) (auto simp: spurious_only_def)
  show ?case
  proof (cases b)
    case True
    with Cons.prems have "spurious_only sched" by (auto simp: spurious_only_def x)
    with Cons.IH True show ?thesis
      by (auto simp: x Let_def compare_exchange_weak_def max_def split: if_splits)
  next
    case False
    then show ?thesis
      by (auto simp: x Let_def compare_exchange_weak_def max_def split: if_splits)
  qed
qed

text \<open>A cycle during which nobody else writes to shared memory.\<close>

definition cycle_undisturbed :: "cycle_env \<Rightarrow> bool" where
  "cycle_undisturbed env \<longleftrightarrow>
     (\<forall>i. before_request env i = (\<lambda>s. s)) \<and> (\<forall>i. reap_gap (request_envs env i) = no_gap) \<and>
     before_tick env = (\<lambda>s. s) \<and> (\<exists>order. eval_sched env = isolated order) \<and>
     after_pass env = (\<lambda>s. s) \<and> spurious_only (refresh_sched env)"

lemma tick_isolated:
  assumes "registry_inv reg s" and "clock reg = Some clk" and quiet: "cycle_undisturbed env"
  obtains reg' s' where "tick env clk reg s = Some (reg', s')" and "keeps reg s reg' s'"
    and "load clk Open_Word s' = clock_now env div NANOS_PER_MS"
    and "load clk Closed_Word s' = load clk Closed_Word s"
    and "load clk Expiration_Word s' =
      (if load clk Expiration_Word s = SENTINEL then SENTINEL
       else max (load clk Expiration_Word s) (refresh_now env + 1000000000))"
    and "by_name reg' \<subseteq>\<^sub>m by_name reg"
proof -
  let ?ms = "clock_now env div NANOS_PER_MS"
  let ?s1 = "store clk Open_Word ?ms s"
  obtain order where sched: "eval_sched env = isolated order"
    and calm: "before_tick env = (\<lambda>s. s)" "after_pass env = (\<lambda>s. s)" "spurious_only (refresh_sched env)"
    using quiet by (auto simp: cycle_undisturbed_def)
  have inv1: "registry_inv reg ?s1" using assms(1) by (simp add: registry_inv_store)
  obtain reg' s2 where 2: "evaluate_all ?ms (eval_now env) (eval_sched env) reg ?s1 = Some (reg', s2)"
    "registry_inv reg' s2" "next_region ?s1 \<le> next_region s2" "clock reg' = clock reg"
    "by_name reg' \<subseteq>\<^sub>m by_name reg"
    using evaluate_all_inv [OF inv1, of "eval_sched env"] sched schedule_ok_isolated by metis
  note frame = evaluate_all_frame [OF 2(1) [unfolded sched]]
  have clk: "mem s2 clk = mem ?s1 clk" by (rule frame(2) [OF inv1 assms(2)])
  let ?s3 = "futex_wake clk Open_Word s2" and ?d = "refresh_now env + 1000000000"
  define s' where "s' = (if load clk Expiration_Word s2 = SENTINEL \<or> ?d \<le> load clk Expiration_Word s2 then ?s3
      else store clk Expiration_Word ?d ?s3)"
  have "tick env clk reg s = Some (reg', s')"
    by (auto simp: tick_def Let_def calm(1,2) 2(1,4) assms(2) refresh_clock_expiration_def interlock_arm_def
        arm_spurious [OF calm(3)] shm_simps s'_def)
  moreover have "keeps reg s reg' s'"
  proof -
    have "orphan reg r \<Longrightarrow> r \<noteq> clk" for r using assms(2) by (auto simp: orphan_def clock_def)
    then show ?thesis
      using 2(2-4) frame(1) by (auto simp: keeps_def s'_def registry_inv_store shm_simps)
  qed
  moreover have l2: "load clk w s2 = (if w = Open_Word then ?ms else load clk w s)" for w
  proof -
    have "load clk w s2 = load clk w ?s1" using clk by (simp add: load_def)
    then show ?thesis by (simp add: shm_simps)
  qed
  have "load clk Open_Word s' = ?ms" "load clk Closed_Word s' = load clk Closed_Word s"
    by (simp_all add: s'_def l2 shm_simps)
  moreover have "load clk Expiration_Word s' =
      (if load clk Expiration_Word s = SENTINEL then SENTINEL else max (load clk Expiration_Word s) ?d)"
    by (auto simp: s'_def l2 shm_simps max_def)
  ultimately show thesis using 2(5) by (intro that)
qed

section \<open>The event loop\<close>

definition daemon_inv :: "daemon \<Rightarrow> bool" where
  "daemon_inv d \<longleftrightarrow> registry_inv (reg_of d) (shm_of d) \<and> clock (reg_of d) = Some (clock_handle d)"

lemma accept_loop_ends:
  "(ar, nb) \<in> set as \<Longrightarrow> (\<And>c. ar \<noteq> Accepted c) \<Longrightarrow> accept_loop as cs \<noteq> None"
proof (induction as cs rule: accept_loop.induct)
  case (2 a b later cs)
  then show ?case by (cases a) (auto split: sum.splits)
qed simp

lemma accept_loop_append: "accept_loop as cs = Some cs' \<Longrightarrow> \<exists>fresh. cs' = cs @ fresh"
  by (induction as cs rule: accept_loop.induct)
     (auto split: sum.splits option.splits)

section \<open>Replies\<close>

text \<open>A socket that takes a whole frame at once.\<close>

lemma send_response_whole:
  assumes "encode_response resp = Inr f" and "replies c = Wrote n # rs" and "length f \<le> n"
  shows "send_response resp c =
    Some (Inr (), c\<lparr>replies := rs, sent := sent c @ f\<rparr>)"
proof -
  obtain p where "f = u32_to_le_bytes (of_nat (length p)) @ p"
    using assms(1) resp_codec.frame_layout [of resp f] by (auto simp: encode_response_def)
  then have "f \<noteq> []" by (simp flip: length_greater_0_conv)
  moreover from this assms(3) have "n \<noteq> 0" by (cases n) auto
  ultimately show ?thesis
    using assms by (cases rs) (simp_all add: send_response_def)
qed

lemma encode_error_response:
  "length m + 5 \<le> MAX_MESSAGE_SIZE \<Longrightarrow>
     \<exists>f. encode_response (Error_Response code m) = Inr f \<and> length f = length m + 9"
  by (simp add: encode_response_def encode_string_def Let_def frame_of_def MAX_MESSAGE_SIZE_def)

section \<open>Properties\<close>

text \<open>
  A cycle always completes once its I/O has.  When poll has not failed for good, the
  accept loop has ended and every polled client has been served, then nothing after that
  panics or hangs: the indices to remove are in range, so exactly the collected clients go and
  the others stay in order, the clock's open count is the current time in milliseconds, and
  the clock's deadline is extended to a second from the refresh.
\<close>

theorem daemon_cycle_completes:
  assumes "daemon_inv d" and "poll_errno env = EINTR \<or> (\<forall>t. 0 \<le> poll_ret env t)"
    and "(if listener_in env then accept_loop (accepts env) (clients d) else Some (clients d)) = Some cs"
    and "serve_clients env [0..<length (clients d)] cs (reg_of d) (shm_of d) = Some (rm, cs', reg', s')"
    and "cycle_undisturbed env"
    and "load (clock_handle d) Expiration_Word s' \<noteq> SENTINEL"
  shows "\<exists>d'. daemon_cycle env d = Some (Inr d') \<and> daemon_inv d' \<and>
    clients d' = nths cs' (- set rm) \<and> cycle d' = cycle d + 1 \<and>
    load (clock_handle d) Open_Word (shm_of d') = clock_now env div NANOS_PER_MS \<and>
    load (clock_handle d) Expiration_Word (shm_of d') =
      max (load (clock_handle d) Expiration_Word s') (refresh_now env + 1000000000)"
proof -
  have k: "keeps (reg_of d) (shm_of d) reg' s'" "length cs' = length cs" "set rm \<subseteq> {0..<length (clients d)}"
    using quiet_requests.serving [OF _ _ _ assms(4)] serve_indices [OF assms(4)] assms(1,5)
    by (simp_all add: daemon_inv_def cycle_undisturbed_def)
  then have inv: "registry_inv reg' s'" and clk: "clock reg' = Some (clock_handle d)"
    using assms(1) by (simp_all add: keeps_def daemon_inv_def)
  have "length (clients d) \<le> length cs"
    using assms(3) accept_loop_append by (fastforce split: if_splits)
  then have rm: "remove_clients rm cs' = Some (nths cs' (- set rm))"
    using k(2,3) by (intro remove_clients_nths) auto
  obtain reg'' s'' where t: "tick env (clock_handle d) reg' s' = Some (reg'', s'')" "keeps reg' s' reg'' s''"
    "load (clock_handle d) Open_Word s'' = clock_now env div NANOS_PER_MS"
    "load (clock_handle d) Expiration_Word s'' =
       max (load (clock_handle d) Expiration_Word s') (refresh_now env + 1000000000)"
    using tick_isolated [OF inv clk assms(5)] assms(6) by (metis (full_types))
  define d' where "d' = d\<lparr>cycle := cycle d + 1, clients := nths cs' (- set rm), reg_of := reg'', shm_of := s''\<rparr>"
  have "\<not> (poll_ret env t < 0 \<and> poll_errno env \<noteq> EINTR)" for t
    using assms(2) by (metis not_less)
  then have "daemon_cycle env d = Some (Inr d')"
    using assms(3,4) rm t(1) by (cases "listener_in env") (auto simp: daemon_cycle_def Let_def d'_def simp del: upt_Suc)
  moreover have "daemon_inv d'" using t(2) clk by (simp add: d'_def daemon_inv_def keeps_def)
  ultimately show ?thesis using t by (simp add: d'_def)
qed

text \<open>
  C37: A malformed request is answered and costs nothing else.  When a complete payload, or its
  prefix, is rejected as a protocol fault, the registry and shared memory are untouched, the
  client stays connected, and (given room in the socket) it is sent one InvalidRequest
  response, which decodes to the text of the fault.
\<close>

theorem malformed_request_answered:
  assumes "recv_request (incoming c) = Some (Inl (Protocol fault), evs)" and "fault_sizes_ok fault"
    and "replies c = Wrote n # rs" and "100 \<le> n"
  shows "\<exists>f. handle_client_request env c reg s =
      Some (Inr (), c\<lparr>incoming := evs, replies := rs, sent := sent c @ f\<rparr>, reg, s) \<and>
    decode_response (drop LENGTH_PREFIX_BYTES f) =
      Inr (Error_Response ERR_INVALID_REQUEST (protocol_fault_display fault))"
proof -
  let ?m = "protocol_fault_display fault"
  have "length ?m \<le> 80" by (rule protocol_fault_display_length [OF assms(2)])
  then obtain f where f: "encode_response (resp_invalid_request ?m) = Inr f" "length f \<le> n"
    using encode_error_response [of ?m ERR_INVALID_REQUEST] assms(4)
    by (auto simp: resp_invalid_request_def MAX_MESSAGE_SIZE_def)
  have "wf_response (resp_invalid_request ?m)"
    by (simp add: resp_invalid_request_def utf8_string_ascii)
  then have "decode_response (drop LENGTH_PREFIX_BYTES f) = Inr (resp_invalid_request ?m)"
    using resp_codec.decode_frame(1) f(1) by (simp add: encode_response_def)
  moreover have "handle_client_request env c reg s =
      Some (Inr (), c\<lparr>incoming := evs, replies := rs, sent := sent c @ f\<rparr>, reg, s)"
    using send_response_whole [OF f(1), of "c\<lparr>incoming := evs\<rparr>" n rs] f(2) assms(1,3)
    by (simp add: handle_client_request_def Let_def reply_ignoring_def)
  ultimately show ?thesis by (auto simp: resp_invalid_request_def)
qed

text \<open>
  A long name that is not registered gets no answer.  For a name of 4054 to 4092 bytes the
  attach request still fits its frame, but the error text repeats the name behind the prefix
  InterlockNotFound twice, the response does not fit, and the handler fails without sending
  anything and without dropping the client, which is left waiting.
\<close>

theorem long_unknown_name_unanswered:
  assumes "by_name reg name = None" and "4054 \<le> length name" and "length name \<le> 4092"
  shows "(\<exists>f. encode_request (AttachInterlock name) = Inr f) \<and>
    (\<exists>e. dispatch env (AttachInterlock name) c reg s = Some (Inl e, c, reg, s) \<and> \<not> is_connection_error e)"
  using assms
  by (simp add: encode_request_def encode_string_def Let_def frame_of_def MAX_MESSAGE_SIZE_def attach_def
      reply_def send_response_def encode_response_def resp_interlock_not_found_def)

text \<open>The timeout as a number of milliseconds, while it fits 32 bits.\<close>

lemma poll_timeout_unat:
  assumes "unat anch + unat cyc * 1000000 + 1000000 < 2 ^ 64"
    and "unat now < unat anch + unat cyc * 1000000"
    and "unat anch + unat cyc * 1000000 \<le> unat now + (2 ^ 32 - 1) * 1000000"
  shows "unat (poll_timeout anch cyc now) =
    (unat anch + unat cyc * 1000000 - unat now + 999999) div 1000000"
proof -
  let ?b = "unat anch + unat cyc * 1000000"
  have m: "unat (cyc * NANOS_PER_MS) = unat cyc * 1000000"
    using assms(1) by (subst unat_mult_u64) simp_all
  have b: "unat (anch + cyc * NANOS_PER_MS) = ?b"
    using assms(1) m by (subst unat_plus_u64) simp_all
  let ?d = "?b - unat now"
  let ?w = "anch + cyc * NANOS_PER_MS - now"
  have d: "unat ?w = ?d" using assms(2) by (subst unat_sub) (simp_all add: word_le_nat_alt b)
  have d1: "unat (?w + NANOS_PER_MS) = ?d + 1000000"
    using assms(1) d by (subst unat_plus_u64) simp_all
  then have d2: "unat (?w + NANOS_PER_MS - 1) = ?d + 999999"
    by (subst unat_sub) (simp_all add: word_le_nat_alt)
  define q where "q = (?d + 999999) div 1000000"
  have q: "q < 2 ^ 32" using assms(2,3) unfolding q_def
    by (intro less_mult_imp_div_less) linarith
  have "unat ((?w + NANOS_PER_MS - 1) div NANOS_PER_MS) = q"
    by (simp only: unat_div_distrib d2 unat_NANOS q_def)
  then have "unat (poll_timeout anch cyc now) = q mod 2 ^ 32"
    using assms(2) unfolding poll_timeout_def Let_def
    by (simp only: word_less_nat_alt b if_True unat_ucast_u32)
  then show ?thesis using q by (simp only: mod_less q_def)
qed

lemma sint_i32: "sint (t :: i32) = (if unat t < 2 ^ 31 then int (unat t) else int (unat t) - 2 ^ 32)"
proof -
  define u where "u = int (unat t)"
  have "unat t < 2 ^ LENGTH(32)" by (rule unsigned_less)
  then have "unat t < 4294967296" by simp
  then have u: "0 \<le> u" "u < 2 ^ 32" "unat t < 2 ^ 31 \<longleftrightarrow> u < 2 ^ 31" by (auto simp: u_def simp del: of_nat_unat)
  have "sint t = signed_take_bit 31 u" by (simp add: sint_uint u_def)
  then have s: "sint t = (u + 2 ^ 31) mod 2 ^ 32 - 2 ^ 31"
    by (simp add: signed_take_bit_eq_take_bit_shift take_bit_eq_mod)
  show ?thesis
  proof (cases "u < 2 ^ 31")
    case True
    then have "(u + 2 ^ 31) mod 2 ^ 32 = u + 2 ^ 31" using u(1) by (intro mod_pos_pos_trivial) simp_all
    with s True u(3) show ?thesis unfolding u_def [symmetric] by simp
  next
    case False
    have "(u + 2 ^ 31) mod 2 ^ 32 = (u + 2 ^ 31 - 2 ^ 32) mod 2 ^ 32" by (rule minus_mod_self2 [symmetric])
    also have "\<dots> = u + 2 ^ 31 - 2 ^ 32" using False u(2) by (intro mod_pos_pos_trivial) simp_all
    finally show ?thesis using s False u(3) unfolding u_def [symmetric] by simp
  qed
qed

text \<open>
  C32: The poll timeout ends in the millisecond of the boundary, or never.  While the boundary of
  the cycle fits 64 bits with a millisecond to spare: the timeout is zero when the boundary has
  passed; when it is less than \<open>2 ^ 31\<close> milliseconds away, the timeout, a signed 32-bit number, is
  positive, and waiting for it ends at or after the boundary and less than a millisecond after it;
  and from \<open>2 ^ 31\<close> milliseconds on, up to \<open>2 ^ 32 - 1\<close>, it is negative, which poll takes for no
  time limit at all.
\<close>

theorem poll_timeout_bounds:
  assumes "unat anch + unat cyc * 1000000 + 1000000 < 2 ^ 64"
  shows "(let boundary = int (unat anch) + int (unat cyc) * 1000000; t = sint (poll_timeout anch cyc now);
      now_ns = int (unat now) in
    (boundary \<le> now_ns \<longrightarrow> t = 0) \<and>
    (now_ns < boundary \<longrightarrow> boundary \<le> now_ns + (2 ^ 31 - 1) * 1000000 \<longrightarrow>
       0 < t \<and> boundary \<le> now_ns + t * 1000000 \<and> now_ns + t * 1000000 < boundary + 1000000) \<and>
    (now_ns + (2 ^ 31 - 1) * 1000000 < boundary \<longrightarrow> boundary \<le> now_ns + (2 ^ 32 - 1) * 1000000 \<longrightarrow> t < 0))"
proof -
  let ?b = "unat anch + unat cyc * 1000000" and ?t = "poll_timeout anch cyc now"
  let ?d = "?b - unat now" and ?q = "(?b - unat now + 999999) div 1000000"
  have b: "int (unat anch) + int (unat cyc) * 1000000 = int ?b" by simp
  have m: "unat (cyc * NANOS_PER_MS) = unat cyc * 1000000"
    using assms(1) by (subst unat_mult_u64) simp_all
  have "unat (anch + cyc * NANOS_PER_MS) = ?b"
    using assms(1) m by (subst unat_plus_u64) simp_all
  then have "sint ?t = 0" if "?b \<le> unat now"
    using that by (simp add: poll_timeout_def Let_def word_less_nat_alt)
  moreover have "0 < sint ?t \<and> int ?b \<le> int (unat now) + sint ?t * 1000000 \<and>
      int (unat now) + sint ?t * 1000000 < int ?b + 1000000"
    if far: "unat now < ?b" "?b \<le> unat now + (2 ^ 31 - 1) * 1000000"
  proof -
    have q: "unat ?t = ?q" by (rule poll_timeout_unat [OF assms far(1)]) (use far(2) in simp)
    have "?q < 2 ^ 31" using far by (intro less_mult_imp_div_less) linarith
    then have t: "sint ?t = int ?q" by (simp add: sint_i32 q)
    have "?d \<le> ?q * 1000000" "?q * 1000000 < ?d + 1000000" by (rule ceil_div_bounds, simp)+
    then have "0 < ?q" "?b \<le> unat now + ?q * 1000000" "unat now + ?q * 1000000 < ?b + 1000000"
      using far(1) by linarith+
    then show ?thesis unfolding t by linarith
  qed
  moreover have "sint ?t < 0"
    if far: "unat now + (2 ^ 31 - 1) * 1000000 < ?b" "?b \<le> unat now + (2 ^ 32 - 1) * 1000000"
  proof -
    have q: "unat ?t = ?q" by (rule poll_timeout_unat [OF assms _ far(2)]) (use far(1) in simp)
    have "2 ^ 31 \<le> ?q" using far(1) by (intro less_eq_div_iff_mult_less_eq [THEN iffD2]) simp_all
    moreover have "unat ?t < 2 ^ 32" by (rule order_less_le_trans [OF unsigned_less]) simp
    ultimately show ?thesis by (simp add: sint_i32 q)
  qed
  moreover have "int x \<le> int (unat now) + (2 ^ k - 1) * 1000000 \<longleftrightarrow> x \<le> unat now + (2 ^ k - 1) * 1000000"
    "int (unat now) + (2 ^ k - 1) * 1000000 < int x \<longleftrightarrow> unat now + (2 ^ k - 1) * 1000000 < x" for x k :: nat
  proof -
    have "int (unat now + (2 ^ k - 1) * 1000000) = int (unat now) + (2 ^ k - 1) * 1000000"
      by (simp add: of_nat_diff del: of_nat_unat)
    then show "int x \<le> int (unat now) + (2 ^ k - 1) * 1000000 \<longleftrightarrow> x \<le> unat now + (2 ^ k - 1) * 1000000"
      "int (unat now) + (2 ^ k - 1) * 1000000 < int x \<longleftrightarrow> unat now + (2 ^ k - 1) * 1000000 < x"
      by (metis of_nat_le_iff, metis of_nat_less_iff)
  qed
  ultimately show ?thesis unfolding Let_def b of_nat_le_iff of_nat_less_iff by blast
qed

text \<open>
  Bursts of I/O push the boundary away.  The cycle counter advances on every wake of poll,
  not once a millisecond: after \<open>n\<close> wakes within the millisecond of the anchor the next poll
  waits \<open>n + 1\<close> milliseconds for its boundary when no further I/O comes, and nothing is
  evaluated meanwhile.
\<close>

theorem poll_timeout_grows:
  assumes "n < 2 ^ 31 - 1" and "unat anch + 2 ^ 52 < 2 ^ 64"
  shows "sint (poll_timeout anch (of_nat n + 1) anch) = int n + 1"
proof -
  have c: "unat (of_nat n + 1 :: u64) = n + 1"
    using assms(1) by (subst unat_plus_u64) (simp_all add: unat_of_nat)
  have "unat (poll_timeout anch (of_nat n + 1) anch) = ((n + 1) * 1000000 + 999999) div 1000000"
    using assms by (subst poll_timeout_unat) (simp_all add: c)
  then show ?thesis using assms(1) by (simp add: sint_i32)
qed

text \<open>
  A response cut short by a full socket leaves its client in the table.  When the socket
  takes a part of the response and then reports EAGAIN, the handler's error is not one of a
  dead connection, and what the client has been sent is a truncated frame.
\<close>

lemma partial_write_keeps_client:
  assumes "encode_response resp = Inr f" and "0 < n" and "n < length f"
    and "replies c = Wrote n # Write_Failed EAGAIN # rs"
  shows "\<exists>e c'. reply resp c reg s = Some (Inl e, c', reg, s) \<and> \<not> is_connection_error e \<and>
    sent c' = sent c @ take n f"
proof -
  have "f \<noteq> []" "drop n f \<noteq> []" using assms(2,3) by auto
  then show ?thesis
    using assms by (simp add: reply_def send_response_def EPIPE_def EAGAIN_def ECONNRESET_def
        is_interrupted_def EINTR_def)
qed

section \<open>Witnesses\<close>

definition sample_env :: cycle_env where
  "sample_env =
     \<lparr>poll_now = 5000000000, poll_ret = (\<lambda>_. 0), poll_errno = 0, listener_in = False, accepts = [],
      client_revents = (\<lambda>i. \<lparr>hup_or_err = False, pollin = False\<rparr>),
      request_envs = (\<lambda>i. \<lparr>alloc = good_replies, reap_gap = no_gap, create_now = 0, dup_ret = 9, dup_errno = 0\<rparr>),
      before_request = (\<lambda>_ s. s), before_tick = (\<lambda>s. s), clock_now = 5001000000, eval_now = 5001000000, eval_sched = isolated sample_order,
      after_pass = (\<lambda>s. s),
      refresh_now = 5001000000, refresh_sched = undisturbed\<rparr>"

definition sample_daemon :: daemon where
  "sample_daemon =
     \<lparr>anchor = 5000000000, cycle = 0, clock_handle = 0, clients = [], reg_of = sample_registry,
      shm_of = sample_shm 1000\<rparr>"

lemma sample_clock: "clock sample_registry = Some 0"
  by (simp add: clock_def sample_registry_def clock_entry_def)

lemma sample_daemon: "daemon_inv sample_daemon" "cycle_undisturbed sample_env"
proof -
  show "daemon_inv sample_daemon"
    using sample_inv [of 1000] sample_clock by (simp add: daemon_inv_def sample_daemon_def)
  show "cycle_undisturbed sample_env"
    unfolding cycle_undisturbed_def sample_env_def spurious_only_def undisturbed_def
    by (auto intro!: exI [of _ sample_order])
qed

lemma daemon_cycle_completes_witness:
  "\<exists>d'. daemon_cycle sample_env sample_daemon = Some (Inr d') \<and> daemon_inv d' \<and> cycle d' = 1"
proof -
  have "load (clock_handle sample_daemon) Expiration_Word (sample_shm 1000) \<noteq> SENTINEL"
    by (simp add: sample_daemon_def load_def sample_shm_def SENTINEL_def)
  from daemon_cycle_completes [OF sample_daemon(1) _ _ _ sample_daemon(2) this,
      of "[]" "[]" "[]" sample_registry]
  show ?thesis by (auto simp: sample_env_def sample_daemon_def)
qed

lemma malformed_request_answered_witness:
  "\<exists>evs f c'. handle_client_request (request_envs sample_env 0)
      \<lparr>incoming = [Bytes (u32_to_le_bytes 5000)], replies = [Wrote 100], sent = [], sent_fds = []\<rparr>
      sample_registry (sample_shm 0) = Some (Inr (), c', sample_registry, sample_shm 0) \<and>
    decode_response (drop LENGTH_PREFIX_BYTES (sent c')) = Inr (Error_Response ERR_INVALID_REQUEST
      (protocol_fault_display (FrameTooLarge 5000 MAX_MESSAGE_SIZE)))"
proof -
  let ?c = "\<lparr>incoming = [Bytes (u32_to_le_bytes 5000)], replies = [Wrote 100], sent = [], sent_fds = []\<rparr>"
  have "recv_request (incoming ?c) = Some (Inl (Protocol (FrameTooLarge 5000 MAX_MESSAGE_SIZE)), [])"
    by (simp add: recv_request_def read_frame_prefix_def read_exact_retrying_def read_loop.simps
        LENGTH_PREFIX_BYTES_def MAX_MESSAGE_SIZE_def le32.from_to_le flip: length_greater_0_conv)
  from malformed_request_answered [OF this, of 100 "[]" "request_envs sample_env 0" sample_registry "sample_shm 0"]
  show ?thesis by (auto simp: MAX_MESSAGE_SIZE_def)
qed

lemma long_unknown_name_unanswered_witness:
  "\<exists>e. dispatch (request_envs sample_env 0) (AttachInterlock (replicate 4054 CHR ''x''))
       (sample_connection []) sample_registry (sample_shm 0) =
       Some (Inl e, sample_connection [], sample_registry, sample_shm 0) \<and> \<not> is_connection_error e"
proof -
  have "by_name sample_registry (replicate 4054 CHR ''x'') = None"
  proof -
    have "length n < 4054" if "n \<in> dom (by_name sample_registry)" for n :: string
      using that by (auto simp: sample_registry_def split: if_splits)
    then show ?thesis by (metis domIff length_replicate less_irrefl)
  qed
  then show ?thesis using long_unknown_name_unanswered [of sample_registry] by simp
qed

lemma poll_timeout_bounds_witness:
  "let t = sint (poll_timeout 1000000000 3 1001000001) in
     1003000000 \<le> 1001000001 + t * 1000000 \<and> 1001000001 + t * 1000000 < 1004000000"
  using poll_timeout_bounds [of 1000000000 3 1001000001] by (simp add: Let_def)

lemma poll_timeout_grows_witness:
  "sint (poll_timeout 5000000000 (of_nat 1000 + 1) 5000000000) = int 1000 + 1"
  by (rule poll_timeout_grows) simp_all

end
