(* ===== verification/Sdk_Handles.thy ===== *)
theory Sdk_Handles
  imports Interlock_Core
begin

text \<open>
  \<open>abacus-client/src/types.rs\<close> and \<open>interlock.rs\<close>: the lifecycle state of an interlock, the
  outcome of a wait, and the operations of the four handles on shared memory.  The handles
  differ in which operations they offer; an operation several offer is one definition here.

  A wait is a loop of rounds.  In each, other threads and processes act while it sleeps and
  between its accesses to memory, and the clock has a reading.
\<close>

section \<open>Types\<close>

definition DEFAULT_TIMEOUT_NANOS :: u64 where "DEFAULT_TIMEOUT_NANOS = 100000000"

definition DEFAULT_TOUCH_INTERVAL_MS :: u64 where "DEFAULT_TOUCH_INTERVAL_MS = 40"

datatype wait_state = Normal | Overrun | Timeout

definition RTS_TIMEOUT :: wait_state where "RTS_TIMEOUT = Timeout"

definition RTS_OVERRUN :: wait_state where "RTS_OVERRUN = Overrun"

record wait_result =
  wr_completed_at :: u64
  wr_state :: wait_state

datatype InterlockState = State_Closed | State_Open | State_Overrun | State_Expired

definition interlock_state :: "u64 \<Rightarrow> u64 \<Rightarrow> u64 \<Rightarrow> u64 \<Rightarrow> InterlockState" where
  "interlock_state openc closedc expir clock_ns =
     (if openc = SENTINEL \<or> closedc = SENTINEL \<or> expir = SENTINEL then State_Expired
      else if expir \<le> clock_ns then State_Expired
      else let v = sint (openc - closedc) in
      if v < 0 then State_Overrun else if 0 < v then State_Open else State_Closed)"

datatype sdk_watched_word = Sdk_OpenCount | Sdk_ClosedCount

fun to_u8 :: "sdk_watched_word \<Rightarrow> u8" where
  "to_u8 Sdk_OpenCount = 0"
| "to_u8 Sdk_ClosedCount = 1"

definition check_wake_state :: "u64 \<Rightarrow> u64 \<Rightarrow> wait_state" where
  "check_wake_state openc closedc =
     (if closedc = openc then Normal else if openc < closedc then Overrun else Timeout)"

section \<open>Errors of the SDK\<close>

datatype sdk_error =
    Sdk_InterlockReaped
  | Sdk_InterlockNotFound string
  | Sdk_AllocationFailed string
  | Sdk_Transport transport_error
  | Sdk_MmapFailed string
  | Sdk_InvalidRequest string
  | Sdk_UnexpectedResponse string

fun sdk_error_display :: "sdk_error \<Rightarrow> string" where
  "sdk_error_display Sdk_InterlockReaped = ''interlock reaped''"
| "sdk_error_display (Sdk_InterlockNotFound nm) = ''interlock not found: '' @ nm"
| "sdk_error_display (Sdk_AllocationFailed m) = ''allocation failed: '' @ m"
| "sdk_error_display (Sdk_Transport e) = ''transport: '' @ transport_error_display e"
| "sdk_error_display (Sdk_MmapFailed m) = ''mmap failed: '' @ m"
| "sdk_error_display (Sdk_InvalidRequest m) = ''invalid request: '' @ m"
| "sdk_error_display (Sdk_UnexpectedResponse m) = ''unexpected response: '' @ m"

definition sdk_from_transport :: "transport_error \<Rightarrow> sdk_error" where
  "sdk_from_transport e = Sdk_Transport e"

section \<open>Operations without waiting\<close>

definition handle_open :: "region \<Rightarrow> u64 \<Rightarrow> shm \<Rightarrow> shm" where
  "handle_open r h s = futex_wake r Open_Word (fetch_add r Open_Word h s)"

definition handle_close :: "region \<Rightarrow> u64 \<Rightarrow> shm \<Rightarrow> shm" where
  "handle_close r h s = futex_wake r Closed_Word (fetch_add r Closed_Word h s)"

text \<open>The two loads of \<open>peek\<close>, with what others do between them.\<close>

definition peek :: "region \<Rightarrow> (shm \<Rightarrow> shm) \<Rightarrow> shm \<Rightarrow> (u64 \<times> u64) \<times> shm" where
  "peek r others s =
     (let openc = load r Open_Word s; s' = others s in ((openc, load r Closed_Word s'), s'))"

definition handle_value :: "region \<Rightarrow> (shm \<Rightarrow> shm) \<Rightarrow> shm \<Rightarrow> int \<times> shm" where
  "handle_value r others s = (case peek r others s of ((openc, closedc), s') \<Rightarrow> (sint (openc - closedc), s'))"

definition handle_state ::
    "region \<Rightarrow> (shm \<Rightarrow> shm) \<Rightarrow> (shm \<Rightarrow> shm) \<Rightarrow> u64 \<Rightarrow> shm \<Rightarrow> InterlockState \<times> shm" where
  "handle_state r others1 others2 now s =
     (case peek r others1 s of ((openc, closedc), s1) \<Rightarrow>
        let s2 = others2 s1 in (interlock_state openc closedc (load r Expiration_Word s2) now, s2))"

definition completed_at :: "region \<Rightarrow> shm \<Rightarrow> u64" where
  "completed_at r s = load r Closed_Word s"

definition clock_now_ms :: "region \<Rightarrow> shm \<Rightarrow> u64" where
  "clock_now_ms r s = load r Open_Word s"

definition clock_start_time_ms :: "region \<Rightarrow> shm \<Rightarrow> u64" where
  "clock_start_time_ms r s = load r Closed_Word s"

definition clock_uptime_ms :: "region \<Rightarrow> (shm \<Rightarrow> shm) \<Rightarrow> shm \<Rightarrow> int \<times> shm" where
  "clock_uptime_ms r others s = handle_value r others s"

text \<open>Any error of the arm is reported as reaped.\<close>

definition handle_touch ::
    "region \<Rightarrow> u64 \<Rightarrow> u64 \<Rightarrow> arm_schedule \<Rightarrow> shm \<Rightarrow> (sdk_error + unit) option \<times> shm" where
  "handle_touch r ms now sched s =
     (case interlock_arm r (ms_to_nanos ms) now sched s of
        (res, s') \<Rightarrow> (map_option (map_err (\<lambda>_. Sdk_InterlockReaped)) res, s'))"

text \<open>
  \<open>free\<close> of an owner's handle, once its touch thread has been joined, and of an attacher's.
\<close>

definition owner_free :: "region \<Rightarrow> shm \<Rightarrow> shm" where
  "owner_free r s = interlock_free r s"

definition attached_free :: "region \<Rightarrow> shm \<Rightarrow> shm" where
  "attached_free r s =
     futex_wake r Closed_Word (futex_wake r Open_Word (store r Open_Word SENTINEL s))"

section \<open>Waiting for a word\<close>

definition ETIMEDOUT :: errno where "ETIMEDOUT = 110"

text \<open>
  One round of a wait: what others do between its first and second load, while it sleeps,
  between the loads after the sleep, and before the next round; the result of the futex call
  with its error number; and the reading of the clock.
\<close>

record wait_round =
  between :: "shm \<Rightarrow> shm"
  asleep :: "shm \<Rightarrow> shm"
  awake :: "shm \<Rightarrow> shm"
  around :: "shm \<Rightarrow> shm"
  futex_ret :: int
  futex_errno :: errno
  reading :: u64

definition wait_word_round ::
    "region \<Rightarrow> word_id \<Rightarrow> u64 \<Rightarrow> wait_round \<Rightarrow> shm \<Rightarrow> shm + (sdk_error + u64) \<times> shm" where
  "wait_word_round r w target rd s =
     (let current = load r w s in
      if current = SENTINEL then Inr (Inl Sdk_InterlockReaped, s)
      else if target \<le> current then Inr (Inr current, s)
      else let s1 = asleep rd s; expir = load r Expiration_Word s1 in
      if expir = SENTINEL \<or> expir < reading rd then Inr (Inl Sdk_InterlockReaped, s1)
      else Inl (around rd s1))"

definition wait_open ::
    "region \<Rightarrow> u64 \<Rightarrow> wait_round list \<Rightarrow> shm \<Rightarrow> (sdk_error + u64) option \<times> shm" where
  "wait_open r target sched s = run_rounds (wait_word_round r Open_Word target) sched s"

definition wait_close ::
    "region \<Rightarrow> u64 \<Rightarrow> wait_round list \<Rightarrow> shm \<Rightarrow> (sdk_error + u64) option \<times> shm" where
  "wait_close r target sched s = run_rounds (wait_word_round r Closed_Word target) sched s"

section \<open>What a wait promises\<close>

text \<open>
  The contract of every wait of the SDK: a round that ends the wait leaves a result that is
  good for the round, the memory it began with and the memory it ends in.  The provider shows it
  of one round; the whole wait has it of its last round, which begins where the rounds before it
  have led.
\<close>

locale wait_loop =
  fixes round_of :: "'x \<Rightarrow> shm \<Rightarrow> shm + 'r \<times> shm"
    and good :: "'x \<Rightarrow> shm \<Rightarrow> 'r \<Rightarrow> shm \<Rightarrow> bool"
  assumes round_good: "round_of x u = Inr (r, t) \<Longrightarrow> good x u r t"
begin

lemma result_last:
  assumes "run_rounds round_of xs s = (Some r, t)"
  shows "\<exists>pre x post u. xs = pre @ x # post \<and> run_rounds round_of pre s = (None, u) \<and> good x u r t"
  using run_rounds_last [OF assms] round_good by blast

lemma result_good:
  assumes "run_rounds round_of xs s = (Some r, t)"
  shows "\<exists>x u. x \<in> set xs \<and> good x u r t"
  using result_last [OF assms] by auto

end

definition good_word :: "region \<Rightarrow> word_id \<Rightarrow> u64 \<Rightarrow> sdk_error + u64 \<Rightarrow> shm \<Rightarrow> bool" where
  "good_word r w target res t \<longleftrightarrow>
     (case res of
        Inr v \<Rightarrow> load r w t = v \<and> target \<le> v \<and> v \<noteq> SENTINEL
      | Inl e \<Rightarrow> e = Sdk_InterlockReaped)"

interpretation word_wait: wait_loop "wait_word_round r w target" "\<lambda>_ _. good_word r w target"
  by unfold_locales (auto simp: wait_word_round_def good_word_def Let_def split: if_splits)

lemma wait_word_ends:
  assumes "rd \<in> set sched" and "\<And>s. load r Expiration_Word (asleep rd s) = SENTINEL"
  shows "fst (run_rounds (wait_word_round r w target) sched s) \<noteq> None"
  using assms by (intro run_rounds_ends [of rd]) (auto simp: wait_word_round_def Let_def)

section \<open>Properties\<close>


text \<open>
  C40: Termination by an attacher is not noticed by a touch and can be undone.  \<open>free\<close> of an
  attached interlock only writes the sentinel into the open count: the interlock then counts
  as terminated, yet a \<open>touch\<close> of its owner succeeds, because arming looks at the expiration
  alone; and a later \<open>open(h)\<close>, from a handle that has not noticed, wraps the count around to
  \<open>h - 1\<close>, after which no word is at the sentinel and the interlock counts as alive again.
\<close>

theorem attached_free_undone:
  assumes "h \<noteq> 0" and "load r Closed_Word s \<noteq> SENTINEL" and "load r Expiration_Word s \<noteq> SENTINEL"
  shows "interlock_is_terminated r (attached_free r s) \<and>
    fst (handle_touch r ms now undisturbed (attached_free r s)) = Some (Inr ()) \<and>
    load r Open_Word (handle_open r h (attached_free r s)) = h - 1 \<and>
    \<not> interlock_is_terminated r (handle_open r h (attached_free r s))"
proof -
  have "load r Expiration_Word (attached_free r s) \<noteq> SENTINEL"
    using assms(3) by (simp add: attached_free_def shm_simps)
  then have "fst (handle_touch r ms now undisturbed (attached_free r s)) = Some (Inr ())"
    by (simp add: handle_touch_def interlock_arm_def arm_undisturbed)
  moreover have "h - 1 \<noteq> SENTINEL" using assms(1) by (simp add: SENTINEL_def)
  ultimately show ?thesis
    using assms(2,3)
    by (simp add: interlock_is_terminated_def attached_free_def handle_open_def fetch_add_def shm_simps)
       (simp add: SENTINEL_def)
qed

section \<open>Witnesses\<close>

abbreviation still :: "u64 \<Rightarrow> wait_round" where
  "still now \<equiv> \<lparr>between = (\<lambda>s. s), asleep = (\<lambda>s. s), awake = (\<lambda>s. s), around = (\<lambda>s. s),
     futex_ret = - 1, futex_errno = ETIMEDOUT, reading = now\<rparr>"


lemma attached_free_undone_witness:
  "\<exists>s :: shm. interlock_is_terminated 0 (attached_free 0 s) \<and>
     \<not> interlock_is_terminated 0 (handle_open 0 5 (attached_free 0 s))"
proof -
  let ?s = "\<lparr>mem = (\<lambda>_. zero_interlock), next_region = 1, trace = []\<rparr>"
  have "load 0 Closed_Word ?s \<noteq> SENTINEL" "load 0 Expiration_Word ?s \<noteq> SENTINEL"
    by (simp_all add: load_def zero_interlock_def SENTINEL_def)
  from attached_free_undone [OF _ this, of 5] show ?thesis by auto
qed

end
