(* ===== verification/Sdk_Touch.thy ===== *)
theory Sdk_Touch
  imports Sdk_Handles
begin

text \<open>
  \<open>abacus-client/src/touch.rs\<close> and \<open>process_clock.rs\<close>: the background threads that keep an
  interlock alive, and the process clock, whose thread also publishes the time.  A round of a
  thread has the stop flag it reads, the clock reading and the schedule of its arm, and what
  others do between its accesses and while it sleeps.
\<close>

record touch_round =
  stop_flag :: bool
  arm_reading :: u64
  arm_sched :: arm_schedule
  before_load :: "shm \<Rightarrow> shm"
  before_store :: "shm \<Rightarrow> shm"
  sleeping :: "shm \<Rightarrow> shm"

text \<open>
  How a thread ends: told to stop, having set its reaped flag, or still inside an arm whose
  schedule has ended.
\<close>

datatype touch_end = Touch_Stopped | Touch_Reaped | Touch_Arming

definition touch_ttl :: "u64 \<Rightarrow> u64" where
  "touch_ttl interval_ms = ms_to_nanos (saturating_mul_u64 interval_ms 2)"

definition touch_step :: "region \<Rightarrow> u64 \<Rightarrow> touch_round \<Rightarrow> shm \<Rightarrow> shm + touch_end \<times> shm" where
  "touch_step r interval_ms rd s =
     (if stop_flag rd then Inr (Touch_Stopped, s)
      else case interlock_arm r (touch_ttl interval_ms) (arm_reading rd) (arm_sched rd) s of
        (None, s') \<Rightarrow> Inr (Touch_Arming, s')
      | (Some (Inl _), s') \<Rightarrow> Inr (Touch_Reaped, s')
      | (Some (Inr _), s') \<Rightarrow> Inl (sleeping rd s'))"

definition touch_thread ::
    "region \<Rightarrow> u64 \<Rightarrow> touch_round list \<Rightarrow> shm \<Rightarrow> touch_end option \<times> shm" where
  "touch_thread r interval_ms rounds s = run_rounds (touch_step r interval_ms) rounds s"

text \<open>The two stores of \<open>new\<close>, with what others do before each.\<close>

definition process_clock_new :: "region \<Rightarrow> region \<Rightarrow> (shm \<Rightarrow> shm) \<Rightarrow> (shm \<Rightarrow> shm) \<Rightarrow> shm \<Rightarrow> shm" where
  "process_clock_new r clk before_closed before_open s =
     (let start_time = load clk Open_Word s;
          s1 = store r Closed_Word start_time (before_closed s)
      in store r Open_Word start_time (before_open s1))"

definition process_clock_step ::
    "region \<Rightarrow> region \<Rightarrow> u64 \<Rightarrow> touch_round \<Rightarrow> shm \<Rightarrow> shm + touch_end \<times> shm" where
  "process_clock_step r clk interval_ms rd s =
     (if stop_flag rd then Inr (Touch_Stopped, s)
      else case interlock_arm r (touch_ttl interval_ms) (arm_reading rd) (arm_sched rd) s of
        (None, s') \<Rightarrow> Inr (Touch_Arming, s')
      | (Some (Inl _), s') \<Rightarrow> Inr (Touch_Reaped, s')
      | (Some (Inr _), s') \<Rightarrow>
         (let s1 = before_load rd s'; clock_now = load clk Open_Word s1;
              s2 = store r Open_Word clock_now (before_store rd s1)
          in Inl (sleeping rd s2)))"

definition process_clock_thread ::
    "region \<Rightarrow> region \<Rightarrow> u64 \<Rightarrow> touch_round list \<Rightarrow> shm \<Rightarrow> touch_end option \<times> shm" where
  "process_clock_thread r clk interval_ms rounds s =
     run_rounds (process_clock_step r clk interval_ms) rounds s"

definition process_clock_uptime_ms :: "region \<Rightarrow> (shm \<Rightarrow> shm) \<Rightarrow> shm \<Rightarrow> int \<times> shm" where
  "process_clock_uptime_ms r others s =
     (let openc = load r Open_Word s; s' = others s in (sint (openc - load r Closed_Word s'), s'))"

definition process_clock_last_seen_ms :: "region \<Rightarrow> shm \<Rightarrow> u64" where
  "process_clock_last_seen_ms r s = load r Open_Word s"

definition process_clock_start_time_ms :: "region \<Rightarrow> shm \<Rightarrow> u64" where
  "process_clock_start_time_ms r s = load r Closed_Word s"

text \<open>A process clock without a thread, after \<open>free\<close>, reports itself as reaped.\<close>

definition process_clock_is_reaped :: "bool option \<Rightarrow> bool" where
  "process_clock_is_reaped thread_flag = (case thread_flag of None \<Rightarrow> True | Some reaped \<Rightarrow> reaped)"

definition process_clock_free :: "region \<Rightarrow> shm \<Rightarrow> shm" where
  "process_clock_free r s = interlock_free r s"

section \<open>Heartbeats\<close>

definition touch_rely :: "region \<Rightarrow> touch_round \<Rightarrow> bool" where
  "touch_rely r rd \<longleftrightarrow>
     (\<forall>(f, b) \<in> set (arm_sched rd). expiration_rely r f) \<and> expiration_rely r (before_load rd) \<and>
     expiration_rely r (before_store rd) \<and> expiration_rely r (sleeping rd)"

lemma expiration_relyD:
  "expiration_rely r f \<Longrightarrow> v \<le> load r Expiration_Word s \<Longrightarrow> v \<le> load r Expiration_Word (f s)"
  by (auto simp: expiration_rely_def intro: order_trans)

text \<open>
  Both threads as one: \<open>publish\<close> is what follows a successful arm.
\<close>

locale heartbeat =
  fixes step :: "touch_round \<Rightarrow> shm \<Rightarrow> shm + touch_end \<times> shm"
    and r :: region
    and ttl :: u64
    and publish :: "touch_round \<Rightarrow> shm \<Rightarrow> shm"
  assumes step_eq: "step rd s =
      (if stop_flag rd then Inr (Touch_Stopped, s)
       else case interlock_arm r ttl (arm_reading rd) (arm_sched rd) s of
         (None, s') \<Rightarrow> Inr (Touch_Arming, s')
       | (Some (Inl e), s') \<Rightarrow> Inr (Touch_Reaped, s')
       | (Some (Inr u), s') \<Rightarrow> Inl (publish rd s'))"
    and publish_rely: "touch_rely r rd \<Longrightarrow> expiration_rely r (publish rd)"
begin

lemma goes_on:
  assumes "step rd s = Inl s'" and "touch_rely r rd"
  shows "arm_reading rd + ttl \<le> load r Expiration_Word s' \<and>
    load r Expiration_Word s \<le> load r Expiration_Word s'"
proof -
  from assms(1) obtain t where t: "interlock_arm r ttl (arm_reading rd) (arm_sched rd) s = (Some (Inr ()), t)"
    and s': "s' = publish rd t"
    by (auto simp: step_eq split: if_splits prod.splits option.splits sum.splits)
  have "arm_reading rd + ttl \<le> load r Expiration_Word t \<and> load r Expiration_Word s \<le> load r Expiration_Word t"
    using arm_result [OF t] assms(2) by (auto simp: touch_rely_def)
  then show ?thesis using expiration_relyD [OF publish_rely [OF assms(2)]] by (auto simp: s')
qed

lemma reaped:
  assumes "step rd s = Inr (Touch_Reaped, s')" and "touch_rely r rd"
  shows "load r Expiration_Word s' = SENTINEL"
proof -
  from assms(1) obtain e where "interlock_arm r ttl (arm_reading rd) (arm_sched rd) s = (Some (Inl e), s')"
    by (auto simp: step_eq split: if_splits prod.splits option.splits sum.splits)
  from arm_result [OF this] assms(2) show ?thesis by (auto simp: touch_rely_def)
qed

text \<open>A thread told to stop stops; one that finds its interlock terminated ends, with its flag set.\<close>

lemma ends:
  assumes "stop_flag rd \<or> load r Expiration_Word s = SENTINEL" and "arm_sched rd \<noteq> []"
  shows "run_rounds step (rd # rest) s = (Some (if stop_flag rd then Touch_Stopped else Touch_Reaped), s)"
proof (cases "stop_flag rd")
  case False
  then have "interlock_arm r ttl (arm_reading rd) (arm_sched rd) s = (Some (Inl InterlockReaped), s)"
    using assms by (cases "arm_sched rd") (auto simp: interlock_arm_def)
  with False show ?thesis by (simp add: step_eq)
qed (simp add: step_eq)

text \<open>The expiration never goes down while the thread runs, and its flag is truthful.\<close>

lemma thread:
  assumes "run_rounds step rounds s = (out, t)" and "\<And>rd. rd \<in> set rounds \<Longrightarrow> touch_rely r rd"
  shows "(out = None \<longrightarrow> load r Expiration_Word s \<le> load r Expiration_Word t) \<and>
    (out = Some Touch_Reaped \<longrightarrow> load r Expiration_Word t = SENTINEL)"
proof -
  let ?I = "\<lambda>x. load r Expiration_Word s \<le> load r Expiration_Word x"
  let ?Q = "\<lambda>x t. x = Touch_Reaped \<longrightarrow> load r Expiration_Word t = SENTINEL"
  have go: "?I s'" if "rd \<in> set rounds" "?I x" "step rd x = Inl s'" for rd x s'
    using goes_on [OF that(3) assms(2) [OF that(1)]] that(2) by (meson order_trans)
  have fin: "?Q y s'" if "rd \<in> set rounds" "?I x" "step rd x = Inr (y, s')" for rd x y s'
    using reaped [OF _ assms(2) [OF that(1)]] that(3) by blast
  have "case out of None \<Rightarrow> ?I t | Some x \<Rightarrow> ?Q x t"
    by (rule run_rounds_rule [where I = ?I and Q = ?Q, OF assms(1) order.refl go fin])
  then show ?thesis by (auto split: option.splits)
qed

end

interpretation touch_beat: heartbeat "touch_step r interval_ms" r "touch_ttl interval_ms" sleeping
  by unfold_locales (auto simp: touch_step_def touch_rely_def split: prod.splits option.splits sum.splits)

text \<open>What the process clock's thread does after a successful arm.\<close>

definition publish_time :: "region \<Rightarrow> region \<Rightarrow> touch_round \<Rightarrow> shm \<Rightarrow> shm" where
  "publish_time r clk rd s =
     (let s1 = before_load rd s
      in sleeping rd (store r Open_Word (load clk Open_Word s1) (before_store rd s1)))"

lemma publish_time_rely:
  assumes "touch_rely r rd"
  shows "expiration_rely r (publish_time r clk rd)"
proof -
  have rely: "expiration_rely r (before_load rd)" "expiration_rely r (before_store rd)"
    "expiration_rely r (sleeping rd)"
    using assms by (simp_all add: touch_rely_def)
  have "load r Expiration_Word s \<le> load r Expiration_Word (publish_time r clk rd s)" for s
  proof -
    let ?s1 = "before_load rd s"
    have "load r Expiration_Word s \<le> load r Expiration_Word (before_store rd ?s1)"
      by (rule expiration_relyD [OF rely(2) expiration_relyD [OF rely(1) order.refl]])
    then have "load r Expiration_Word s \<le>
        load r Expiration_Word (store r Open_Word (load clk Open_Word ?s1) (before_store rd ?s1))"
      by (simp add: shm_simps)
    then show ?thesis unfolding publish_time_def Let_def by (rule expiration_relyD [OF rely(3)])
  qed
  then show ?thesis by (simp add: expiration_rely_def)
qed

interpretation clock_beat:
  heartbeat "process_clock_step r clk interval_ms" r "touch_ttl interval_ms" "publish_time r clk"
  by unfold_locales
     (auto simp: process_clock_step_def publish_time_def Let_def publish_time_rely
      split: prod.splits option.splits sum.splits)

section \<open>Properties\<close>

text \<open>
  C19: A heartbeat keeps its interlock alive, ends when it is terminated, and says so truthfully.
  While nobody lowers the expiration, every round of the touch thread, and of the process
  clock's thread, that goes on leaves a deadline of at least its clock reading plus twice the
  interval, and over any number of rounds the expiration never goes down.  The first round that
  begins with the expiration at the sentinel is the last: the thread ends there, writes nothing
  more, and raises its reaped flag unless it has been told to stop; and it raises the flag only
  with the expiration at the sentinel.
\<close>

theorem heartbeat_keeps_alive:
  assumes "step = touch_step r interval_ms \<or> step = process_clock_step r clk interval_ms"
    and "\<And>rd. rd \<in> set rounds \<Longrightarrow> touch_rely r rd"
  shows "(\<forall>rd \<in> set rounds. \<forall>s s'. step rd s = Inl s' \<longrightarrow>
      arm_reading rd + touch_ttl interval_ms \<le> load r Expiration_Word s') \<and>
    (\<forall>s t. run_rounds step rounds s = (None, t) \<longrightarrow> load r Expiration_Word s \<le> load r Expiration_Word t) \<and>
    (\<forall>s t. run_rounds step rounds s = (Some Touch_Reaped, t) \<longrightarrow> load r Expiration_Word t = SENTINEL) \<and>
    (\<forall>s t rd rest. run_rounds step rounds s = (None, t) \<longrightarrow> load r Expiration_Word t = SENTINEL \<longrightarrow>
      arm_sched rd \<noteq> [] \<longrightarrow>
      run_rounds step (rounds @ rd # rest) s = (Some (if stop_flag rd then Touch_Stopped else Touch_Reaped), t))"
proof -
  have "heartbeat step r (touch_ttl interval_ms) sleeping \<or>
      heartbeat step r (touch_ttl interval_ms) (publish_time r clk)"
    using assms(1) touch_beat.heartbeat_axioms clock_beat.heartbeat_axioms by blast
  then obtain publish where beat: "heartbeat step r (touch_ttl interval_ms) publish" by blast
  show ?thesis
  proof (intro conjI ballI allI impI)
    show "arm_reading rd + touch_ttl interval_ms \<le> load r Expiration_Word s'"
      if "rd \<in> set rounds" "step rd s = Inl s'" for rd s s'
      using heartbeat.goes_on [OF beat that(2) assms(2) [OF that(1)]] by simp
    show "load r Expiration_Word s \<le> load r Expiration_Word t"
      if "run_rounds step rounds s = (None, t)" for s t
      using heartbeat.thread [OF beat that assms(2)] by simp
    show "load r Expiration_Word t = SENTINEL"
      if "run_rounds step rounds s = (Some Touch_Reaped, t)" for s t
      using heartbeat.thread [OF beat that assms(2)] by simp
    show "run_rounds step (rounds @ rd # rest) s = (Some (if stop_flag rd then Touch_Stopped else Touch_Reaped), t)"
      if "run_rounds step rounds s = (None, t)" "load r Expiration_Word t = SENTINEL" "arm_sched rd \<noteq> []" for s t rd rest
      using heartbeat.ends [OF beat disjI2 [OF that(2)] that(3), of rest] that(1)
      by (simp only: run_rounds_append prod.case option.case)
  qed
qed

lemma heartbeat_keeps_alive_witness:
  "\<exists>t. touch_step 0 40 \<lparr>stop_flag = False, arm_reading = 5, arm_sched = undisturbed,
       before_load = (\<lambda>s. s), before_store = (\<lambda>s. s), sleeping = interlock_reap 0\<rparr>
     \<lparr>mem = (\<lambda>_. zero_interlock), next_region = 1, trace = []\<rparr> = Inl t \<and>
     5 + touch_ttl 40 \<le> load 0 Expiration_Word t \<and>
     run_rounds (touch_step 0 40) (replicate 2 \<lparr>stop_flag = False, arm_reading = 5, arm_sched = undisturbed,
       before_load = (\<lambda>s. s), before_store = (\<lambda>s. s), sleeping = interlock_reap 0\<rparr>)
     \<lparr>mem = (\<lambda>_. zero_interlock), next_region = 1, trace = []\<rparr> = (Some Touch_Reaped, t)"
proof -
  let ?rd = "\<lparr>stop_flag = False, arm_reading = 5, arm_sched = undisturbed,
       before_load = (\<lambda>s. s), before_store = (\<lambda>s. s), sleeping = interlock_reap 0\<rparr>"
  let ?s = "\<lparr>mem = (\<lambda>_. zero_interlock), next_region = 1, trace = []\<rparr>"
  have "\<exists>t. touch_step 0 40 ?rd ?s = Inl (interlock_reap 0 t)"
    by (simp add: touch_step_def interlock_arm_def arm_undisturbed)
       (auto simp: load_def zero_interlock_def SENTINEL_def)
  then obtain t where t: "touch_step 0 40 ?rd ?s = Inl t" "load 0 Expiration_Word t = SENTINEL"
    by (auto simp: shm_simps)
  have rely: "touch_rely 0 rd" if "rd \<in> set [?rd]" for rd
    using that by (auto simp: touch_rely_def undisturbed_def expiration_rely_def shm_simps)
  note beat = heartbeat_keeps_alive [where rounds = "[?rd]" and interval_ms = 40, OF disjI1 [OF refl] rely]
  have "arm_reading ?rd + touch_ttl 40 \<le> load 0 Expiration_Word t" using beat t(1) by (meson list.set_intros(1))
  moreover have run: "run_rounds (touch_step 0 40) [?rd] ?s = (None, t)" using t(1) by simp
  have "run_rounds (touch_step 0 40) ([?rd] @ ?rd # []) ?s =
      (Some (if stop_flag ?rd then Touch_Stopped else Touch_Reaped), t)"
    by (rule beat [THEN conjunct2, THEN conjunct2, THEN conjunct2, rule_format, OF _ run t(2)])
      (assumption, simp add: undisturbed_def)
  moreover have "replicate 2 ?rd = [?rd] @ ?rd # []" by (simp add: numeral_2_eq_2)
  ultimately show ?thesis using t(1) by (intro exI [of _ t]) simp
qed

end
