(* ===== verification/Sdk_Waits.thy ===== *)
theory Sdk_Waits
  imports Sdk_Handles
begin

text \<open>
  \<open>abacus-client/src/wait_counter.rs\<close>, \<open>wait_timer.rs\<close>, \<open>wait_cron.rs\<close>, \<open>wait_barrier.rs\<close>
  and \<open>wait_race.rs\<close>: the waits of the SDK, each a loop over the rounds of \<open>Sdk_Handles\<close>.
  \<^const>\<open>None\<close> is a wait that has not ended when its schedule has.
\<close>

section \<open>Raising a target\<close>

text \<open>One round of the compare-exchange loop on the open count.\<close>

definition cas_max_round ::
    "region \<Rightarrow> u64 \<Rightarrow> (shm \<Rightarrow> shm) \<times> bool \<Rightarrow> shm \<Rightarrow> shm + unit \<times> shm" where
  "cas_max_round r target rd s =
     (case rd of (others, spurious) \<Rightarrow>
        let current = load r Open_Word s in
        if target \<le> current then Inr ((), s)
        else case compare_exchange_weak r Open_Word current target spurious (others s) of
               (True, s') \<Rightarrow> Inr ((), s')
             | (False, s') \<Rightarrow> Inl s')"

definition cas_max :: "region \<Rightarrow> u64 \<Rightarrow> arm_schedule \<Rightarrow> shm \<Rightarrow> unit option \<times> shm" where
  "cas_max r target sched s = run_rounds (cas_max_round r target) sched s"

section \<open>WaitCounter\<close>

definition counter_round ::
    "region \<Rightarrow> wait_round \<Rightarrow> shm \<Rightarrow> shm + (sdk_error + wait_result) \<times> shm" where
  "counter_round r rd s =
     (let closedc = load r Closed_Word s; s1 = between rd s; openc = load r Open_Word s1;
          state = check_wake_state openc closedc in
      if state \<noteq> Timeout then Inr (Inr \<lparr>wr_completed_at = closedc, wr_state = state\<rparr>, s1)
      else let s2 = asleep rd s1; closed_now = load r Closed_Word s2;
               s3 = awake rd s2; open_now = load r Open_Word s3;
               state_now = check_wake_state open_now closed_now in
      if state_now \<noteq> Timeout then Inr (Inr \<lparr>wr_completed_at = closed_now, wr_state = state_now\<rparr>, s3)
      else if load r Expiration_Word s3 = SENTINEL then Inr (Inl Sdk_InterlockReaped, s3)
      else if futex_ret rd = - 1 \<and> futex_errno rd = ETIMEDOUT
      then Inr (Inr \<lparr>wr_completed_at = closed_now, wr_state = Timeout\<rparr>, s3)
      else Inl (around rd s3))"

text \<open>
  What a wait does before its first round: it raises its target and arms.  The schedules of the
  two compare-exchange loops and the reading of the arm, with what others do before the target is
  raised, before the arm and before the first round.
\<close>

record wait_start =
  before_raise :: "shm \<Rightarrow> shm"
  raise_sched :: arm_schedule
  before_arm :: "shm \<Rightarrow> shm"
  start_reading :: u64
  start_sched :: arm_schedule
  before_rounds :: "shm \<Rightarrow> shm"

text \<open>
  The timeout that each round of \<open>wait_until\<close> gives to the kernel is
  \<open>futex_timeout (ms_to_nanos timeout_ms)\<close>.
\<close>

definition counter_wait_until ::
    "region \<Rightarrow> u64 \<Rightarrow> u64 \<Rightarrow> wait_start \<Rightarrow> wait_round list \<Rightarrow> shm \<Rightarrow>
     (sdk_error + wait_result) option \<times> shm" where
  "counter_wait_until r target timeout_ms st rounds s =
     (let timeout_nanos = ms_to_nanos timeout_ms in
      case cas_max r target (raise_sched st) (before_raise st s) of
        (None, s1) \<Rightarrow> (None, s1)
      | (Some _, s1) \<Rightarrow>
         (let ttl = saturating_mul_u64 timeout_nanos 2 in
          case interlock_arm r ttl (start_reading st) (start_sched st) (before_arm st s1) of
            (None, s2) \<Rightarrow> (None, s2)
          | (Some (Inl _), s2) \<Rightarrow> (Some (Inl Sdk_InterlockReaped), s2)
          | (Some (Inr _), s2) \<Rightarrow> run_rounds (counter_round r) rounds (before_rounds st s2)))"

section \<open>WaitTimer\<close>

text \<open>RTSTimeout aborts the process.\<close>

datatype timer_end = Returned "sdk_error + wait_result" | Aborted

definition timer_round ::
    "region \<Rightarrow> u64 \<Rightarrow> wait_round \<Rightarrow> shm \<Rightarrow> shm + timer_end \<times> shm" where
  "timer_round r deadline_ns rd s =
     (let closedc = load r Closed_Word s; s1 = between rd s; openc = load r Open_Word s1;
          state = check_wake_state openc closedc in
      if state \<noteq> Timeout
      then Inr (Returned (Inr \<lparr>wr_completed_at = closedc, wr_state = state\<rparr>), s1)
      else let s2 = awake rd s1; expir = load r Expiration_Word s2 in
      if expir = SENTINEL then Inr (Returned (Inl Sdk_InterlockReaped), s2)
      else let now_ns = reading rd in
      if deadline_ns \<le> now_ns then
        (if expir < now_ns then Inr (Returned (Inl Sdk_InterlockReaped), s2) else Inr (Aborted, s2))
      else Inl (asleep rd s2))"

text \<open>What a round that goes on asks the kernel to wait for.\<close>

definition timer_remaining :: "u64 \<Rightarrow> u64 \<Rightarrow> u64" where
  "timer_remaining deadline_ns now_ns = deadline_ns - now_ns"

text \<open>The deadline is computed from \<open>now\<close>, a reading of the clock after the arm.\<close>

definition timer_wait_ms ::
    "region \<Rightarrow> region \<Rightarrow> u64 \<Rightarrow> wait_start \<Rightarrow> u64 \<Rightarrow> wait_round list \<Rightarrow> shm \<Rightarrow> timer_end option \<times> shm" where
  "timer_wait_ms r clk ms st now rounds s =
     (let target = load clk Open_Word s + ms in
      case cas_max r target (raise_sched st) (before_raise st s) of
        (None, s1) \<Rightarrow> (None, s1)
      | (Some _, s1) \<Rightarrow>
         (let ttl_nanos = ms_to_nanos (saturating_mul_u64 ms 2) in
          case interlock_arm r ttl_nanos (start_reading st) (start_sched st) (before_arm st s1) of
            (None, s2) \<Rightarrow> (None, s2)
          | (Some (Inl _), s2) \<Rightarrow> (Some (Returned (Inl Sdk_InterlockReaped)), s2)
          | (Some (Inr _), s2) \<Rightarrow>
              run_rounds (timer_round r (saturating_add_u64 now ttl_nanos)) rounds (before_rounds st s2)))"

text \<open>The clock is read again by \<open>wait_ms\<close>, after what others do in between.\<close>

definition timer_wait_until ::
    "region \<Rightarrow> region \<Rightarrow> u64 \<Rightarrow> (shm \<Rightarrow> shm) \<Rightarrow> wait_start \<Rightarrow> u64 \<Rightarrow> wait_round list \<Rightarrow> shm \<Rightarrow>
     timer_end option \<times> shm" where
  "timer_wait_until r clk timestamp_ms others st now rounds s =
     (let ms = saturating_sub_u64 timestamp_ms (load clk Open_Word s) in
      timer_wait_ms r clk ms st now rounds (others s))"

section \<open>WaitCron\<close>

definition cron_round ::
    "region \<Rightarrow> u64 \<Rightarrow> wait_round \<Rightarrow> shm \<Rightarrow> shm + (sdk_error + wait_result) \<times> shm" where
  "cron_round r initial_closed rd s =
     (let closedc = load r Closed_Word s in
      if closedc = SENTINEL then Inr (Inl Sdk_InterlockReaped, s)
      else let s1 = between rd s in
      if initial_closed < closedc then
        (let openc = load r Open_Word s1;
             state = (if openc \<le> closedc then (if closedc = openc then Normal else Overrun) else Normal)
         in Inr (Inr \<lparr>wr_completed_at = closedc, wr_state = state\<rparr>, s1))
      else let expir = load r Expiration_Word s1 in
      if expir = SENTINEL \<or> expir < reading rd then Inr (Inl Sdk_InterlockReaped, s1)
      else Inl (asleep rd s1))"

definition cron_wait ::
    "region \<Rightarrow> (shm \<Rightarrow> shm) \<Rightarrow> wait_round list \<Rightarrow> shm \<Rightarrow> (sdk_error + wait_result) option \<times> shm" where
  "cron_wait r others rounds s = run_rounds (cron_round r (load r Closed_Word s)) rounds (others s)"

section \<open>WaitBarrier\<close>

definition barrier_round ::
    "region \<Rightarrow> wait_round \<Rightarrow> shm \<Rightarrow> shm + (sdk_error + wait_result) \<times> shm" where
  "barrier_round r rd s =
     (let closedc = load r Closed_Word s; s1 = between rd s; openc = load r Open_Word s1;
          v = sint (openc - closedc) in
      if v \<le> 0 \<and> 0 < closedc
      then Inr (Inr \<lparr>wr_completed_at = closedc,
                     wr_state = (if closedc = openc then Normal else Overrun)\<rparr>, s1)
      else let s2 = awake rd s1; expir = load r Expiration_Word s2 in
      if expir = SENTINEL \<or> closedc = SENTINEL \<or> openc = SENTINEL
      then Inr (Inl Sdk_InterlockReaped, s2)
      else let s3 = asleep rd s2; expir = load r Expiration_Word s3 in
      if expir = SENTINEL \<or> expir < reading rd then Inr (Inl Sdk_InterlockReaped, s3)
      else Inl (around rd s3))"

definition barrier_wait ::
    "region \<Rightarrow> wait_round list \<Rightarrow> shm \<Rightarrow> (sdk_error + wait_result) option \<times> shm" where
  "barrier_wait r rounds s = run_rounds (barrier_round r) rounds s"

section \<open>WaitRace\<close>

text \<open>
  A poll of the counters from index \<open>i\<close> on; \<open>others\<close> gives what happens before each peek and
  between its loads.
\<close>

fun race_poll ::
    "(region \<times> u64) list \<Rightarrow> nat \<Rightarrow> (nat \<Rightarrow> (shm \<Rightarrow> shm) \<times> (shm \<Rightarrow> shm)) \<Rightarrow> shm \<Rightarrow>
     (nat \<times> wait_result) option \<times> shm" where
  "race_poll [] i others s = (None, s)"
| "race_poll ((r, initial) # counters) i others s =
     (case peek r (snd (others i)) (fst (others i) s) of
        ((openc, closedc), s') \<Rightarrow>
          if initial < closedc
          then (Some (i, \<lparr>wr_completed_at = closedc, wr_state = check_wake_state openc closedc\<rparr>), s')
          else race_poll counters (Suc i) others s')"

definition race_round ::
    "(region \<times> u64) list \<Rightarrow> (nat \<Rightarrow> (shm \<Rightarrow> shm) \<times> (shm \<Rightarrow> shm)) \<times> (shm \<Rightarrow> shm) \<Rightarrow> shm \<Rightarrow>
     shm + (nat \<times> wait_result) \<times> shm" where
  "race_round counters rd s =
     (case race_poll counters 0 (fst rd) s of
        (Some res, s') \<Rightarrow> Inr (res, s')
      | (None, s') \<Rightarrow> Inl (snd rd s'))"

text \<open>The snapshot at entry, each peek with what happens before it and between its loads.\<close>

fun race_snapshot ::
    "region list \<Rightarrow> nat \<Rightarrow> (nat \<Rightarrow> (shm \<Rightarrow> shm) \<times> (shm \<Rightarrow> shm)) \<Rightarrow> shm \<Rightarrow> (region \<times> u64) list \<times> shm" where
  "race_snapshot [] i others s = ([], s)"
| "race_snapshot (r # rs) i others s =
     (case peek r (snd (others i)) (fst (others i) s) of
        ((openc, closedc), s') \<Rightarrow>
          (case race_snapshot rs (Suc i) others s' of (snap, s'') \<Rightarrow> ((r, closedc) # snap, s'')))"

definition race_wait ::
    "region list \<Rightarrow> (nat \<Rightarrow> (shm \<Rightarrow> shm) \<times> (shm \<Rightarrow> shm)) \<Rightarrow>
     ((nat \<Rightarrow> (shm \<Rightarrow> shm) \<times> (shm \<Rightarrow> shm)) \<times> (shm \<Rightarrow> shm)) list \<Rightarrow> shm \<Rightarrow>
     (nat \<times> wait_result) option \<times> shm" where
  "race_wait counters others rounds s =
     (case race_snapshot counters 0 others s of (snap, s') \<Rightarrow> run_rounds (race_round snap) rounds s')"

section \<open>Results of the waits\<close>

text \<open>
  A counter's result: the value is the closed count at the beginning of the round, or after its
  sleep; the state is what that value and the open count loaded next say.
\<close>

definition good_counter :: "region \<Rightarrow> wait_round \<Rightarrow> shm \<Rightarrow> sdk_error + wait_result \<Rightarrow> shm \<Rightarrow> bool" where
  "good_counter r rd u res t \<longleftrightarrow>
     (case res of
        Inl e \<Rightarrow> e = Sdk_InterlockReaped \<and> load r Expiration_Word t = SENTINEL
      | Inr wr \<Rightarrow> wr_state wr = check_wake_state (load r Open_Word t) (wr_completed_at wr) \<and>
          (wr_state wr \<noteq> Timeout \<and> wr_completed_at wr = load r Closed_Word u \<and> t = between rd u \<or>
           wr_completed_at wr = load r Closed_Word (asleep rd (between rd u)) \<and>
             t = awake rd (asleep rd (between rd u)) \<and>
             (wr_state wr = Timeout \<longrightarrow> futex_ret rd = - 1 \<and> futex_errno rd = ETIMEDOUT)))"

interpretation counter_wait: wait_loop "counter_round r" "good_counter r"
  by unfold_locales (auto simp: counter_round_def good_counter_def Let_def split: if_splits)

definition good_timer :: "region \<Rightarrow> timer_end \<Rightarrow> shm \<Rightarrow> bool" where
  "good_timer r res t \<longleftrightarrow> (case res of Returned x \<Rightarrow> (\<forall>e. x = Inl e \<longrightarrow> e = Sdk_InterlockReaped)
     | Aborted \<Rightarrow> load r Expiration_Word t \<noteq> SENTINEL)"

interpretation timer_wait: wait_loop "timer_round r deadline" "\<lambda>_ _. good_timer r"
  by unfold_locales (auto simp: timer_round_def good_timer_def Let_def split: if_splits)

definition good_cron :: "region \<Rightarrow> u64 \<Rightarrow> wait_round \<Rightarrow> shm \<Rightarrow> sdk_error + wait_result \<Rightarrow> shm \<Rightarrow> bool" where
  "good_cron r initial rd u res t \<longleftrightarrow>
     (case res of
        Inr wr \<Rightarrow> wr_completed_at wr = load r Closed_Word u \<and> initial < load r Closed_Word u \<and>
          load r Closed_Word u \<noteq> SENTINEL \<and> t = between rd u \<and> wr_state wr \<noteq> Timeout \<and>
          (wr_state wr = Overrun \<longleftrightarrow> load r Open_Word t < load r Closed_Word u)
      | Inl e \<Rightarrow> e = Sdk_InterlockReaped \<and>
          (load r Closed_Word u = SENTINEL \<or> \<not> initial < load r Closed_Word u \<and> t = between rd u \<and>
            (load r Expiration_Word t = SENTINEL \<or> load r Expiration_Word t < reading rd)))"

interpretation cron_wait: wait_loop "cron_round r initial" "good_cron r initial"
  by unfold_locales (auto simp: cron_round_def good_cron_def Let_def split: if_splits)

definition good_barrier :: "region \<Rightarrow> wait_round \<Rightarrow> shm \<Rightarrow> sdk_error + wait_result \<Rightarrow> shm \<Rightarrow> bool" where
  "good_barrier r rd u res t \<longleftrightarrow>
     (case res of
        Inr wr \<Rightarrow> wr_completed_at wr = load r Closed_Word u \<and> 0 < load r Closed_Word u \<and> t = between rd u \<and>
          sint (load r Open_Word t - load r Closed_Word u) \<le> 0 \<and>
          wr_state wr = (if load r Closed_Word u = load r Open_Word t then Normal else Overrun)
      | Inl e \<Rightarrow> e = Sdk_InterlockReaped)"

interpretation barrier_wait: wait_loop "barrier_round r" "good_barrier r"
  by unfold_locales (auto simp: barrier_round_def good_barrier_def Let_def split: if_splits)

section \<open>Raising the target\<close>

text \<open>Others that never lower the open count, as the SDK's own operations do not.\<close>

definition open_rely :: "region \<Rightarrow> (shm \<Rightarrow> shm) \<Rightarrow> bool" where
  "open_rely r f \<longleftrightarrow> (\<forall>s. load r Open_Word s \<le> load r Open_Word (f s))"

definition round_rely :: "region \<Rightarrow> wait_round \<Rightarrow> bool" where
  "round_rely r rd \<longleftrightarrow>
     open_rely r (between rd) \<and> open_rely r (asleep rd) \<and> open_rely r (awake rd) \<and> open_rely r (around rd)"

lemma open_relyD: "open_rely r f \<Longrightarrow> v \<le> load r Open_Word s \<Longrightarrow> v \<le> load r Open_Word (f s)"
  by (auto simp: open_rely_def intro: order_trans)

lemma cas_max_round_open:
  assumes "open_rely r (fst rd)" and "v \<le> load r Open_Word s"
  shows "cas_max_round r target rd s = Inl s' \<Longrightarrow> v \<le> load r Open_Word s'"
    and "cas_max_round r target rd s = Inr (u, s') \<Longrightarrow>
      v \<le> load r Open_Word s' \<and> target \<le> load r Open_Word s'"
proof -
  obtain f b where rd: "rd = (f, b)" by fastforce
  have up: "v \<le> load r Open_Word (f s)" using assms by (auto simp: rd intro: open_relyD)
  show "cas_max_round r target rd s = Inl s' \<Longrightarrow> v \<le> load r Open_Word s'"
    using up by (auto simp: cas_max_round_def rd Let_def compare_exchange_weak_def split: if_splits)
  show "cas_max_round r target rd s = Inr (u, s') \<Longrightarrow>
      v \<le> load r Open_Word s' \<and> target \<le> load r Open_Word s'"
    using assms(2)
    by (auto simp: cas_max_round_def rd Let_def compare_exchange_weak_def shm_simps split: if_splits)
qed

lemma cas_max_open:
  assumes "cas_max r target sched s = (Some u, t)"
    and "\<And>f b. (f, b) \<in> set sched \<Longrightarrow> open_rely r f"
  shows "target \<le> load r Open_Word t \<and> load r Open_Word s \<le> load r Open_Word t"
proof -
  have rely: "open_rely r (fst rd)" if "rd \<in> set sched" for rd
    using assms(2) that by (cases rd) auto
  let ?I = "\<lambda>x. load r Open_Word s \<le> load r Open_Word x"
  have "case Some u of None \<Rightarrow> ?I t | Some u \<Rightarrow> target \<le> load r Open_Word t \<and> ?I t"
    using assms(1) unfolding cas_max_def
    by (rule run_rounds_rule [where I = ?I and Q = "\<lambda>u t. target \<le> load r Open_Word t \<and> ?I t"])
       (use cas_max_round_open rely in blast)+
  then show ?thesis by simp
qed

text \<open>
  A round of one of the two loops in which the exchange does not fail and the word is left alone
  ends it.
\<close>

definition start_quiet :: "region \<Rightarrow> wait_start \<Rightarrow> bool" where
  "start_quiet r st \<longleftrightarrow>
     (\<exists>f. (f, False) \<in> set (raise_sched st) \<and> (\<forall>s. load r Open_Word (f s) = load r Open_Word s)) \<and>
     (\<exists>f. (f, False) \<in> set (start_sched st) \<and>
       (\<forall>s. load r Expiration_Word (f s) = load r Expiration_Word s))"

lemma cas_max_returns:
  assumes "(f, False) \<in> set sched" and "\<And>s. load r Open_Word (f s) = load r Open_Word s"
  shows "\<exists>t. cas_max r target sched s = (Some (), t)"
proof -
  have "fst (cas_max r target sched s) \<noteq> None"
    unfolding cas_max_def
    by (rule run_rounds_ends [OF assms(1)])
       (simp add: cas_max_round_def Let_def compare_exchange_weak_def assms(2))
  then show ?thesis by (cases "cas_max r target sched s") auto
qed

lemma arm_returns:
  assumes "(f, False) \<in> set sched" and "\<And>s. load r Expiration_Word (f s) = load r Expiration_Word s"
  shows "\<exists>res t. interlock_arm r ttl now sched s = (Some res, t)"
  using arm_loop_returns [of f sched r "now + ttl" s] assms
  by (cases "arm_loop r (now + ttl) sched s") (auto simp: interlock_arm_def)

lemma arm_open:
  assumes "interlock_arm r ttl now sched s = (res, t)"
    and "\<And>f b. (f, b) \<in> set sched \<Longrightarrow> open_rely r f" and "v \<le> load r Open_Word s"
  shows "v \<le> load r Open_Word t"
  using assms unfolding interlock_arm_def
proof (induction sched arbitrary: s)
  case Nil
  then show ?case by simp
next
  case (Cons x sched)
  obtain f b where x: "x = (f, b)" by fastforce
  have up: "v \<le> load r Open_Word (f s)"
    using Cons.prems(2) [of f b] Cons.prems(3) x by (auto intro: open_relyD)
  show ?case
  proof (cases "fst (compare_exchange_weak r Expiration_Word (load r Expiration_Word s)
      (max (load r Expiration_Word s) (now + ttl)) b (f s))")
    case True
    with Cons.prems(1,3) up show ?thesis
      by (auto simp: x Let_def compare_exchange_weak_def shm_simps split: if_splits)
  next
    case False
    then have "t = s \<or> arm_loop r (now + ttl) sched (f s) = (res, t)"
      using Cons.prems(1) by (auto simp: x Let_def compare_exchange_weak_def split: if_splits)
    with Cons.IH [of "f s"] Cons.prems(2,3) up show ?thesis by auto
  qed
qed

lemma counter_round_open:
  assumes "round_rely r rd" and "v \<le> load r Open_Word s"
  shows "counter_round r rd s = Inl s' \<Longrightarrow> v \<le> load r Open_Word s'"
    and "counter_round r rd s = Inr (x, s') \<Longrightarrow> v \<le> load r Open_Word s'"
proof -
  let ?s1 = "between rd s"
  let ?s3 = "awake rd (asleep rd ?s1)"
  have up: "v \<le> load r Open_Word ?s1" "v \<le> load r Open_Word ?s3" "v \<le> load r Open_Word (around rd ?s3)"
    using assms by (auto simp: round_rely_def intro: open_relyD)
  show "counter_round r rd s = Inl s' \<Longrightarrow> v \<le> load r Open_Word s'"
    and "counter_round r rd s = Inr (x, s') \<Longrightarrow> v \<le> load r Open_Word s'"
    using up by (auto simp: counter_round_def Let_def split: if_splits)
qed

lemma timer_round_cases:
  "timer_round r deadline rd s = Inl s' \<Longrightarrow> reading rd < deadline"
  "timer_round r deadline rd s = Inr (Aborted, s') \<Longrightarrow> deadline \<le> reading rd"
  by (auto simp: timer_round_def Let_def not_le split: if_splits)

section \<open>Properties\<close>

text \<open>The memory that the rounds of \<open>wait_until\<close> start from.\<close>

definition counter_started :: "region \<Rightarrow> u64 \<Rightarrow> u64 \<Rightarrow> wait_start \<Rightarrow> shm \<Rightarrow> shm" where
  "counter_started r target timeout_ms st s =
     before_rounds st (snd (interlock_arm r (saturating_mul_u64 (ms_to_nanos timeout_ms) 2) (start_reading st)
       (start_sched st) (before_arm st (snd (cas_max r target (raise_sched st) (before_raise st s))))))"

lemma counter_wait_cases:
  assumes "counter_wait_until r target timeout st rounds s = (Some res, t)"
  obtains "res = Inl Sdk_InterlockReaped" and "load r Expiration_Word t = SENTINEL"
  | s1 s2 where "cas_max r target (raise_sched st) (before_raise st s) = (Some (), s1)"
    and "interlock_arm r (saturating_mul_u64 (ms_to_nanos timeout) 2) (start_reading st) (start_sched st)
      (before_arm st s1) = (Some (Inr ()), s2)"
    and "before_rounds st s2 = counter_started r target timeout st s"
    and "run_rounds (counter_round r) rounds (counter_started r target timeout st s) = (Some res, t)"
proof -
  have arm: "load r Expiration_Word t' = SENTINEL"
    if "interlock_arm r ttl now sched s' = (Some (Inl e), t')" for ttl now sched s' e t'
    using arm_loop_linearizes [OF that [unfolded interlock_arm_def]]
    by (auto simp: arm_atomic_def arm_spec_def split: if_splits)
  from assms show thesis
    by (auto simp: counter_wait_until_def counter_started_def Let_def split: prod.splits option.splits sum.splits
        intro: that dest: arm)
qed

text \<open>
  C24: A counter wait delivers its target.  As long as nobody lowers the open count, whenever
  \<open>wait_until\<close> returns a result, the open count is at least the target; the value is the closed
  count as it was in the last round, read before the sleep or right after it; the reported
  state is what that value and the open count read next say; a Normal or Overrun result means
  that the closed count had reached the target, and a Timeout result that the kernel reported
  the expiry of a futex timeout in that round.  An error is the reaped error, with the
  expiration at the sentinel.
\<close>

theorem counter_wait_delivers:
  assumes "counter_wait_until r target timeout st rounds s = (Some res, t)"
    and "\<And>f b. (f, b) \<in> set (raise_sched st) \<union> set (start_sched st) \<Longrightarrow> open_rely r f"
    and "open_rely r (before_arm st)" and "open_rely r (before_rounds st)"
    and "\<And>rd. rd \<in> set rounds \<Longrightarrow> round_rely r rd"
  shows "case res of
      Inl e \<Rightarrow> e = Sdk_InterlockReaped \<and> load r Expiration_Word t = SENTINEL
    | Inr wr \<Rightarrow> target \<le> load r Open_Word t \<and>
        wr_state wr = check_wake_state (load r Open_Word t) (wr_completed_at wr) \<and>
        (wr_state wr \<noteq> Timeout \<longrightarrow> target \<le> wr_completed_at wr) \<and>
        (\<exists>pre rd post u. rounds = pre @ rd # post \<and>
          run_rounds (counter_round r) pre (counter_started r target timeout st s) = (None, u) \<and>
          (wr_state wr \<noteq> Timeout \<and> wr_completed_at wr = load r Closed_Word u \<and> t = between rd u \<or>
           wr_completed_at wr = load r Closed_Word (asleep rd (between rd u)) \<and>
             t = awake rd (asleep rd (between rd u)) \<and>
             (wr_state wr = Timeout \<longrightarrow> futex_ret rd = - 1 \<and> futex_errno rd = ETIMEDOUT)))"
  using assms(1)
proof (cases rule: counter_wait_cases)
  case 1
  then show ?thesis by simp
next
  case (2 s1 s2)
  let ?start = "counter_started r target timeout st s"
  let ?I = "\<lambda>x. target \<le> load r Open_Word x"
  have "?I s1" using cas_max_open [OF 2(1)] assms(2) by blast
  then have "?I (before_arm st s1)" by (rule open_relyD [OF assms(3)])
  then have "?I s2" using arm_open [OF 2(2)] assms(2) by blast
  then have I: "?I ?start" unfolding 2(3) [symmetric] by (rule open_relyD [OF assms(4)])
  have "case Some res of None \<Rightarrow> ?I t | Some x \<Rightarrow> ?I t"
    using 2(4) I by (rule run_rounds_rule [where I = ?I and Q = "\<lambda>x. ?I"])
      (use counter_round_open assms(5) in blast)+
  then have t: "?I t" by simp
  obtain pre rd post u where last: "rounds = pre @ rd # post"
    "run_rounds (counter_round r) pre ?start = (None, u)" and good: "good_counter r rd u res t"
    using counter_wait.result_last [OF 2(4)] by blast
  show ?thesis
  proof (cases res)
    case (Inl e)
    with good show ?thesis by (simp add: good_counter_def)
  next
    case (Inr wr)
    have g: "good_counter r rd u (Inr wr) t" using good Inr by simp
    then have "wr_state wr = check_wake_state (load r Open_Word t) (wr_completed_at wr)"
      by (simp add: good_counter_def)
    then have "wr_state wr \<noteq> Timeout \<longrightarrow> target \<le> wr_completed_at wr"
      using t by (auto simp: check_wake_state_def split: if_splits)
    then show ?thesis
      using t g last unfolding Inr good_counter_def sum.case by blast
  qed
qed

text \<open>
  A counter reaped while its owner sleeps is reported as delivered.  When the daemon reaps
  the interlock during the sleep and nobody writes to it afterwards, \<open>wait_until\<close>'s round ends
  with an Ok result, Normal at the sentinel value, and not with the reaped error: the counts
  are compared before the sentinel is looked for.
\<close>

lemma reaped_counter_wait_is_ok:
  assumes "load r Closed_Word s < load r Open_Word (between rd s)"
    and "asleep rd (between rd s) = interlock_reap r (between rd s)" and "awake rd = (\<lambda>s. s)"
  shows "counter_round r rd s =
    Inr (Inr \<lparr>wr_completed_at = SENTINEL, wr_state = Normal\<rparr>, interlock_reap r (between rd s))"
  using assms by (auto simp: counter_round_def Let_def check_wake_state_def shm_simps)

text \<open>The loop of a timer wait: how it ends, and what a round that goes on asks the kernel for.\<close>

lemma timer_loop_ends:
  assumes "rd \<in> set rounds" and "deadline \<le> reading rd"
  shows "fst (run_rounds (timer_round r deadline) rounds s) \<noteq> None"
proof (rule run_rounds_ends [OF assms(1)])
  fix s
  show "\<exists>res. timer_round r deadline rd s = Inr res"
    using timer_round_cases(1) [of r deadline rd s] assms(2)
    by (cases "timer_round r deadline rd s") (auto simp: not_le [symmetric])
qed

lemma timer_loop_aborted:
  assumes "run_rounds (timer_round r deadline) rounds s = (Some Aborted, t)"
  shows "(\<exists>rd \<in> set rounds. deadline \<le> reading rd) \<and> load r Expiration_Word t \<noteq> SENTINEL"
proof -
  let ?Q = "\<lambda>x (t :: shm). x = Aborted \<longrightarrow> (\<exists>rd \<in> set rounds. deadline \<le> reading rd)"
  have "case Some Aborted of None \<Rightarrow> True | Some x \<Rightarrow> ?Q x t"
    using assms by (rule run_rounds_rule [where I = "\<lambda>_. True" and Q = ?Q])
      (use timer_round_cases(2) in blast)+
  then show ?thesis using timer_wait.result_good [OF assms] by (simp add: good_timer_def)
qed

lemma timer_round_sleeps:
  assumes "timer_round r deadline rd s = Inl s'"
  shows "futex_timeout (timer_remaining deadline (reading rd)) \<noteq> None \<and>
    unat (timer_remaining deadline (reading rd)) = unat deadline - unat (reading rd)"
  using timer_round_cases(1) [OF assms]
  by (simp add: timer_remaining_def futex_timeout_def unat_sub order_less_imp_le)

text \<open>How a call of \<open>wait_ms\<close> that returns has gone.\<close>

lemma timer_wait_ms_cases:
  assumes "timer_wait_ms r clk ms st now rounds s = (Some res, t)"
  obtains "res = Returned (Inl Sdk_InterlockReaped)"
  | s' where "run_rounds (timer_round r (saturating_add_u64 now (ms_to_nanos (saturating_mul_u64 ms 2))))
      rounds s' = (Some res, t)"
  using assms by (auto simp: timer_wait_ms_def Let_def split: prod.splits option.splits sum.splits)

text \<open>
  C33: A timer wait ends by its deadline and aborts only then.  The deadline is the clock after
  the arm plus twice the duration, saturating.  \<open>wait_ms\<close> returns once each of its two
  compare-exchange loops has had a quiet round and the clock has been read at or past the
  deadline; it aborts the process only if such a reading was made, on an interlock that was not
  reaped; every error is the reaped error; and the time it asks the kernel to sleep in a round
  that goes on is exactly what is left to the deadline, never the zero that stands for no timeout.
\<close>

theorem timer_wait_bounded:
  defines "deadline now ms \<equiv> saturating_add_u64 now (ms_to_nanos (saturating_mul_u64 ms 2))"
  shows "(start_quiet r st \<longrightarrow> (\<exists>rd \<in> set rounds. deadline now ms \<le> reading rd) \<longrightarrow>
      fst (timer_wait_ms r clk ms st now rounds s) \<noteq> None) \<and>
   (\<forall>t. timer_wait_ms r clk ms st now rounds s = (Some Aborted, t) \<longrightarrow>
      (\<exists>rd \<in> set rounds. deadline now ms \<le> reading rd) \<and> load r Expiration_Word t \<noteq> SENTINEL) \<and>
   (\<forall>e t. timer_wait_ms r clk ms st now rounds s = (Some (Returned (Inl e)), t) \<longrightarrow>
      e = Sdk_InterlockReaped) \<and>
   (\<forall>rd s'. timer_round r (deadline now ms) rd s = Inl s' \<longrightarrow>
      futex_timeout (timer_remaining (deadline now ms) (reading rd)) \<noteq> None \<and>
      unat (timer_remaining (deadline now ms) (reading rd)) = unat (deadline now ms) - unat (reading rd))"
proof (intro conjI allI impI)
  assume quiet: "start_quiet r st" and "\<exists>rd \<in> set rounds. deadline now ms \<le> reading rd"
  then obtain rd where rd: "rd \<in> set rounds" "deadline now ms \<le> reading rd" by blast
  let ?ttl = "ms_to_nanos (saturating_mul_u64 ms 2)"
  from quiet obtain s1
    where 1: "cas_max r (load clk Open_Word s + ms) (raise_sched st) (before_raise st s) = (Some (), s1)"
    using cas_max_returns by (fastforce simp: start_quiet_def)
  from quiet obtain res s2
    where 2: "interlock_arm r ?ttl (start_reading st) (start_sched st) (before_arm st s1) = (Some res, s2)"
    using arm_returns by (fastforce simp: start_quiet_def)
  show "fst (timer_wait_ms r clk ms st now rounds s) \<noteq> None"
    using timer_loop_ends [OF rd, of r "before_rounds st s2"] 1 2
    by (auto simp: timer_wait_ms_def Let_def deadline_def split: sum.splits)
next
  fix t
  assume "timer_wait_ms r clk ms st now rounds s = (Some Aborted, t)"
  then show "\<exists>rd \<in> set rounds. deadline now ms \<le> reading rd" "load r Expiration_Word t \<noteq> SENTINEL"
    using timer_loop_aborted by (fastforce simp: deadline_def elim: timer_wait_ms_cases)+
next
  fix e t
  assume "timer_wait_ms r clk ms st now rounds s = (Some (Returned (Inl e)), t)"
  then show "e = Sdk_InterlockReaped"
    using timer_wait.result_good by (fastforce simp: good_timer_def elim: timer_wait_ms_cases)
qed (use timer_round_sleeps in blast)+

text \<open>
  C35: A cron wait returns the next firing.  Its result is the closed count as it was when the last
  round began, greater than the one at entry and never the sentinel; the state is Overrun iff
  the open count read next is below it, and never Timeout.  An error is the reaped error, and
  then the closed count or the expiration was at the sentinel or the deadline had passed, with no
  new firing seen.  A round that begins after a new firing is the last.
\<close>

theorem cron_wait_next_firing:
  "(\<forall>res t. cron_wait r others rounds s = (Some res, t) \<longrightarrow>
    (\<exists>pre rd post u. rounds = pre @ rd # post \<and>
      run_rounds (cron_round r (load r Closed_Word s)) pre (others s) = (None, u) \<and>
      (case res of
         Inr wr \<Rightarrow> wr_completed_at wr = load r Closed_Word u \<and> load r Closed_Word s < load r Closed_Word u \<and>
           load r Closed_Word u \<noteq> SENTINEL \<and> t = between rd u \<and> wr_state wr \<noteq> Timeout \<and>
           (wr_state wr = Overrun \<longleftrightarrow> load r Open_Word t < load r Closed_Word u)
       | Inl e \<Rightarrow> e = Sdk_InterlockReaped \<and>
           (load r Closed_Word u = SENTINEL \<or> \<not> load r Closed_Word s < load r Closed_Word u \<and> t = between rd u \<and>
             (load r Expiration_Word t = SENTINEL \<or> load r Expiration_Word t < reading rd))))) \<and>
   (\<forall>pre rd post u. rounds = pre @ rd # post \<longrightarrow>
      run_rounds (cron_round r (load r Closed_Word s)) pre (others s) = (None, u) \<longrightarrow>
      load r Closed_Word s < load r Closed_Word u \<longrightarrow> load r Closed_Word u \<noteq> SENTINEL \<longrightarrow>
      (\<exists>wr. cron_wait r others rounds s = (Some (Inr wr), between rd u) \<and>
        wr_completed_at wr = load r Closed_Word u))"
proof (intro conjI allI impI)
  fix res t
  assume "cron_wait r others rounds s = (Some res, t)"
  from cron_wait.result_last [OF this [unfolded cron_wait_def], unfolded good_cron_def]
  show "\<exists>pre rd post u. rounds = pre @ rd # post \<and>
      run_rounds (cron_round r (load r Closed_Word s)) pre (others s) = (None, u) \<and>
      (case res of
         Inr wr \<Rightarrow> wr_completed_at wr = load r Closed_Word u \<and> load r Closed_Word s < load r Closed_Word u \<and>
           load r Closed_Word u \<noteq> SENTINEL \<and> t = between rd u \<and> wr_state wr \<noteq> Timeout \<and>
           (wr_state wr = Overrun \<longleftrightarrow> load r Open_Word t < load r Closed_Word u)
       | Inl e \<Rightarrow> e = Sdk_InterlockReaped \<and>
           (load r Closed_Word u = SENTINEL \<or> \<not> load r Closed_Word s < load r Closed_Word u \<and> t = between rd u \<and>
             (load r Expiration_Word t = SENTINEL \<or> load r Expiration_Word t < reading rd)))" .
next
  fix pre rd post u
  assume "rounds = pre @ rd # post" "run_rounds (cron_round r (load r Closed_Word s)) pre (others s) = (None, u)"
    "load r Closed_Word s < load r Closed_Word u" "load r Closed_Word u \<noteq> SENTINEL"
  then show "\<exists>wr. cron_wait r others rounds s = (Some (Inr wr), between rd u) \<and>
      wr_completed_at wr = load r Closed_Word u"
    by (simp add: cron_wait_def run_rounds_append cron_round_def Let_def)
qed

text \<open>
  C36: A barrier wait returns the firing.  A result is the closed count as it was when the last
  round began, positive and, as a signed difference, not below the open count read next, Normal
  iff they are equal; an error is the reaped error.  A round that begins with such counts is the
  last.  So on an interlock that the daemon has already reaped the wait returns at once with
  Ok, Normal at the sentinel value, where the API's document has the reaped error: the
  firing check comes before the check for the sentinel.
\<close>

theorem barrier_wait_result:
  "(\<forall>rounds s res t. barrier_wait r rounds s = (Some res, t) \<longrightarrow>
      (\<exists>pre rd post u. rounds = pre @ rd # post \<and> run_rounds (barrier_round r) pre s = (None, u) \<and>
        (case res of
           Inr wr \<Rightarrow> wr_completed_at wr = load r Closed_Word u \<and> 0 < load r Closed_Word u \<and> t = between rd u \<and>
             sint (load r Open_Word t - load r Closed_Word u) \<le> 0 \<and>
             wr_state wr = (if load r Closed_Word u = load r Open_Word t then Normal else Overrun)
         | Inl e \<Rightarrow> e = Sdk_InterlockReaped))) \<and>
   (\<forall>rd rounds s. 0 < load r Closed_Word s \<longrightarrow>
      sint (load r Open_Word (between rd s) - load r Closed_Word s) \<le> 0 \<longrightarrow>
      (\<exists>wr. barrier_wait r (rd # rounds) s = (Some (Inr wr), between rd s) \<and>
        wr_completed_at wr = load r Closed_Word s)) \<and>
   (\<forall>rd rounds s. between rd = (\<lambda>s. s) \<longrightarrow>
      barrier_wait r (rd # rounds) (interlock_reap r s) =
        (Some (Inr \<lparr>wr_completed_at = SENTINEL, wr_state = Normal\<rparr>), interlock_reap r s))"
proof (intro conjI allI impI)
  fix rounds s res t
  assume "barrier_wait r rounds s = (Some res, t)"
  from barrier_wait.result_last [OF this [unfolded barrier_wait_def], unfolded good_barrier_def]
  show "\<exists>pre rd post u. rounds = pre @ rd # post \<and> run_rounds (barrier_round r) pre s = (None, u) \<and>
        (case res of
           Inr wr \<Rightarrow> wr_completed_at wr = load r Closed_Word u \<and> 0 < load r Closed_Word u \<and> t = between rd u \<and>
             sint (load r Open_Word t - load r Closed_Word u) \<le> 0 \<and>
             wr_state wr = (if load r Closed_Word u = load r Open_Word t then Normal else Overrun)
         | Inl e \<Rightarrow> e = Sdk_InterlockReaped)" .
next
  fix rd :: wait_round and rounds s
  assume "0 < load r Closed_Word s" "sint (load r Open_Word (between rd s) - load r Closed_Word s) \<le> 0"
  then show "\<exists>wr. barrier_wait r (rd # rounds) s = (Some (Inr wr), between rd s) \<and>
      wr_completed_at wr = load r Closed_Word s"
    by (simp add: barrier_wait_def barrier_round_def Let_def)
next
  fix rd :: wait_round and rounds s
  assume "between rd = (\<lambda>s. s)"
  moreover have "0 < SENTINEL" by (simp add: SENTINEL_def word_less_nat_alt)
  ultimately show "barrier_wait r (rd # rounds) (interlock_reap r s) =
        (Some (Inr \<lparr>wr_completed_at = SENTINEL, wr_state = Normal\<rparr>), interlock_reap r s)"
    by (simp add: barrier_wait_def barrier_round_def Let_def shm_simps)
qed

lemma race_poll_Some:
  "race_poll cs i others s = (Some (j, wr), t) \<Longrightarrow>
     i \<le> j \<and> j - i < length cs \<and> snd (cs ! (j - i)) < wr_completed_at wr \<and>
     wr_completed_at wr = load (fst (cs ! (j - i))) Closed_Word t"
proof (induction cs arbitrary: i s)
  case (Cons c cs)
  obtain r initial where c: "c = (r, initial)" by fastforce
  obtain openc closedc s' where p: "peek r (snd (others i)) (fst (others i) s) = ((openc, closedc), s')"
    by (metis prod.collapse)
  show ?case
  proof (cases "initial < closedc")
    case True
    with Cons.prems p c show ?thesis by (auto simp: peek_def Let_def)
  next
    case False
    with Cons.prems p c have "race_poll cs (Suc i) others s' = (Some (j, wr), t)" by simp
    from Cons.IH [OF this] show ?thesis by (auto simp: c nth_Cons' Suc_le_eq)
  qed
qed simp

lemma race_snapshot_fst: "race_snapshot rs i others s = (snap, s') \<Longrightarrow> map fst snap = rs"
  by (induction rs arbitrary: i s snap) (auto split: prod.splits)

definition good_race :: "(region \<times> u64) list \<Rightarrow> nat \<times> wait_result \<Rightarrow> shm \<Rightarrow> bool" where
  "good_race snap res t \<longleftrightarrow>
     (case res of (i, wr) \<Rightarrow> i < length snap \<and> snd (snap ! i) < wr_completed_at wr \<and>
        wr_completed_at wr = load (fst (snap ! i)) Closed_Word t)"

interpretation race_wait: wait_loop "race_round snap" "\<lambda>_ _. good_race snap"
proof
  fix x r t and s :: shm
  assume "race_round snap x s = Inr (r, t)"
  then have "race_poll snap 0 (fst x) s = (Some r, t)"
    by (auto simp: race_round_def split: prod.splits option.splits)
  then show "good_race snap r t"
    using race_poll_Some [of snap 0 "fst x" s "fst r" "snd r" t] by (auto simp: good_race_def split: prod.splits)
qed

text \<open>
  No count exceeds the sentinel: a race that finds all its counters reaped when it begins polls for
  ever, whatever others do from then on, while one that sleeps through the reap takes the sentinel
  for an advance.
\<close>

lemma race_poll_ended: "\<forall>c \<in> set cs. snd c = SENTINEL \<Longrightarrow> fst (race_poll cs i others s) = None"
  by (induction cs arbitrary: i s) (auto simp: SENTINEL_def split: prod.splits)

lemma race_never_ends:
  assumes "\<forall>r \<in> set counters. load r Closed_Word s = SENTINEL"
  shows "fst (race_wait counters (\<lambda>_. (\<lambda>s. s, \<lambda>s. s)) rounds s) = None"
proof -
  have "race_snapshot counters i (\<lambda>_. (\<lambda>s. s, \<lambda>s. s)) s = (map (\<lambda>r. (r, SENTINEL)) counters, s)" for i
    using assms by (induction counters arbitrary: i) (simp_all add: peek_def Let_def)
  moreover have "fst (run_rounds (race_round (map (\<lambda>r. (r, SENTINEL)) counters)) rounds t) = None" for t
  proof (induction rounds arbitrary: t)
    case (Cons rd rounds)
    have "fst (race_poll (map (\<lambda>r. (r, SENTINEL)) counters) 0 (fst rd) t) = None" by (rule race_poll_ended) simp
    with Cons show ?case by (auto simp: race_round_def split: prod.splits option.splits)
  qed simp
  ultimately show ?thesis by (simp add: race_wait_def)
qed

text \<open>
  A race names a counter that has advanced.  The index it returns is that of one of its
  counters, and the completion value is that counter's closed count at that moment, greater
  than the one in the snapshot taken at entry.
\<close>

theorem race_wait_advanced:
  assumes "race_wait counters others rounds s = (Some (i, wr), t)"
  shows "\<exists>snap s'. race_snapshot counters 0 others s = (snap, s') \<and> map fst snap = counters \<and>
    i < length counters \<and> snd (snap ! i) < wr_completed_at wr \<and>
    wr_completed_at wr = load (counters ! i) Closed_Word t"
proof -
  obtain snap s' where snap: "race_snapshot counters 0 others s = (snap, s')" by fastforce
  with assms have "run_rounds (race_round snap) rounds s' = (Some (i, wr), t)" by (simp add: race_wait_def)
  from race_wait.result_good [OF this] race_snapshot_fst [OF snap] show ?thesis
    by (auto simp: snap good_race_def)
qed

section \<open>Witnesses\<close>

abbreviation two_words :: "u64 \<Rightarrow> u64 \<Rightarrow> shm" where
  "two_words a b \<equiv> \<lparr>mem = (\<lambda>_. \<lparr>open_count = a, closed_count = b, expiration_ns = 1000\<rparr>),
     next_region = 1, trace = []\<rparr>"

definition sample_start :: wait_start where
  "sample_start = \<lparr>before_raise = (\<lambda>s. s), raise_sched = undisturbed, before_arm = (\<lambda>s. s),
     start_reading = 50, start_sched = undisturbed, before_rounds = (\<lambda>s. s)\<rparr>"

lemma counter_wait_delivers_witness:
  "\<exists>wr t. counter_wait_until 0 7 100 sample_start [still 60] (two_words 3 2) = (Some (Inr wr), t) \<and>
     7 \<le> load 0 Open_Word t \<and> wr_state wr = Timeout"
proof -
  have "\<exists>wr t. counter_wait_until 0 7 100 sample_start [still 60] (two_words 3 2) =
      (Some (Inr wr), t) \<and> wr_state wr = Timeout"
    by (simp add: counter_wait_until_def sample_start_def cas_max_def cas_max_round_def undisturbed_def Let_def
        compare_exchange_weak_def interlock_arm_def counter_round_def check_wake_state_def shm_simps)
       (simp add: load_def max_def SENTINEL_def shm_simps ms_to_nanos_def saturating_mul_u64_def
        checked_mul_u64_def NANOS_PER_MS_def)
  then obtain wr t where r: "counter_wait_until 0 7 100 sample_start [still 60] (two_words 3 2) =
      (Some (Inr wr), t)" "wr_state wr = Timeout" by blast
  have "7 \<le> load 0 Open_Word t"
    using counter_wait_delivers [OF r(1)] unfolding sum.case by (auto simp: sample_start_def undisturbed_def open_rely_def round_rely_def)
  with r show ?thesis by blast
qed

lemma timer_wait_bounded_witness:
  "start_quiet 0 sample_start \<and>
   fst (timer_wait_ms 0 0 5 sample_start 60 [still 60, still 20000000] (two_words 3 2)) \<noteq> None"
proof -
  have quiet: "start_quiet 0 sample_start"
    by (auto simp: start_quiet_def sample_start_def undisturbed_def)
  have "saturating_add_u64 60 (ms_to_nanos (saturating_mul_u64 5 2)) \<le> 20000000"
    by (simp add: saturating_add_u64_def saturating_mul_u64_def checked_add_u64_def checked_mul_u64_def
        ms_to_nanos_def NANOS_PER_MS_def)
  then have "fst (timer_wait_ms 0 0 5 sample_start 60 [still 60, still 20000000] (two_words 3 2)) \<noteq> None"
    by (intro timer_wait_bounded [THEN conjunct1, rule_format]) (use quiet in auto)
  with quiet show ?thesis by blast
qed

lemma cron_wait_next_firing_witness:
  "\<exists>wr. cron_wait 0 (store 0 Closed_Word 9) [still 60] (two_words 10 2) =
     (Some (Inr wr), store 0 Closed_Word 9 (two_words 10 2)) \<and> wr_completed_at wr = 9"
  using cron_wait_next_firing [THEN conjunct2, rule_format, of "[still 60]" "[]" "still 60" "[]" 0
      "two_words 10 2" "store 0 Closed_Word 9" "store 0 Closed_Word 9 (two_words 10 2)"]
  by (simp add: shm_simps) (simp add: load_def SENTINEL_def)

lemma barrier_wait_result_witness:
  "barrier_wait 0 [still 60] (interlock_reap 0 (two_words 1 0)) =
     (Some (Inr \<lparr>wr_completed_at = SENTINEL, wr_state = Normal\<rparr>), interlock_reap 0 (two_words 1 0))"
  by (rule barrier_wait_result [THEN conjunct2, THEN conjunct2, rule_format]) simp

lemma race_wait_advanced_witness:
  "\<exists>wr t. race_wait [0] (\<lambda>_. (\<lambda>s. s, \<lambda>s. s)) [(\<lambda>_. (store 0 Closed_Word 9, \<lambda>s. s), \<lambda>s. s)] (two_words 10 2) =
     (Some (0, wr), t) \<and> wr_completed_at wr = load 0 Closed_Word t"
proof -
  obtain wr t where r: "race_wait [0] (\<lambda>_. (\<lambda>s. s, \<lambda>s. s))
      [(\<lambda>_. (store 0 Closed_Word 9, \<lambda>s. s), \<lambda>s. s)] (two_words 10 2) = (Some (0, wr), t)"
    by (simp add: race_wait_def race_round_def peek_def Let_def shm_simps) (simp add: load_def)
  from race_wait_advanced [OF r] r show ?thesis by auto
qed

end
