(* ===== verification/Sdk_Access.thy ===== *)
theory Sdk_Access
  imports Sdk_Touch Sdk_Waits
begin

text \<open>
  What the SDK does to shared memory, as sequences of atomic accesses.  An access is allowed by a
  set of cells; the operations of \<open>Sdk_Handles\<close>, \<open>Sdk_Waits\<close> and \<open>Sdk_Touch\<close>, with others
  between their accesses, keep to every preorder that the others and the accesses to the cells
  they write keep to.
\<close>

section \<open>The guarantee\<close>

text \<open>Regions are only added, and no expiration word ever goes down.\<close>

definition expirations_grow :: "shm \<Rightarrow> shm \<Rightarrow> bool" where
  "expirations_grow s t \<longleftrightarrow>
     next_region s \<le> next_region t \<and>
     (\<forall>r < next_region s. load r Expiration_Word s \<le> load r Expiration_Word t)"

lemma grow_refl [simp]: "expirations_grow s s"
  by (simp add: expirations_grow_def)

lemma grow_trans: "expirations_grow s t \<Longrightarrow> expirations_grow t u \<Longrightarrow> expirations_grow s u"
  unfolding expirations_grow_def by (meson order_less_le_trans order_trans)

lemma grow_wake [simp]: "expirations_grow s (futex_wake r w s)"
  by (simp add: expirations_grow_def shm_simps)

lemma grow_store:
  "w \<noteq> Expiration_Word \<or> load r Expiration_Word s \<le> v \<Longrightarrow> expirations_grow s (store r w v s)"
  by (auto simp: expirations_grow_def shm_simps)

lemma grow_terminated:
  assumes "expirations_grow s t" and "r < next_region s" and "load r Expiration_Word s = SENTINEL"
  shows "load r Expiration_Word t = SENTINEL"
  using assms by (auto simp: expirations_grow_def)

section \<open>The accesses of the SDK\<close>

text \<open>
  One atomic access by a thread of a client that may write the given cells: \<open>open\<close> and \<open>close\<close>,
  the compare-exchanges that raise an open count or an expiration, the stores of \<open>free\<close>, those
  of a process clock, and wakes.
\<close>

inductive access_in :: "(region \<times> word_id) set \<Rightarrow> shm \<Rightarrow> shm \<Rightarrow> bool" for cells where
  add: "(r, w) \<in> cells \<Longrightarrow> w \<noteq> Expiration_Word \<Longrightarrow> access_in cells s (fetch_add r w h s)"
| raise_open: "(r, Open_Word) \<in> cells \<Longrightarrow> load r Open_Word s < target \<Longrightarrow>
    access_in cells s (store r Open_Word target s)"
| arm: "(r, Expiration_Word) \<in> cells \<Longrightarrow> load r Expiration_Word s \<noteq> SENTINEL \<Longrightarrow>
    load r Expiration_Word s < target \<Longrightarrow> access_in cells s (store r Expiration_Word target s)"
| free: "(r, Expiration_Word) \<in> cells \<Longrightarrow> access_in cells s (store r Expiration_Word SENTINEL s)"
| detach: "(r, Open_Word) \<in> cells \<Longrightarrow> access_in cells s (store r Open_Word SENTINEL s)"
| publish: "(r, w) \<in> cells \<Longrightarrow> w \<noteq> Expiration_Word \<Longrightarrow> access_in cells s (store r w now_ms s)"
| wake: "access_in cells s (futex_wake r w s)"

inductive_cases access_inE: "access_in cells s t"

abbreviation sdk_access :: "shm \<Rightarrow> shm \<Rightarrow> bool" where "sdk_access \<equiv> access_in UNIV"

lemma sdk_access_grow: "access_in cells s t \<Longrightarrow> expirations_grow s t"
  by (erule access_inE) (auto simp: fetch_add_def intro!: grow_store)

lemma sdk_accesses_grow: "(access_in cells)\<^sup>*\<^sup>* s t \<Longrightarrow> expirations_grow s t"
  by (induction rule: rtranclp_induct) (auto intro: grow_trans sdk_access_grow)

lemma sdk_access_next_region: "access_in cells s t \<Longrightarrow> next_region t = next_region s"
  by (erule access_inE) (auto simp: fetch_add_def shm_simps)

text \<open>A cell that may not be written keeps its value.\<close>

lemma access_elsewhere: "access_in cells s t \<Longrightarrow> (r, w) \<notin> cells \<Longrightarrow> load r w t = load r w s"
  by (erule access_inE) (auto simp: fetch_add_def shm_simps)

section \<open>The operations of the SDK as accesses\<close>

text \<open>
  An operation of the SDK between whose accesses others act makes only accesses of its own:
  with others that keep to a preorder that every access to the cells keeps to, the whole
  operation does, if the cells hold every word it writes.
\<close>

definition touch_keeps :: "(shm \<Rightarrow> shm \<Rightarrow> bool) \<Rightarrow> touch_round \<Rightarrow> bool" where
  "touch_keeps guar rd \<longleftrightarrow>
     (\<forall>(f, b) \<in> set (arm_sched rd). \<forall>s. guar s (f s)) \<and>
     (\<forall>s. guar s (before_load rd s) \<and> guar s (before_store rd s) \<and> guar s (sleeping rd s))"

definition wait_keeps :: "(shm \<Rightarrow> shm \<Rightarrow> bool) \<Rightarrow> wait_round \<Rightarrow> bool" where
  "wait_keeps guar rd \<longleftrightarrow>
     (\<forall>s. guar s (between rd s) \<and> guar s (asleep rd s) \<and> guar s (awake rd s) \<and> guar s (around rd s))"

definition start_keeps :: "(shm \<Rightarrow> shm \<Rightarrow> bool) \<Rightarrow> wait_start \<Rightarrow> bool" where
  "start_keeps guar st \<longleftrightarrow>
     (\<forall>(f, b) \<in> set (raise_sched st) \<union> set (start_sched st). \<forall>s. guar s (f s)) \<and>
     (\<forall>s. guar s (before_raise st s) \<and> guar s (before_arm st s) \<and> guar s (before_rounds st s))"

locale interleaving =
  fixes cells :: "(region \<times> word_id) set"
    and guar :: "shm \<Rightarrow> shm \<Rightarrow> bool"
  assumes guar_trans: "guar s t \<Longrightarrow> guar t u \<Longrightarrow> guar s u"
    and guar_refl: "guar s s"
    and guar_access: "access_in cells s t \<Longrightarrow> guar s t"
begin

lemma access_last: "guar s t \<Longrightarrow> access_in cells t u \<Longrightarrow> guar s u"
  by (rule guar_trans [OF _ guar_access])

lemma handle_opened: "(r, Open_Word) \<in> cells \<Longrightarrow> guar s (handle_open r h s)"
  and handle_closed: "(r, Closed_Word) \<in> cells \<Longrightarrow> guar s (handle_close r h s)"
  unfolding handle_open_def handle_close_def
  by (rule access_last [OF guar_access]; (rule access_in.add access_in.wake; simp)?)+

lemma freeing: "(r, Expiration_Word) \<in> cells \<Longrightarrow> guar s (owner_free r s)"
  unfolding owner_free_def interlock_free_def
  by (rule access_last [OF access_last [OF guar_access]]; (rule access_in.free access_in.wake; simp)?)

lemma detaching: "(r, Open_Word) \<in> cells \<Longrightarrow> guar s (attached_free r s)"
  unfolding attached_free_def
  by (rule access_last [OF access_last [OF guar_access]]; (rule access_in.detach access_in.wake; simp)?)

lemma exchanging:
  assumes "compare_exchange_weak r w current target spurious s = (b, t)" and "(r, w) \<in> cells"
    and "current < target" and "w = Open_Word \<or> w = Expiration_Word \<and> current \<noteq> SENTINEL"
  shows "guar s t"
  using assms
  by (auto simp: compare_exchange_weak_def intro: guar_refl guar_access access_in.intros split: if_splits)

lemma arming_loop:
  assumes "(r, Expiration_Word) \<in> cells"
  shows "\<forall>(f, b) \<in> set sched. \<forall>s. guar s (f s) \<Longrightarrow> arm_loop r deadline sched s = (res, t) \<Longrightarrow> guar s t"
proof (induction sched arbitrary: s)
  case Nil
  then show ?case by (simp add: guar_refl)
next
  case (Cons x sched)
  obtain f b where x: "x = (f, b)" by fastforce
  have f: "guar s (f s)" using Cons.prems(1) by (simp add: x)
  let ?c = "load r Expiration_Word s"
  show ?case
  proof (cases "?c = SENTINEL \<or> deadline \<le> ?c")
    case True
    with Cons.prems(2) show ?thesis by (auto simp: x Let_def max_def guar_refl split: if_splits)
  next
    case False
    obtain ok u where e: "compare_exchange_weak r Expiration_Word ?c deadline b (f s) = (ok, u)" by fastforce
    with False have su: "guar s u" by (intro guar_trans [OF f exchanging [OF e assms]]) auto
    show ?thesis
    proof (cases ok)
      case True
      with Cons.prems(2) False e su show ?thesis by (auto simp: x Let_def max_def split: if_splits)
    next
      case ok: False
      with Cons.prems(2) False e have "arm_loop r deadline sched u = (res, t)"
        by (auto simp: x Let_def max_def split: if_splits)
      with Cons.IH [OF _ this] Cons.prems(1) su show ?thesis by (auto intro: guar_trans)
    qed
  qed
qed

lemma arming:
  assumes "(r, Expiration_Word) \<in> cells" and "\<forall>(f, b) \<in> set sched. \<forall>s. guar s (f s)"
    and "interlock_arm r ttl now sched s = (res, t)"
  shows "guar s t"
  using arming_loop [OF assms(1,2)] assms(3) by (simp add: interlock_arm_def)

lemma touching:
  assumes "(r, Expiration_Word) \<in> cells" and "\<forall>(f, b) \<in> set sched. \<forall>s. guar s (f s)"
  shows "guar s (snd (handle_touch r ms now sched s))"
  using arming [OF assms, of "ms_to_nanos ms" now s]
  by (cases "interlock_arm r (ms_to_nanos ms) now sched s") (auto simp: handle_touch_def)

text \<open>Rounds each of which keeps to the guarantee.\<close>

lemma rounds:
  assumes "\<And>x s. x \<in> set xs \<Longrightarrow> guar s (left_state (f x s))"
  shows "guar s (snd (run_rounds f xs s))"
  by (rule run_rounds_preorder [where R = guar]) (blast intro: assms guar_refl guar_trans)+

lemma raising:
  assumes "(r, Open_Word) \<in> cells" and "\<forall>(f, b) \<in> set sched. \<forall>s. guar s (f s)"
  shows "guar s (snd (cas_max r target sched s))"
  unfolding cas_max_def
proof (rule rounds)
  fix x and s :: shm
  assume "x \<in> set sched"
  moreover obtain f b where x: "x = (f, b)" by fastforce
  ultimately have f: "guar s (f s)" using assms(2) by auto
  obtain ok u where e: "compare_exchange_weak r Open_Word (load r Open_Word s) target b (f s) = (ok, u)"
    by fastforce
  show "guar s (left_state (cas_max_round r target x s))"
  proof (cases "target \<le> load r Open_Word s")
    case True
    then show ?thesis by (simp add: cas_max_round_def x guar_refl)
  next
    case False
    with exchanging [OF e assms(1)] f have "guar s u" by (auto intro: guar_trans)
    with False e show ?thesis by (cases ok) (simp_all add: cas_max_round_def x)
  qed
qed

lemma heartbeat:
  assumes "(r, Expiration_Word) \<in> cells" and "touch_keeps guar rd"
  shows "guar s (left_state (touch_step r interval_ms rd s))"
    and "(r, Open_Word) \<in> cells \<Longrightarrow> guar s (left_state (process_clock_step r clk interval_ms rd s))"
proof -
  obtain res t where a: "interlock_arm r (touch_ttl interval_ms) (arm_reading rd) (arm_sched rd) s = (res, t)"
    by fastforce
  have t: "guar s t" using arming [OF assms(1) _ a] assms(2) by (simp add: touch_keeps_def)
  let ?u = "before_store rd (before_load rd t)" and ?v = "load clk Open_Word (before_load rd t)"
  have "guar s (sleeping rd t)" using assms(2) t unfolding touch_keeps_def by (meson guar_trans)
  with t a show "guar s (left_state (touch_step r interval_ms rd s))"
    by (auto simp: touch_step_def guar_refl split: option.splits sum.splits)
  assume cell: "(r, Open_Word) \<in> cells"
  have "guar s ?u" using assms(2) t unfolding touch_keeps_def by (meson guar_trans)
  then have "guar s (store r Open_Word ?v ?u)" by (rule access_last) (rule access_in.publish [OF cell]; simp)
  then have "guar s (sleeping rd (store r Open_Word ?v ?u))"
    using assms(2) unfolding touch_keeps_def by (meson guar_trans)
  with t a show "guar s (left_state (process_clock_step r clk interval_ms rd s))"
    by (auto simp: process_clock_step_def Let_def guar_refl split: option.splits sum.splits)
qed

lemma clock_started:
  assumes "(r, Open_Word) \<in> cells" and "(r, Closed_Word) \<in> cells"
    and "\<And>s. guar s (f s)" and "\<And>s. guar s (g s)"
  shows "guar s (process_clock_new r clk f g s)"
  unfolding process_clock_new_def Let_def
  by (rule access_last [OF guar_trans [OF access_last [OF assms(3)] assms(4)]];
      rule access_in.publish; simp add: assms)

section \<open>Waits\<close>

lemma waiting:
  assumes "wait_keeps guar rd"
  shows "guar s (left_state (wait_word_round r w target rd s))"
    and "guar s (left_state (counter_round r rd s))"
    and "guar s (left_state (timer_round r deadline rd s))"
    and "guar s (left_state (cron_round r initial rd s))"
    and "guar s (left_state (barrier_round r rd s))"
proof -
  have others: "guar s u \<Longrightarrow> guar s (between rd u)" "guar s u \<Longrightarrow> guar s (asleep rd u)"
    "guar s u \<Longrightarrow> guar s (awake rd u)" "guar s u \<Longrightarrow> guar s (around rd u)" for u
    using assms unfolding wait_keeps_def by (blast intro: guar_trans)+
  show "guar s (left_state (wait_word_round r w target rd s))"
    by (simp add: wait_word_round_def Let_def guar_refl others)
  show "guar s (left_state (counter_round r rd s))"
    by (simp add: counter_round_def Let_def guar_refl others)
  show "guar s (left_state (timer_round r deadline rd s))"
    by (simp add: timer_round_def Let_def guar_refl others)
  show "guar s (left_state (cron_round r initial rd s))"
    by (simp add: cron_round_def Let_def guar_refl others)
  show "guar s (left_state (barrier_round r rd s))"
    by (simp add: barrier_round_def Let_def guar_refl others)
qed

lemma waiting_loops:
  assumes "\<forall>rd \<in> set rounds. wait_keeps guar rd"
  shows "guar s (snd (wait_open r target rounds s))"
    and "guar s (snd (wait_close r target rounds s))"
    and "guar s (snd (run_rounds (counter_round r) rounds s))"
    and "guar s (snd (run_rounds (timer_round r deadline) rounds s))"
    and "guar s (snd (barrier_wait r rounds s))"
    and "(\<And>s. guar s (f s)) \<Longrightarrow> guar s (snd (cron_wait r f rounds s))"
  unfolding wait_open_def wait_close_def barrier_wait_def cron_wait_def
  using assms by (blast intro: rounds waiting guar_trans)+

text \<open>The waits that raise a target and arm first.\<close>

lemma starting:
  assumes "(r, Open_Word) \<in> cells" and "(r, Expiration_Word) \<in> cells" and "start_keeps guar st"
    and "cas_max r target (raise_sched st) (before_raise st s) = (res, s1)"
  shows "guar s s1"
    and "interlock_arm r ttl (start_reading st) (start_sched st) (before_arm st s1) = (out, s2) \<Longrightarrow> guar s s2"
    and "interlock_arm r ttl (start_reading st) (start_sched st) (before_arm st s1) = (out, s2) \<Longrightarrow>
      guar s (before_rounds st s2)"
proof -
  have st: "\<forall>(f, b) \<in> set (raise_sched st). \<forall>s. guar s (f s)"
    "\<forall>(f, b) \<in> set (start_sched st). \<forall>s. guar s (f s)"
    "guar s (before_raise st s)" "guar s (before_arm st s)" "guar s (before_rounds st s)" for s
    using assms(3) by (auto simp: start_keeps_def)
  have "guar s (snd (cas_max r target (raise_sched st) (before_raise st s)))"
    by (rule guar_trans [OF st(3) raising [OF assms(1) st(1)]])
  with assms(4) show s1: "guar s s1" by simp
  assume a: "interlock_arm r ttl (start_reading st) (start_sched st) (before_arm st s1) = (out, s2)"
  show s2: "guar s s2" by (rule guar_trans [OF guar_trans [OF s1 st(4)] arming [OF assms(2) st(2) a]])
  show "guar s (before_rounds st s2)" by (rule guar_trans [OF s2 st(5)])
qed

lemma started_rounds:
  assumes "(r, Open_Word) \<in> cells" and "(r, Expiration_Word) \<in> cells" and "start_keeps guar st"
    and "cas_max r target (raise_sched st) (before_raise st s) = (res, s1)"
    and "interlock_arm r ttl (start_reading st) (start_sched st) (before_arm st s1) = (out, s2)"
    and "\<And>t. guar t (snd (run_rounds f rounds t))"
  shows "guar s (snd (run_rounds f rounds (before_rounds st s2)))"
  by (rule guar_trans [OF starting(3) [OF assms(1-5)] assms(6)])

lemma waiting_until:
  assumes "(r, Open_Word) \<in> cells" and "(r, Expiration_Word) \<in> cells" and "start_keeps guar st"
    and "\<forall>rd \<in> set rounds. wait_keeps guar rd"
  shows "guar s (snd (counter_wait_until r target timeout_ms st rounds s))"
    and "guar s (snd (timer_wait_ms r clk ms st now rounds s))"
    and "(\<And>s. guar s (f s)) \<Longrightarrow> guar s (snd (timer_wait_until r clk ts f st now rounds s))"
proof -
  note begun = starting(1,2) [OF assms(1-3)]
  note ended = started_rounds [OF assms(1-3)]
  show "guar s (snd (counter_wait_until r target timeout_ms st rounds s))"
    using begun
    by (auto simp: counter_wait_until_def Let_def intro: ended [OF _ _ waiting_loops(3) [OF assms(4)]]
        split: prod.split option.split sum.split)
  show timer: "guar s (snd (timer_wait_ms r clk ms st now rounds s))" for ms s
    using begun
    by (auto simp: timer_wait_ms_def Let_def intro: ended [OF _ _ waiting_loops(4) [OF assms(4)]]
        split: prod.split option.split sum.split)
  show "(\<And>s. guar s (f s)) \<Longrightarrow> guar s (snd (timer_wait_until r clk ts f st now rounds s))"
    unfolding timer_wait_until_def Let_def by (rule guar_trans [OF _ timer])
qed

end

text \<open>
  The relations the development uses it with: the accesses themselves, the growth of the
  expirations, and the value of a cell that is not written.
\<close>

interpretation accesses: interleaving cells "(access_in cells)\<^sup>*\<^sup>*" for cells
  by unfold_locales (auto intro: rtranclp_trans)

interpretation growing: interleaving UNIV expirations_grow
  by unfold_locales (auto intro: grow_trans sdk_access_grow)

interpretation elsewhere: interleaving "- {(r, w)}" "\<lambda>s t. load r w t = load r w s" for r w
  by unfold_locales (auto dest: access_elsewhere)

end
