(* ===== verification/Concurrency.thy ===== *)
theory Concurrency
  imports Daemon Sdk_Access
begin

text \<open>
  The daemon and its clients at the same time: the atomic accesses to shared memory that the
  SDK makes, the guarantee that every access of every party keeps to, and the system of a
  daemon whose cycles are interleaved with the accesses of any number of client threads.
\<close>

section \<open>The accesses of the daemon\<close>

lemma grow_mem:
  "next_region s \<le> next_region t \<Longrightarrow> (\<And>r. r < next_region s \<Longrightarrow> mem t r = mem s r) \<Longrightarrow> expirations_grow s t"
  by (simp add: expirations_grow_def load_def)

interpretation daemon_grows: daemon_accesses expirations_grow
proof
  fix k now s out s'
  assume c: "interlock_create k now s = (out, s')"
  show "expirations_grow s s'"
  proof (cases out)
    case (Inl e)
    with c interlock_create_Inl(1,2) show ?thesis by (intro grow_mem) blast+
  next
    case (Inr h)
    with c interlock_create_Inr show ?thesis by (intro grow_mem) fastforce+
  qed
qed (auto intro: grow_trans grow_store)

text \<open>What others do during a visit, all of it keeping to the guarantee.\<close>

abbreviation grows :: "(shm \<Rightarrow> shm) \<Rightarrow> bool" where
  "grows f \<equiv> (\<forall>s. expirations_grow s (f s))"

definition schedule_grows :: "pass_schedule \<Rightarrow> bool" where
  "schedule_grows sched \<longleftrightarrow> (\<forall>(n, v) \<in> set sched. visit_all grows v)"

lemma evaluate_all_grow:
  "schedule_grows sched \<Longrightarrow> evaluate_all now_ms now_ns sched reg s = Some (reg', s') \<Longrightarrow> expirations_grow s s'"
  unfolding schedule_grows_def by (auto simp: evaluate_all_def dest: daemon_grows.passing)

text \<open>
  What serving a request keeps to, whatever others do meanwhile: a well-formed registry with
  the same clock, regions that have left the table, and every expiration.
\<close>

definition stays :: "registry \<Rightarrow> shm \<Rightarrow> registry \<Rightarrow> shm \<Rightarrow> bool" where
  "stays reg s reg' s' \<longleftrightarrow>
     registry_inv reg' s' \<and> clock reg' = clock reg \<and> expirations_grow s s' \<and>
     (\<forall>r. r < next_region s \<longrightarrow> orphan reg r \<longrightarrow> orphan reg' r)"

lemma grow_regions: "expirations_grow s t \<Longrightarrow> next_region s \<le> next_region t"
  by (simp add: expirations_grow_def)

lemma create_orphan:
  assumes "create k gap now name t wn ww ival conds reg s = Some (out, reg', s')"
    and "r < next_region s" and "orphan reg r"
  shows "orphan reg' r"
proof (cases out)
  case (Inl e)
  with create_Inl assms(1,3) show ?thesis by metis
next
  case (Inr a)
  then obtain i h where out: "out = Inr (i, h)" by (cases a) auto
  show ?thesis
    by (rule create_Inr [OF assms(1) [unfolded out]])
       (use assms(2,3) in \<open>auto simp: orphan_def dest: interlock_create_Inr(1)\<close>)
qed

interpretation busy_requests: request_effects stays grows
proof
  fix reg s gap k now name t wn ww ival conds out reg' s'
  assume inv: "registry_inv reg s" and gap: "\<And>i. grows (gap i)"
    and c: "create k gap now name t wn ww ival conds reg s = Some (out, reg', s')"
  have "allocates (gap i)" for i using gap grow_regions by blast
  then show "stays reg s reg' s'"
    using create_inv [OF inv c] create_clock [OF c] create_orphan [OF c] daemon_grows.creating [OF c] gap
    by (simp add: stays_def)
next
  fix reg s f
  assume "registry_inv reg s" and "grows f"
  then show "stays reg s reg (f s)"
    using registry_inv_mono grow_regions by (auto simp: stays_def)
next
  fix reg s reg1 s1 reg2 s2
  assume "stays reg s reg1 s1" and "stays reg1 s1 reg2 s2"
  then show "stays reg s reg2 s2"
    unfolding stays_def by (auto intro: grow_trans dest: grow_regions order_less_le_trans)
qed (auto simp: stays_def)

section \<open>The system\<close>

text \<open>
  A cycle of the daemon with clients that act before each request, in the middle of a reap,
  before and after its evaluation pass and between any two accesses of it, and during its arm;
  and an access of a client between cycles.  What the clients do in between is any function
  whose effect on any memory is a sequence of accesses.
\<close>

definition client_behaviour :: "(shm \<Rightarrow> shm) \<Rightarrow> bool" where
  "client_behaviour f \<longleftrightarrow> (\<forall>s. sdk_access\<^sup>*\<^sup>* s (f s))"

definition env_all :: "((shm \<Rightarrow> shm) \<Rightarrow> bool) \<Rightarrow> cycle_env \<Rightarrow> bool" where
  "env_all P env \<longleftrightarrow>
     (\<forall>i. P (before_request env i)) \<and> (\<forall>i j. P (reap_gap (request_envs env i) j)) \<and>
     P (before_tick env) \<and> P (after_pass env) \<and> list_all (\<lambda>(n, v). visit_all P v) (eval_sched env) \<and>
     list_all (\<lambda>(f, b). P f) (refresh_sched env)"

abbreviation env_of_clients :: "cycle_env \<Rightarrow> bool" where
  "env_of_clients \<equiv> env_all client_behaviour"

inductive system_step :: "daemon \<Rightarrow> daemon \<Rightarrow> bool" where
  cycle: "daemon_cycle env d = Some (Inr d') \<Longrightarrow> env_of_clients env \<Longrightarrow> system_step d d'"
| client: "sdk_access (shm_of d) s \<Longrightarrow> system_step d (d\<lparr>shm_of := s\<rparr>)"

inductive_cases system_stepE: "system_step d d'"

lemma client_behaviour_grow: "client_behaviour f \<Longrightarrow> expirations_grow s (f s)"
  by (auto simp: client_behaviour_def intro: sdk_accesses_grow)

lemma env_of_clients_grow:
  assumes "env_of_clients env"
  shows "schedule_grows (eval_sched env)" and "schedule_ok (eval_sched env)"
    and "\<forall>(f, b) \<in> set (refresh_sched env). \<forall>s. expirations_grow s (f s)"
    and "grows (before_request env i)" and "grows (reap_gap (request_envs env i) j)"
    and "grows (before_tick env)" and "grows (after_pass env)"
proof -
  have v: "visit_all client_behaviour v" if "(n, v) \<in> set (eval_sched env)" for n v
    using assms that by (auto simp: env_all_def list_all_iff)
  show "schedule_grows (eval_sched env)"
    using visit_all_mono [OF v, of _ _ grows] client_behaviour_grow by (auto simp: schedule_grows_def)
  show "schedule_ok (eval_sched env)"
    using visit_all_mono [OF v, of _ _ allocates] client_behaviour_grow
    by (fastforce simp: schedule_ok_def expirations_grow_def)
  have "client_behaviour f" if "(f, b) \<in> set (refresh_sched env)" for f b
    using assms that by (auto simp: env_all_def list_all_iff)
  then show "\<forall>(f, b) \<in> set (refresh_sched env). \<forall>s. expirations_grow s (f s)"
    using client_behaviour_grow by auto
  show "grows (before_request env i)" "grows (reap_gap (request_envs env i) j)"
    "grows (before_tick env)" "grows (after_pass env)"
    using assms client_behaviour_grow unfolding env_all_def by blast+
qed

text \<open>What a step of the system keeps to.\<close>

definition system_guar :: "daemon \<Rightarrow> daemon \<Rightarrow> bool" where
  "system_guar d d' \<longleftrightarrow>
     clock_handle d' = clock_handle d \<and> expirations_grow (shm_of d) (shm_of d') \<and>
     (\<forall>r < next_region (shm_of d). orphan (reg_of d) r \<longrightarrow> orphan (reg_of d') r)"

lemma tick_interleaved:
  assumes "registry_inv reg s" and "clock reg = Some clk" and "env_of_clients env"
    and t: "tick env clk reg s = Some (reg', s')"
  shows "registry_inv reg' s'" and "clock reg' = Some clk" and "expirations_grow s s'"
    and "orphan reg r \<Longrightarrow> orphan reg' r"
proof -
  note env = env_of_clients_grow [OF assms(3)]
  let ?ms = "clock_now env div NANOS_PER_MS"
  let ?s1 = "store clk Open_Word ?ms (before_tick env s)"
  from t obtain s2 where e: "evaluate_all ?ms (eval_now env) (eval_sched env) reg ?s1 = Some (reg', s2)"
    and f: "refresh_clock_expiration (refresh_now env) (refresh_sched env) reg' (futex_wake clk Open_Word (after_pass env s2)) = Some s'"
    by (auto simp: tick_def Let_def bind_eq_Some_conv)
  have b: "expirations_grow s (before_tick env s)" using env(6) by blast
  then have "registry_inv reg ?s1"
    using registry_inv_mono [OF assms(1) grow_regions] by (simp add: registry_inv_store)
  from evaluate_all_inv [OF this env(2)] e have
    inv: "registry_inv reg' s2" "clock reg' = clock reg" "by_name reg' \<subseteq>\<^sub>m by_name reg" by (metis option.inject prod.inject)+
  obtain res where a: "interlock_arm clk 1000000000 (refresh_now env) (refresh_sched env)
      (futex_wake clk Open_Word (after_pass env s2)) = (Some res, s')"
    using f inv(2) assms(2) by (auto simp: refresh_clock_expiration_def split: option.splits prod.splits)
  have "expirations_grow s2 (after_pass env s2)" using env(7) by blast
  then have g: "expirations_grow s2 s'"
    by (rule grow_trans [OF _ grow_trans [OF grow_wake growing.arming [OF UNIV_I env(3) a]]])
  moreover have "expirations_grow s ?s1" by (rule grow_trans [OF b grow_store]) simp
  ultimately show "expirations_grow s s'" using evaluate_all_grow [OF env(1) e] by (blast intro: grow_trans)
  show "registry_inv reg' s'" using registry_inv_mono [OF inv(1)] g by (simp add: expirations_grow_def)
  show "clock reg' = Some clk" using inv(2) assms(2) by simp
  show "orphan reg' r" if "orphan reg r" using that inv(3) by (auto simp: orphan_def map_le_def) (metis domI)
qed

lemma cycle_interleaved:
  assumes "daemon_inv d" and c: "daemon_cycle env d = Some (Inr d')" and env: "env_of_clients env"
  shows "daemon_inv d' \<and> system_guar d d'"
proof -
  from c obtain cs rm cs' reg' s' cs'' reg'' s'' where
    serve: "serve_clients env [0..<length (clients d)] cs (reg_of d) (shm_of d) = Some (rm, cs', reg', s')"
    and tick: "tick env (clock_handle d) reg' s' = Some (reg'', s'')"
    and d': "d' = d\<lparr>cycle := cycle d + 1, clients := cs'', reg_of := reg'', shm_of := s''\<rparr>"
    by (auto simp: daemon_cycle_def Let_def bind_eq_Some_conv split: if_splits)
  have inv: "registry_inv (reg_of d) (shm_of d)" using assms(1) by (simp add: daemon_inv_def)
  have k: "stays (reg_of d) (shm_of d) reg' s'"
    by (rule busy_requests.serving [OF inv _ _ serve]) (rule env_of_clients_grow [OF env])+
  then have "registry_inv reg' s'" "clock reg' = Some (clock_handle d)"
    using assms(1) by (simp_all add: stays_def daemon_inv_def)
  note t = tick_interleaved [OF this env tick]
  have "expirations_grow (shm_of d) s''" using k t(3) by (auto simp: stays_def intro: grow_trans)
  with t k show ?thesis by (auto simp: d' daemon_inv_def system_guar_def stays_def)
qed

lemma access_interleaved:
  assumes "daemon_inv d" and "sdk_access (shm_of d) s"
  shows "daemon_inv (d\<lparr>shm_of := s\<rparr>) \<and> system_guar d (d\<lparr>shm_of := s\<rparr>)"
  using assms registry_inv_mono sdk_access_next_region [OF assms(2)] sdk_access_grow [OF assms(2)]
  by (auto simp: daemon_inv_def system_guar_def)

lemma system_step_keeps: "system_step d e \<Longrightarrow> daemon_inv d \<Longrightarrow> daemon_inv e \<and> system_guar d e"
  using cycle_interleaved access_interleaved by (auto elim!: system_stepE)

interpretation system_run: step_guarantee system_step daemon_inv system_guar
proof
  show "daemon_inv d \<Longrightarrow> system_guar d d" for d by (simp add: system_guar_def)
  show "system_guar d e \<Longrightarrow> system_guar e f \<Longrightarrow> system_guar d f" for d e f
    unfolding system_guar_def by (metis expirations_grow_def grow_trans order_less_le_trans)
  show "daemon_inv d \<Longrightarrow> system_step d e \<Longrightarrow> daemon_inv e" for d e
    using system_step_keeps by blast
  show "daemon_inv d \<Longrightarrow> system_step d e \<Longrightarrow> system_guar d e" for d e
    using system_step_keeps by blast
qed

section \<open>A region that is left alone\<close>

text \<open>
  A region that belongs to no entry, the clock's own entry apart: no request and no visit of the
  pass writes to it.  Whatever preorder the accesses to all other regions keep to, the daemon keeps
  to up to its arm, with clients in between that keep to it.
\<close>

definition spared :: "registry \<Rightarrow> region \<Rightarrow> bool" where
  "spared reg r \<longleftrightarrow> (\<forall>n e. by_name reg n = Some e \<longrightarrow> n \<noteq> clock_name \<longrightarrow> e_handle e \<noteq> r)"

lemma orphan_spared: "orphan reg r \<longleftrightarrow> spared reg r \<and> clock reg \<noteq> Some r"
  by (auto simp: orphan_def spared_def clock_def)

lemma clock_spared: "registry_inv reg s \<Longrightarrow> clock reg = Some clk \<Longrightarrow> spared reg clk"
  using registry_invD(4) by (fastforce simp: spared_def clock_def)

definition passes_by :: "region \<Rightarrow> (shm \<Rightarrow> shm \<Rightarrow> bool) \<Rightarrow> registry \<Rightarrow> shm \<Rightarrow> registry \<Rightarrow> shm \<Rightarrow> bool" where
  "passes_by r R reg s reg' s' \<longleftrightarrow>
     registry_inv reg' s' \<and> clock reg' = clock reg \<and> next_region s \<le> next_region s' \<and>
     (r < next_region s \<longrightarrow> spared reg r \<longrightarrow> spared reg' r \<and> R s s')"

locale bystander = region_accesses "- {r}" R for r :: region and R +
  assumes R_next: "R s t \<Longrightarrow> next_region s \<le> next_region t"
    and R_alloc: "r < next_region s \<Longrightarrow> interlock_create k now s = (out, s') \<Longrightarrow> R s s'"
begin

lemma initialising_other: "init_words t c ival h s = Some s' \<Longrightarrow> h \<noteq> r \<Longrightarrow> R s s'"
  by (cases t; auto simp: bind_eq_Some_conv R_refl R_count intro!: R_trans [OF R_count R_count])

lemma creating_other:
  assumes c: "create k gap now name t wn ww ival conds reg s = Some (out, reg', s')"
    and "\<And>i s. R s (gap i s)" and "r < next_region s" and "spared reg r"
  shows "spared reg' r \<and> R s s'"
proof (cases out)
  case (Inl e)
  with create_Inl c assms(3,4) show ?thesis by (metis R_refl R_alloc)
next
  case (Inr a)
  then obtain i h where out: "out = Inr (i, h)" by (cases a) auto
  show ?thesis
  proof (rule create_Inr [OF c [unfolded out]])
    fix res s1 s2 clk
    assume name: "name \<noteq> clock_name" and s1: "interlock_create k now s = (Inr h, s1)"
      and s2: "init_words t (load clk Open_Word s1) (resolved_interval res) h s1 = Some s2"
      and s': "s' = reap_old gap (by_name reg name) s2"
      and reg': "reg' = reg\<lparr>next_id := i + 1, by_name := (by_name reg)(name \<mapsto> entry_of i h t res)\<rparr>"
    have h: "h \<noteq> r" using interlock_create_Inr(1) [OF s1] assms(3) by simp
    have "R s2 s'"
      using assms(2,4) name by (auto simp: s' reap_old_def R_refl spared_def intro!: reaping split: option.splits)
    then have "R s s'" by (rule R_trans [OF R_trans [OF R_alloc [OF assms(3) s1] initialising_other [OF s2 h]]])
    moreover have "spared reg' r" using assms(4) h by (auto simp: reg' spared_def)
    ultimately show ?thesis by blast
  qed
qed

lemma done_others: "\<forall>(f, b) \<in> set sched. \<forall>s. R s (f s) \<Longrightarrow> R s (others_done n sched s)"
proof (induction sched arbitrary: n s)
  case Nil
  then show ?case by (simp add: others_done_def R_refl)
next
  case (Cons x sched)
  then show ?case by (cases n) (auto simp: R_refl intro: R_trans)
qed

text \<open>The tick up to its arm.\<close>

lemma ticking:
  assumes "registry_inv reg s" and "clock reg = Some clk" and "r < next_region s" and "spared reg r"
    and env: "env_all (\<lambda>f. \<forall>s. R s (f s)) env" and publish: "\<And>v s. R s (store clk Open_Word v s)"
    and t: "tick env clk reg s = Some (reg', s')"
  shows "\<exists>s3 res. R s s3 \<and> interlock_arm clk 1000000000 (refresh_now env) (refresh_sched env) s3 = (Some res, s') \<and>
    registry_inv reg' s3 \<and> clock reg' = Some clk \<and> spared reg' r"
proof -
  let ?ms = "clock_now env div NANOS_PER_MS"
  let ?s1 = "store clk Open_Word ?ms (before_tick env s)"
  from t obtain s2 where e: "evaluate_all ?ms (eval_now env) (eval_sched env) reg ?s1 = Some (reg', s2)"
    and f: "refresh_clock_expiration (refresh_now env) (refresh_sched env) reg' (futex_wake clk Open_Word (after_pass env s2)) = Some s'"
    by (auto simp: tick_def Let_def bind_eq_Some_conv)
  have visits: "\<forall>(n, v) \<in> set (eval_sched env). visit_all (\<lambda>f. \<forall>s. R s (f s)) v"
    using env by (auto simp: env_all_def list_all_iff)
  then have ok: "schedule_ok (eval_sched env)"
    by (auto simp: schedule_ok_def elim!: visit_all_mono dest!: bspec intro: R_next)
  have 1: "R s ?s1" using env by (intro R_trans [OF _ publish]) (simp add: env_all_def)
  have "registry_inv reg ?s1" by (rule registry_inv_mono [OF assms(1) R_next [OF 1]])
  from evaluate_all_inv [OF this ok] e have
    inv: "registry_inv reg' s2" "clock reg' = clock reg" "by_name reg' \<subseteq>\<^sub>m by_name reg"
    by (metis option.inject prod.inject)+
  from e obtain rm where "evaluate_each ?ms (eval_now env) reg (eval_sched env) ?s1 = Some (rm, s2)"
    by (auto simp: evaluate_all_def)
  then have "R ?s1 s2" by (rule visiting_all [OF _ visits, rotated]) (use assms(4) in \<open>auto simp: spared_def\<close>)
  moreover have "R s2 (after_pass env s2)" using env by (simp add: env_all_def)
  ultimately have 3: "R s (futex_wake clk Open_Word (after_pass env s2))"
    by (intro R_trans [OF 1] R_trans [OF _ R_wake]) (rule R_trans)
  obtain res where "interlock_arm clk 1000000000 (refresh_now env) (refresh_sched env)
      (futex_wake clk Open_Word (after_pass env s2)) = (Some res, s')"
    using f inv(2) assms(2) by (auto simp: refresh_clock_expiration_def split: option.splits prod.splits)
  moreover have "registry_inv reg' (futex_wake clk Open_Word (after_pass env s2))"
    using registry_inv_mono [OF inv(1) R_next [OF \<open>R s2 (after_pass env s2)\<close>]] by (simp add: registry_inv_store)
  moreover have "spared reg' r" using inv(3) assms(4) by (auto simp: spared_def map_le_def) (metis domI)
  ultimately show ?thesis using 3 inv(2) assms(2) by (intro exI conjI) auto
qed

end

sublocale bystander \<subseteq> request_effects "passes_by r R" "\<lambda>f. \<forall>s. R s (f s)"
proof
  fix reg s gap k now name t wn ww ival conds out reg' s'
  assume inv: "registry_inv reg s" and gap: "\<And>i. \<forall>s. R s (gap i s)"
    and c: "create k gap now name t wn ww ival conds reg s = Some (out, reg', s')"
  have "allocates (gap i)" for i using gap R_next by blast
  then show "passes_by r R reg s reg' s'"
    using create_inv [OF inv c] create_clock [OF c] creating_other [OF c] gap by (simp add: passes_by_def)
next
  fix reg s f
  assume "registry_inv reg s" and "\<forall>s. R s (f s)"
  then show "passes_by r R reg s reg (f s)" using R_next registry_inv_mono by (simp add: passes_by_def)
next
  fix reg s reg1 s1 reg2 s2
  assume "passes_by r R reg s reg1 s1" and "passes_by r R reg1 s1 reg2 s2"
  then show "passes_by r R reg s reg2 s2" by (auto simp: passes_by_def intro: R_trans)
qed (auto simp: passes_by_def R_refl)

text \<open>Nothing is written to the region, and the history says so.\<close>

definition unwritten :: "region \<Rightarrow> shm \<Rightarrow> shm \<Rightarrow> bool" where
  "unwritten r s t \<longleftrightarrow> mem t r = mem s r \<and> next_region s \<le> next_region t \<and>
     (\<exists>evs. trace t = trace s @ evs \<and> (\<forall>w v. Stored r w v \<notin> set evs))"

interpretation unwritten: bystander r "unwritten r"
proof
  fix s t u :: shm
  assume "unwritten r s t" and "unwritten r t u"
  then show "unwritten r s u" by (force simp: unwritten_def)
next
  fix s k now out s'
  assume r: "r < next_region s" and c: "interlock_create k now s = (out, s')"
  have "mem s' r = mem s r \<and> next_region s \<le> next_region s'"
  proof (cases out)
    case (Inl e)
    with interlock_create_Inl(1,2) [OF c [unfolded Inl]] r show ?thesis by simp
  next
    case (Inr h)
    with interlock_create_Inr(1,2) [OF c [unfolded Inr]] interlock_create_Inr(4) [OF c [unfolded Inr], of r] r
    show ?thesis by simp
  qed
  moreover have "\<exists>evs. trace s' = trace s @ evs \<and> (\<forall>w v. Stored r w v \<notin> set evs)"
    using r c by (auto simp: interlock_create_def memfd_create_def mmap_interlock_def shm_simps
        split: if_splits sum.splits mmap_reply.splits)
  ultimately show "unwritten r s s'" by (simp add: unwritten_def)
qed (auto simp: unwritten_def shm_simps)

text \<open>The whole cycle up to its arm.\<close>

context bystander
begin

lemma cycling:
  assumes "daemon_inv d" and "r < next_region (shm_of d)" and "spared (reg_of d) r"
    and env: "env_all (\<lambda>f. \<forall>s. R s (f s)) env" and publish: "\<And>v s. R s (store (clock_handle d) Open_Word v s)"
    and c: "daemon_cycle env d = Some (Inr d')"
  shows "\<exists>s3 res. R (shm_of d) s3 \<and>
    interlock_arm (clock_handle d) 1000000000 (refresh_now env) (refresh_sched env) s3 = (Some res, shm_of d') \<and>
    registry_inv (reg_of d') s3 \<and> clock (reg_of d') = Some (clock_handle d) \<and> spared (reg_of d') r \<and>
    clock_handle d' = clock_handle d"
proof -
  from c obtain cs rm cs' reg' s' cs'' reg'' s'' where
    serve: "serve_clients env [0..<length (clients d)] cs (reg_of d) (shm_of d) = Some (rm, cs', reg', s')"
    and tick: "tick env (clock_handle d) reg' s' = Some (reg'', s'')"
    and d': "d' = d\<lparr>cycle := cycle d + 1, clients := cs'', reg_of := reg'', shm_of := s''\<rparr>"
    by (auto simp: daemon_cycle_def Let_def bind_eq_Some_conv split: if_splits)
  have inv: "registry_inv (reg_of d) (shm_of d)" using assms(1) by (simp add: daemon_inv_def)
  have k: "passes_by r R (reg_of d) (shm_of d) reg' s'"
    by (rule serving [OF inv _ _ serve]) (use env in \<open>simp_all add: env_all_def\<close>)
  then have "registry_inv reg' s'" "clock reg' = Some (clock_handle d)" "r < next_region s'" "spared reg' r"
    and served: "R (shm_of d) s'"
    using assms(1-3) by (simp_all add: passes_by_def daemon_inv_def)
  from ticking [OF this(1-4) env publish tick] obtain s3 res where "R s' s3"
    "interlock_arm (clock_handle d) 1000000000 (refresh_now env) (refresh_sched env) s3 = (Some res, s'')"
    "registry_inv reg'' s3" "clock reg'' = Some (clock_handle d)" "spared reg'' r" by blast
  with R_trans [OF served] show ?thesis by (auto simp: d')
qed

end

text \<open>
  A cycle with clients that do anything to memory but write to the region, or such a client between
  two cycles.
\<close>

inductive step_beside :: "region \<Rightarrow> daemon \<Rightarrow> daemon \<Rightarrow> bool" for r where
  cycle: "daemon_cycle env d = Some (Inr d') \<Longrightarrow> env_all (\<lambda>f. \<forall>s. unwritten r s (f s)) env \<Longrightarrow> step_beside r d d'"
| client: "unwritten r (shm_of d) s \<Longrightarrow> step_beside r d (d\<lparr>shm_of := s\<rparr>)"

inductive_cases step_besideE: "step_beside r d d'"

definition beside_inv :: "region \<Rightarrow> daemon \<Rightarrow> bool" where
  "beside_inv r d \<longleftrightarrow> daemon_inv d \<and> r < next_region (shm_of d) \<and> orphan (reg_of d) r"

definition beside_guar :: "region \<Rightarrow> daemon \<Rightarrow> daemon \<Rightarrow> bool" where
  "beside_guar r d d' \<longleftrightarrow> clock_handle d' = clock_handle d \<and> unwritten r (shm_of d) (shm_of d')"

lemma arm_unwritten:
  assumes "interlock_arm h ttl now sched s = (Some res, s')" and "h \<noteq> r"
    and "\<forall>(f, b) \<in> set sched. \<forall>s. unwritten r s (f s)"
  shows "unwritten r s s'"
proof -
  obtain n where "arm_atomic h (now + ttl) (others_done n sched s) = (res, s')"
    using arm_loop_linearizes assms(1) unfolding interlock_arm_def by blast
  then have "unwritten r (others_done n sched s) s'"
    using assms(2) by (auto simp: arm_atomic_def unwritten_def shm_simps split: prod.splits if_splits)
  then show ?thesis by (rule unwritten.R_trans [OF unwritten.done_others [OF assms(3)]])
qed

lemma step_beside_keeps:
  assumes "step_beside r d d'" and "beside_inv r d"
  shows "beside_inv r d' \<and> beside_guar r d d'"
  using assms(1)
proof (rule step_besideE)
  fix env
  assume c: "daemon_cycle env d = Some (Inr d')" and env: "env_all (\<lambda>f. \<forall>s. unwritten r s (f s)) env"
  have d: "daemon_inv d" "r < next_region (shm_of d)" "spared (reg_of d) r" "clock_handle d \<noteq> r"
    using assms(2) by (auto simp: beside_inv_def orphan_spared daemon_inv_def)
  have "unwritten r s (store (clock_handle d) Open_Word v s)" for v s
    using d(4) by (simp add: unwritten.R_count)
  from unwritten.cycling [OF d(1-3) env this c] obtain s3 res where
    before: "unwritten r (shm_of d) s3" and
    arm: "interlock_arm (clock_handle d) 1000000000 (refresh_now env) (refresh_sched env) s3 = (Some res, shm_of d')"
    and after: "registry_inv (reg_of d') s3" "clock (reg_of d') = Some (clock_handle d)" "spared (reg_of d') r"
      "clock_handle d' = clock_handle d" by blast
  have "\<forall>(f, b) \<in> set (refresh_sched env). \<forall>s. unwritten r s (f s)"
    using env by (auto simp: env_all_def list_all_iff)
  then have last: "unwritten r s3 (shm_of d')" by (rule arm_unwritten [OF arm d(4)])
  then have "registry_inv (reg_of d') (shm_of d')"
    using registry_inv_mono [OF after(1)] by (simp add: unwritten_def)
  moreover have all: "unwritten r (shm_of d) (shm_of d')" by (rule unwritten.R_trans [OF before last])
  moreover have "r < next_region (shm_of d')" using d(2) all by (simp add: unwritten_def)
  ultimately show ?thesis
    using after d(4) by (simp add: beside_inv_def beside_guar_def daemon_inv_def orphan_spared)
next
  fix s
  assume "d' = d\<lparr>shm_of := s\<rparr>" and "unwritten r (shm_of d) s"
  then show ?thesis
    using assms(2) registry_inv_mono by (auto simp: beside_inv_def beside_guar_def daemon_inv_def unwritten_def)
qed

interpretation beside_run: step_guarantee "step_beside r" "beside_inv r" "beside_guar r"
proof
  show "beside_inv r d \<Longrightarrow> beside_guar r d d" for d by (simp add: beside_guar_def unwritten.R_refl)
  show "beside_guar r d e \<Longrightarrow> beside_guar r e f \<Longrightarrow> beside_guar r d f" for d e f
    by (auto simp: beside_guar_def intro: unwritten.R_trans)
qed (use step_beside_keeps in blast)+

text \<open>The clock is not terminated.\<close>

definition not_ended :: "region \<Rightarrow> shm \<Rightarrow> shm \<Rightarrow> bool" where
  "not_ended r s t \<longleftrightarrow> next_region s \<le> next_region t \<and>
     (load r Expiration_Word s \<noteq> SENTINEL \<longrightarrow> load r Expiration_Word t \<noteq> SENTINEL)"

interpretation not_ended: bystander r "not_ended r"
proof
  fix s k now out s'
  assume r: "r < next_region s" and c: "interlock_create k now s = (out, s')"
  have "unwritten r s s'" by (rule unwritten.R_alloc [OF r c])
  then show "not_ended r s s'" by (simp add: not_ended_def unwritten_def load_def)
qed (auto simp: not_ended_def shm_simps)

text \<open>A cycle whose clients leave the clock alive leaves it alive, for a second from the refresh.\<close>

lemma cycle_keeps_clock:
  assumes "daemon_inv d" and c: "daemon_cycle env d = Some (Inr d')"
    and env: "env_all (\<lambda>f. \<forall>s. not_ended (clock_handle d) s (f s)) env"
    and "load (clock_handle d) Expiration_Word (shm_of d) \<noteq> SENTINEL" and "refresh_now env + 1000000000 \<noteq> SENTINEL"
  shows "load (clock_handle d) Expiration_Word (shm_of d') \<noteq> SENTINEL \<and>
    refresh_now env + 1000000000 \<le> load (clock_handle d) Expiration_Word (shm_of d')"
proof -
  let ?clk = "clock_handle d"
  have inv: "registry_inv (reg_of d) (shm_of d)" "clock (reg_of d) = Some ?clk"
    using assms(1) by (simp_all add: daemon_inv_def)
  then have clk: "?clk < next_region (shm_of d)" "spared (reg_of d) ?clk"
    using clock_inv clock_spared by fastforce+
  have "not_ended ?clk s (store ?clk Open_Word v s)" for v s by (simp add: not_ended_def shm_simps)
  from not_ended.cycling [OF assms(1) clk env this c] obtain s3 res where
    before: "not_ended ?clk (shm_of d) s3" and
    arm: "interlock_arm ?clk 1000000000 (refresh_now env) (refresh_sched env) s3 = (Some res, shm_of d')" by blast
  let ?n = "\<lambda>n. others_done n (refresh_sched env) s3"
  obtain n where n: "arm_atomic ?clk (refresh_now env + 1000000000) (?n n) = (res, shm_of d')"
    using arm_loop_linearizes arm unfolding interlock_arm_def by blast
  have "not_ended ?clk s3 (?n n)"
    by (rule not_ended.done_others) (use env in \<open>auto simp: env_all_def list_all_iff\<close>)
  then have "load ?clk Expiration_Word (?n n) \<noteq> SENTINEL" using before assms(4) by (simp add: not_ended_def)
  with load_arm_atomic [OF n] assms(5) show ?thesis by (auto simp: arm_spec_def max_def split: if_splits)
qed

section \<open>Waits on a terminated interlock\<close>

text \<open>
  Once the expiration is at the sentinel, others cannot hide it: every wait that sleeps finds
  it in the same round.
\<close>

lemma terminated_round_ends:
  assumes "wait_keeps expirations_grow rd" and "r < next_region s" and "load r Expiration_Word s = SENTINEL"
  shows "\<exists>out. wait_word_round r w target rd s = Inr out"
    and "\<exists>out. counter_round r rd s = Inr out"
    and "\<exists>out. timer_round r deadline rd s = Inr out"
    and "\<exists>out. cron_round r initial rd s = Inr out"
    and "\<exists>out. barrier_round r rd s = Inr out"
proof -
  have others: "expirations_grow s u \<Longrightarrow> expirations_grow s (between rd u)"
    "expirations_grow s u \<Longrightarrow> expirations_grow s (asleep rd u)"
    "expirations_grow s u \<Longrightarrow> expirations_grow s (awake rd u)" for u
    using assms(1) unfolding wait_keeps_def by (blast intro: grow_trans)+
  have stays: "expirations_grow s u \<Longrightarrow> load r Expiration_Word u = SENTINEL" for u
    by (rule grow_terminated [OF _ assms(2,3)])
  have "load r Expiration_Word (asleep rd s) = SENTINEL" "load r Expiration_Word (between rd s) = SENTINEL"
    "load r Expiration_Word (awake rd (between rd s)) = SENTINEL"
    "load r Expiration_Word (awake rd (asleep rd (between rd s))) = SENTINEL"
    by (intro stays others grow_refl)+
  then show "\<exists>out. wait_word_round r w target rd s = Inr out"
    and "\<exists>out. counter_round r rd s = Inr out"
    and "\<exists>out. timer_round r deadline rd s = Inr out"
    and "\<exists>out. cron_round r initial rd s = Inr out"
    and "\<exists>out. barrier_round r rd s = Inr out"
    by (simp_all add: wait_word_round_def counter_round_def timer_round_def cron_round_def
        barrier_round_def Let_def)
qed

section \<open>Properties\<close>

text \<open>
  Every operation of the SDK on shared memory is a sequence of the SDK's atomic accesses.
  However other clients act between the accesses of an operation, all that it and they do to
  memory is a sequence of accesses, so that the system of interleaved accesses has every
  behaviour of the operations: open, close, free by an owner and by an attacher, touch, raising
  a target, starting a process clock, and the two background threads.
\<close>

theorem sdk_operations_are_accesses:
  assumes "\<forall>(f, b) \<in> set sched. client_behaviour f"
    and "\<forall>rd \<in> set rounds. touch_keeps sdk_access\<^sup>*\<^sup>* rd"
    and "client_behaviour f" and "client_behaviour g"
  shows "sdk_access\<^sup>*\<^sup>* s (handle_open r h s) \<and> sdk_access\<^sup>*\<^sup>* s (handle_close r h s) \<and>
    sdk_access\<^sup>*\<^sup>* s (owner_free r s) \<and> sdk_access\<^sup>*\<^sup>* s (attached_free r s) \<and>
    sdk_access\<^sup>*\<^sup>* s (snd (handle_touch r ms now sched s)) \<and>
    sdk_access\<^sup>*\<^sup>* s (snd (cas_max r target sched s)) \<and>
    sdk_access\<^sup>*\<^sup>* s (process_clock_new r clk f g s) \<and>
    sdk_access\<^sup>*\<^sup>* s (snd (touch_thread r interval_ms rounds s)) \<and>
    sdk_access\<^sup>*\<^sup>* s (snd (process_clock_thread r clk interval_ms rounds s))"
proof -
  have sched: "\<forall>(f, b) \<in> set sched. \<forall>s. sdk_access\<^sup>*\<^sup>* s (f s)"
    using assms(1) by (auto simp: client_behaviour_def)
  have "sdk_access\<^sup>*\<^sup>* s (snd (touch_thread r interval_ms rounds s))"
    "sdk_access\<^sup>*\<^sup>* s (snd (process_clock_thread r clk interval_ms rounds s))"
    unfolding touch_thread_def process_clock_thread_def
    using assms(2) by (blast intro: accesses.rounds accesses.heartbeat UNIV_I)+
  moreover have "sdk_access\<^sup>*\<^sup>* s (process_clock_new r clk f g s)"
    by (rule accesses.clock_started) (use assms(3,4) in \<open>simp_all add: client_behaviour_def\<close>)
  ultimately show ?thesis
    by (intro conjI accesses.handle_opened accesses.handle_closed accesses.freeing accesses.detaching
        accesses.touching [OF UNIV_I sched] accesses.raising [OF UNIV_I sched] UNIV_I) simp_all
qed

text \<open>
  C6: Expirations never go down, and the table never takes a region back.  Along any run of the
  daemon's cycles interleaved with accesses of its clients, also in the middle of its evaluation
  pass and of its arm, the registry stays well formed, the daemon keeps its clock, a region that
  has left the table never comes back, and no expiration word ever goes down.  So an interlock
  that was terminated through its expiration word, which is what an owner's free and the daemon's
  reap do, has its expiration at the sentinel for ever.  It does not say so of the open count:
  \<open>AttachedInterlock::free\<close> writes nothing else, and a later open undoes it.
\<close>

theorem expirations_never_go_down:
  assumes "system_step\<^sup>*\<^sup>* d d'" and "daemon_inv d" and "r < next_region (shm_of d)"
  shows "daemon_inv d' \<and> clock_handle d' = clock_handle d \<and>
    load r Expiration_Word (shm_of d) \<le> load r Expiration_Word (shm_of d') \<and>
    (load r Expiration_Word (shm_of d) = SENTINEL \<longrightarrow> load r Expiration_Word (shm_of d') = SENTINEL) \<and>
    (orphan (reg_of d) r \<longrightarrow> orphan (reg_of d') r)"
proof -
  have inv: "daemon_inv d'" by (rule system_run.run_inv [OF assms(1,2)])
  have "system_guar d d'" by (rule system_run.run_guar [OF assms(1,2)])
  then have "clock_handle d' = clock_handle d" "orphan (reg_of d) r \<longrightarrow> orphan (reg_of d') r"
    and g: "expirations_grow (shm_of d) (shm_of d')" using assms(3) by (simp_all add: system_guar_def)
  moreover have "load r Expiration_Word (shm_of d) \<le> load r Expiration_Word (shm_of d')"
    using g assms(3) by (simp add: expirations_grow_def)
  ultimately show ?thesis using inv grow_terminated [OF g assms(3)] by blast
qed

text \<open>
  C9: The daemon leaves alone what has left its table.  Along any run of cycles and of clients
  that do anything whatever to memory but write to the region, between the cycles and inside them
  (before a request, inside a reap or a firing, around and between the accesses of the pass,
  inside the arm), the registry stays well formed, the clock is the same, and a region that was in
  no entry is in none afterwards: no request, no pass, no firing and no arm has written to it,
  so that its words are what they were and the history of the run holds no store to it.  Every
  write to a region after it left the table is therefore a client's.
\<close>

theorem daemon_leaves_reaped_alone:
  assumes "(step_beside r)\<^sup>*\<^sup>* d d'" and "daemon_inv d"
    and "r < next_region (shm_of d)" and "orphan (reg_of d) r"
  shows "daemon_inv d' \<and> clock_handle d' = clock_handle d \<and> orphan (reg_of d') r \<and>
    mem (shm_of d') r = mem (shm_of d) r \<and>
    (\<exists>evs. trace (shm_of d') = trace (shm_of d) @ evs \<and> (\<forall>w v. Stored r w v \<notin> set evs))"
proof -
  have inv: "beside_inv r d" using assms(2-4) by (simp add: beside_inv_def)
  have "beside_inv r d'" by (rule beside_run.run_inv [OF assms(1) inv])
  moreover have "beside_guar r d d'" by (rule beside_run.run_guar [OF assms(1) inv])
  ultimately show ?thesis by (simp add: beside_inv_def beside_guar_def unwritten_def)
qed

text \<open>
  C22: Six waits end when the expiration says so.  Once the expiration of an interlock is at the
  sentinel, where an owner's free and the daemon's reap put it, \<open>Interlock::wait_open\<close> and
  \<open>wait_close\<close>, the loops of \<open>WaitCounter::wait_until\<close> and \<open>WaitTimer::wait_ms\<close>, and
  \<open>WaitCron::wait\<close> and \<open>WaitBarrier::wait\<close> end in their first round, whatever clients and daemon
  do meanwhile, as long as they keep to the guarantee of the system.  A free by an attacher leaves
  the expiration as it is and is not covered, and neither is \<open>WaitRace::wait\<close>, which never looks
  at an expiration: the lemma \<open>race_never_ends\<close> of the waits shows it going round for ever.
\<close>

theorem terminated_waits_end:
  assumes "load r Expiration_Word s = SENTINEL" and "r < next_region s"
    and "wait_keeps expirations_grow rd" and "expirations_grow s (others s)"
  shows "fst (wait_open r target (rd # rounds) s) \<noteq> None \<and>
    fst (wait_close r target (rd # rounds) s) \<noteq> None \<and>
    fst (run_rounds (counter_round r) (rd # rounds) s) \<noteq> None \<and>
    fst (run_rounds (timer_round r deadline) (rd # rounds) s) \<noteq> None \<and>
    fst (cron_wait r others (rd # rounds) s) \<noteq> None \<and>
    fst (barrier_wait r (rd # rounds) s) \<noteq> None"
proof -
  note ends = terminated_round_ends [OF assms(3,2,1)]
  have "r < next_region (others s)" "load r Expiration_Word (others s) = SENTINEL"
    using assms(2,4) grow_terminated [OF assms(4,2,1)] by (auto simp: expirations_grow_def)
  note after = terminated_round_ends(4) [OF assms(3) this]
  have "fst (wait_open r target (rd # rounds) s) \<noteq> None" "fst (wait_close r target (rd # rounds) s) \<noteq> None"
    using ends(1) [of Open_Word target] ends(1) [of Closed_Word target]
    by (auto simp: wait_open_def wait_close_def)
  moreover have "fst (run_rounds (counter_round r) (rd # rounds) s) \<noteq> None"
    "fst (run_rounds (timer_round r deadline) (rd # rounds) s) \<noteq> None"
    "fst (barrier_wait r (rd # rounds) s) \<noteq> None"
    using ends(2,5) ends(3) [of deadline] by (auto simp: barrier_wait_def)
  moreover have "fst (cron_wait r others (rd # rounds) s) \<noteq> None"
    using after [of "load r Closed_Word s"] by (auto simp: cron_wait_def)
  ultimately show ?thesis by blast
qed

lemma daemon_start_ok:
  assumes "fst (server_create path pk) = Inr p"
    and "memfd_ret k \<ge> 0" and "ftruncate_ret k = 0" and "mmap_ret k = Mapped"
    and "now_create + CREATION_TTL_NANOS \<noteq> SENTINEL"
  obtains d where "daemon_start path pk k now_create now_arm now_start undisturbed now_anchor s = Some (Inr d)"
    and "clients d = []" and "anchor d = now_anchor" and "cycle d = 0"
    and "dom (by_name (reg_of d)) = {clock_name}"
    and "mem (shm_of d) (clock_handle d) = \<lparr>open_count = now_start div 1000000,
      closed_count = now_start div 1000000,
      expiration_ns = max (now_create + CREATION_TTL_NANOS) (now_arm + 1000000000)\<rparr>"
    and "daemon_inv d" and "clock_handle d < next_region (shm_of d)"
proof -
  obtain reg s' where
    new: "registry_new k now_create now_arm now_start undisturbed s = Some (Inr reg, s')"
    and reg: "registry_inv reg s'" "ids_inv reg" "dom (by_name reg) = {clock_name}"
    and words: "mem s' (next_region s) = \<lparr>open_count = now_start div 1000000,
      closed_count = now_start div 1000000,
      expiration_ns = max (now_create + CREATION_TTL_NANOS) (now_arm + 1000000000)\<rparr>"
    using registry_new_ok [OF assms(2-5), of now_arm now_start s] by (elim exE conjE) (rule that)
  have clk: "clock reg = Some (next_region s)" by (rule registry_new_clock [OF new])
  then obtain e where "by_name reg clock_name = Some e" "e_handle e = next_region s"
    by (auto simp: clock_def)
  with registry_invD(2) [OF reg(1)] have alloc: "next_region s < next_region s'" by metis
  have start: "daemon_start path pk k now_create now_arm now_start undisturbed now_anchor s =
      Some (Inr \<lparr>anchor = now_anchor, cycle = 0, clock_handle = next_region s, clients = [],
        reg_of = reg, shm_of = s'\<rparr>)"
    unfolding daemon_start_def assms(1) new sum.case option.case prod.case clk by simp
  show thesis
    by (rule that [OF start]) (use reg(1,3) clk words alloc in \<open>simp_all add: daemon_inv_def\<close>)
qed

text \<open>
  C10: A daemon that starts is well formed for ever.  When the server is created and the kernel
  grants the clock its memory, start-up succeeds, with no client, the clock as the only entry
  and its words set to the start time and the later of its two deadlines; and from there on,
  whatever clients ask for and write, the registry stays well formed, the clock is never
  removed or replaced, and its deadline never goes back.
\<close>

theorem daemon_starts_well_formed:
  assumes "fst (server_create path pk) = Inr p"
    and "memfd_ret k \<ge> 0" and "ftruncate_ret k = 0" and "mmap_ret k = Mapped"
    and "now_create + CREATION_TTL_NANOS \<noteq> SENTINEL"
  shows "\<exists>d. daemon_start path pk k now_create now_arm now_start undisturbed now_anchor s = Some (Inr d) \<and>
    clients d = [] \<and> anchor d = now_anchor \<and> cycle d = 0 \<and> dom (by_name (reg_of d)) = {clock_name} \<and>
    mem (shm_of d) (clock_handle d) =
      \<lparr>open_count = now_start div 1000000, closed_count = now_start div 1000000,
       expiration_ns = max (now_create + CREATION_TTL_NANOS) (now_arm + 1000000000)\<rparr> \<and>
    (\<forall>d'. system_step\<^sup>*\<^sup>* d d' \<longrightarrow>
      registry_inv (reg_of d') (shm_of d') \<and> clock (reg_of d') = Some (clock_handle d) \<and>
      max (now_create + CREATION_TTL_NANOS) (now_arm + 1000000000) \<le>
        load (clock_handle d) Expiration_Word (shm_of d'))"
proof -
  let ?e = "max (now_create + CREATION_TTL_NANOS) (now_arm + 1000000000)"
  obtain d where start: "daemon_start path pk k now_create now_arm now_start undisturbed now_anchor s = Some (Inr d)"
    "clients d = []" "anchor d = now_anchor" "cycle d = 0" "dom (by_name (reg_of d)) = {clock_name}"
    and words: "mem (shm_of d) (clock_handle d) = \<lparr>open_count = now_start div 1000000,
      closed_count = now_start div 1000000, expiration_ns = ?e\<rparr>"
    and inv: "daemon_inv d" "clock_handle d < next_region (shm_of d)"
    using assms by (rule daemon_start_ok)
  have "registry_inv (reg_of d') (shm_of d') \<and> clock (reg_of d') = Some (clock_handle d) \<and>
      ?e \<le> load (clock_handle d) Expiration_Word (shm_of d')" if run: "system_step\<^sup>*\<^sup>* d d'" for d'
  proof -
    have "daemon_inv d'" by (rule system_run.run_inv [OF run inv(1)])
    moreover have g: "system_guar d d'" by (rule system_run.run_guar [OF run inv(1)])
    then have "load (clock_handle d) Expiration_Word (shm_of d) \<le> load (clock_handle d) Expiration_Word (shm_of d')"
      using inv(2) by (simp add: system_guar_def expirations_grow_def)
    moreover have "load (clock_handle d) Expiration_Word (shm_of d) = ?e" by (simp add: load_def words)
    ultimately show ?thesis using g by (simp add: daemon_inv_def system_guar_def)
  qed
  with start words show ?thesis by blast
qed

section \<open>Witnesses\<close>

definition client_visit :: visit where
  "client_visit = \<lparr>before_visit = handle_open 1 3, after_open = owner_free 2, after_closed = attached_free 1,
     before_contract = handle_close 3 1, after_watched = handle_open 2 1,
     after_condition = (\<lambda>i. handle_open 1 (of_nat i)), in_fire = handle_close 2 1, before_rearm = handle_open 3 1,
     in_reap = (\<lambda>i. handle_open 1 (of_nat i))\<rparr>"

definition busy_env :: cycle_env where
  "busy_env = sample_env\<lparr>eval_sched := [(''a'', client_visit), (''w'', client_visit), (clock_name, client_visit),
     (''c'', client_visit)], before_request := (\<lambda>i. handle_open 2 1), after_pass := handle_open 1 2,
     refresh_sched := [(handle_open 1 1, True), (\<lambda>s. s, False)]\<rparr>"

lemma busy_env: "env_of_clients busy_env"
  using accesses.handle_opened accesses.handle_closed accesses.freeing accesses.detaching
  by (simp add: env_all_def busy_env_def sample_env_def client_visit_def visit_all_def client_behaviour_def)

lemma busy_cycle: "\<exists>d'. daemon_cycle busy_env sample_daemon = Some (Inr d')"
proof -
  note env = env_of_clients_grow [OF busy_env]
  have "registry_inv sample_registry (store 0 Open_Word 5001 (sample_shm 1000))"
    using sample_inv [of 1000] by (simp add: registry_inv_store)
  from evaluate_all_inv [OF this env(2), of 5001 5001000000] obtain reg' s2 where
    e: "evaluate_all 5001 5001000000 (eval_sched busy_env) sample_registry
      (store 0 Open_Word 5001 (sample_shm 1000)) = Some (reg', s2)" "clock reg' = clock sample_registry"
    by metis
  have "\<exists>s'. refresh_clock_expiration 5001000000 (refresh_sched busy_env) reg'
      (futex_wake 0 Open_Word (handle_open 1 2 s2)) = Some s'"
    by (simp add: refresh_clock_expiration_def e(2) sample_clock interlock_arm_def busy_env_def
        compare_exchange_weak_def Let_def max_def shm_simps handle_open_def fetch_add_def split: option.splits)
  then show ?thesis
    using e(1) by (auto simp: daemon_cycle_def sample_daemon_def Let_def remove_clients_def tick_def busy_env_def
        sample_env_def NANOS_PER_MS_def)
qed

lemma daemon_starts_well_formed_witness:
  "\<exists>d. daemon_start ''/run/a'' \<lparr>path_exists = False, metadata = Inr False, probe_connects = False,
       bind_reply = Inr (), nonblocking_reply = Inr (), listen_rc = 0, listen_errno = 0\<rparr>
       good_replies 7000 8000 9000000 undisturbed 9500000 (sample_shm 0) = Some (Inr d) \<and>
     registry_inv (reg_of d) (shm_of d) \<and> load (clock_handle d) Open_Word (shm_of d) = 9"
proof -
  let ?pk = "\<lparr>path_exists = False, metadata = Inr False, probe_connects = False,
       bind_reply = Inr (), nonblocking_reply = Inr (), listen_rc = 0, listen_errno = 0\<rparr>"
  have 1: "fst (server_create ''/run/a'' ?pk) = Inr ''/run/a''" by (simp add: server_create_def remove_stale_def)
  have 2: "(7000 :: u64) + CREATION_TTL_NANOS \<noteq> SENTINEL" by (simp add: CREATION_TTL_NANOS_def SENTINEL_def)
  have 3: "memfd_ret good_replies \<ge> 0" "ftruncate_ret good_replies = 0" "mmap_ret good_replies = Mapped"
    by simp_all
  obtain d where d: "daemon_start ''/run/a'' ?pk good_replies 7000 8000 9000000 undisturbed 9500000
      (sample_shm 0) = Some (Inr d)"
    "mem (shm_of d) (clock_handle d) = \<lparr>open_count = 9000000 div 1000000, closed_count = 9000000 div 1000000,
       expiration_ns = max (7000 + CREATION_TTL_NANOS) (8000 + 1000000000)\<rparr>"
    "\<forall>d'. system_step\<^sup>*\<^sup>* d d' \<longrightarrow>
      registry_inv (reg_of d') (shm_of d') \<and> clock (reg_of d') = Some (clock_handle d) \<and>
      max (7000 + CREATION_TTL_NANOS) (8000 + 1000000000) \<le> load (clock_handle d) Expiration_Word (shm_of d')"
    using daemon_starts_well_formed [OF 1 3 2, of 8000 9000000 9500000 "sample_shm 0"]
    by (elim exE conjE) (rule that)
  have "registry_inv (reg_of d) (shm_of d)" using d(3) by blast
  moreover have "load (clock_handle d) Open_Word (shm_of d) = 9" by (simp add: load_def d(2))
  ultimately show ?thesis using d(1) by blast
qed

lemma expirations_never_go_down_witness:
  "\<exists>d'. system_step\<^sup>*\<^sup>* sample_daemon d' \<and> cycle d' = 1 \<and> 6000000000 \<le> load 2 Expiration_Word (shm_of d')"
proof -
  obtain d' where d': "daemon_cycle busy_env sample_daemon = Some (Inr d')" using busy_cycle by blast
  then have run: "system_step\<^sup>*\<^sup>* sample_daemon d'" using system_step.cycle [OF d' busy_env] by blast
  have "2 < next_region (shm_of sample_daemon)" "load 2 Expiration_Word (shm_of sample_daemon) = 6000000000"
    by (simp_all add: sample_daemon_def sample_shm_def load_def)
  moreover have "cycle d' = 1"
    using d' by (auto simp: daemon_cycle_def sample_daemon_def Let_def bind_eq_Some_conv split: if_splits)
  ultimately show ?thesis using expirations_never_go_down [OF run sample_daemon(1), of 2] run by auto
qed

text \<open>A region outside the table, a cycle of the daemon and an access of a client to another region.\<close>

lemma daemon_leaves_reaped_alone_witness:
  "let d = sample_daemon\<lparr>shm_of := (sample_shm 1000)\<lparr>next_region := 5\<rparr>\<rparr>
   in \<exists>d'. (step_beside 4)\<^sup>*\<^sup>* d d' \<and> cycle d' = 1 \<and> orphan (reg_of d') 4 \<and> mem (shm_of d') 4 = zero_interlock"
proof -
  let ?s = "(sample_shm 1000)\<lparr>next_region := 5\<rparr>"
  let ?d = "sample_daemon\<lparr>shm_of := ?s\<rparr>"
  have "registry_inv sample_registry ?s"
    using registry_inv_mono [OF sample_inv [of 1000]] by (simp add: sample_shm_def)
  then have inv: "daemon_inv ?d" using sample_clock by (simp add: daemon_inv_def sample_daemon_def)
  have r: "4 < next_region (shm_of ?d)" "orphan (reg_of ?d) 4" "mem (shm_of ?d) 4 = zero_interlock"
    by (auto simp: sample_daemon_def orphan_def sample_registry_def clock_entry_def sample_shm_def)
  have "load (clock_handle ?d) Expiration_Word (shm_of ?d) \<noteq> SENTINEL"
    by (simp add: sample_daemon_def load_def sample_shm_def SENTINEL_def)
  from daemon_cycle_completes [OF inv _ _ _ sample_daemon(2) this, of "[]" "[]" "[]" sample_registry]
  obtain d1 where d1: "daemon_cycle sample_env ?d = Some (Inr d1)" "cycle d1 = 1"
    by (auto simp: sample_env_def sample_daemon_def)
  have "env_all (\<lambda>f. \<forall>s. unwritten 4 s (f s)) sample_env"
    by (simp add: env_all_def sample_env_def isolated_def quiet_visit_def visit_all_def undisturbed_def unwritten.R_refl list_all_iff)
  with d1(1) have "step_beside 4 ?d d1" by (rule step_beside.cycle)
  moreover have "step_beside 4 d1 (d1\<lparr>shm_of := handle_open 1 3 (shm_of d1)\<rparr>)"
    by (rule step_beside.client) (simp add: handle_open_def unwritten_def fetch_add_def shm_simps)
  ultimately have run: "(step_beside 4)\<^sup>*\<^sup>* ?d (d1\<lparr>shm_of := handle_open 1 3 (shm_of d1)\<rparr>)"
    by (meson converse_rtranclp_into_rtranclp r_into_rtranclp)
  from daemon_leaves_reaped_alone [OF run inv r(1,2)] run d1(2) r(3) show ?thesis
    unfolding Let_def by (intro exI [of _ "d1\<lparr>shm_of := handle_open 1 3 (shm_of d1)\<rparr>"]) (simp add: conjunct1 conjunct2)
qed

lemma sdk_operations_are_accesses_witness:
  "let s = sample_shm 1000; sched = [(handle_open 1 3, True), (\<lambda>s. s, False)];
       rounds = [\<lparr>stop_flag = False, arm_reading = 5, arm_sched = undisturbed, before_load = (\<lambda>s. s),
         before_store = (\<lambda>s. s), sleeping = handle_close 1 3\<rparr>]
   in sdk_access\<^sup>*\<^sup>* s (snd (handle_touch 1 60 5 sched s)) \<and>
      sdk_access\<^sup>*\<^sup>* s (snd (process_clock_thread 1 0 40 rounds s))"
proof -
  let ?sched = "[(handle_open 1 3, True), (\<lambda>s. s, False)]"
  let ?rounds = "[\<lparr>stop_flag = False, arm_reading = 5, arm_sched = undisturbed, before_load = (\<lambda>s. s),
      before_store = (\<lambda>s. s), sleeping = handle_close 1 3\<rparr>]"
  have sched: "\<forall>(f, b) \<in> set ?sched. client_behaviour f"
    using accesses.handle_opened by (simp add: client_behaviour_def)
  have rounds: "\<forall>rd \<in> set ?rounds. touch_keeps sdk_access\<^sup>*\<^sup>* rd"
    using accesses.handle_closed by (simp add: touch_keeps_def undisturbed_def)
  have idle: "client_behaviour (\<lambda>s. s)" by (simp add: client_behaviour_def)
  from sdk_operations_are_accesses [OF sched rounds idle idle] show ?thesis unfolding Let_def by blast
qed

lemma terminated_waits_end_witness:
  "fst (barrier_wait 2 [still 60] (owner_free 2 (sample_shm 1000))) \<noteq> None \<and>
   fst (cron_wait 2 (handle_open 1 3) [still 60] (owner_free 2 (sample_shm 1000))) \<noteq> None"
proof -
  let ?s = "owner_free 2 (sample_shm 1000)"
  have s: "load 2 Expiration_Word ?s = SENTINEL" "2 < next_region ?s"
    by (simp_all add: owner_free_def interlock_free_def shm_simps) (simp add: sample_shm_def)
  have k: "wait_keeps expirations_grow (still 60)" by (simp add: wait_keeps_def)
  from terminated_waits_end [where others = "handle_open 1 3", OF s k growing.handle_opened [OF UNIV_I]] show ?thesis by blast
qed

end
