(* ===== verification/Sdk_Owner.thy ===== *)
theory Sdk_Owner
  imports Concurrency
begin

text \<open>
  The owner's side of \<open>abacus-client/src/interlock.rs\<close> (\<open>Interlock\<close>), \<open>process_clock.rs\<close>
  (\<open>ProcessClock\<close>) and \<open>touch.rs\<close>: handles that hold a background thread, replace it, stop and
  join it.  The threads here have a program counter and a stop flag, so that the owner, its
  threads and everybody else interleave; \<open>Sdk_Touch\<close> has the same loop as one run.
\<close>

section \<open>The threads\<close>

text \<open>
  Where a thread is: at the test of its stop flag, before its arm, before publishing the time
  (a process clock only), asleep, or at its end.
\<close>

datatype thread_pc = Checking | Arming | Publishing | Sleeping | Ended

record beat_thread =
  t_interlock :: region
  t_clock :: "region option"
  t_ttl :: u64
  t_stop :: bool
  t_reaped :: bool
  t_pc :: thread_pc

definition touch_spawn :: "region \<Rightarrow> u64 \<Rightarrow> beat_thread" where
  "touch_spawn r interval_ms =
     \<lparr>t_interlock = r, t_clock = None, t_ttl = touch_ttl interval_ms, t_stop = False, t_reaped = False,
      t_pc = Checking\<rparr>"

definition process_clock_spawn :: "region \<Rightarrow> region \<Rightarrow> u64 \<Rightarrow> beat_thread" where
  "process_clock_spawn r clk interval_ms =
     \<lparr>t_interlock = r, t_clock = Some clk, t_ttl = touch_ttl interval_ms, t_stop = False, t_reaped = False,
      t_pc = Checking\<rparr>"

definition touch_stop :: "beat_thread \<Rightarrow> beat_thread" where
  "touch_stop t = t\<lparr>t_stop := True\<rparr>"

definition touch_is_reaped :: "beat_thread \<Rightarrow> bool" where
  "touch_is_reaped t = t_reaped t"

text \<open>
  One step of a thread, with the reading of the clock, the schedule of the arm, and what others
  do between the load and the store of a publication.  \<^const>\<open>None\<close> is a thread that has ended
  or whose arm is still running when the schedule is used up.
\<close>

record beat =
  b_now :: u64
  b_sched :: arm_schedule
  b_between :: "shm \<Rightarrow> shm"

definition thread_step :: "beat \<Rightarrow> beat_thread \<Rightarrow> shm \<Rightarrow> (beat_thread \<times> shm) option" where
  "thread_step b t s =
     (case t_pc t of
        Checking \<Rightarrow> Some (t\<lparr>t_pc := if t_stop t then Ended else Arming\<rparr>, s)
      | Arming \<Rightarrow>
          (case interlock_arm (t_interlock t) (t_ttl t) (b_now b) (b_sched b) s of
             (None, s') \<Rightarrow> None
           | (Some (Inl _), s') \<Rightarrow> Some (t\<lparr>t_reaped := True, t_pc := Ended\<rparr>, s')
           | (Some (Inr _), s') \<Rightarrow>
               Some (t\<lparr>t_pc := (case t_clock t of None \<Rightarrow> Sleeping | Some _ \<Rightarrow> Publishing)\<rparr>, s'))
      | Publishing \<Rightarrow>
          (case t_clock t of
             None \<Rightarrow> None
           | Some clk \<Rightarrow>
               (let clock_now = load clk Open_Word s
                in Some (t\<lparr>t_pc := Sleeping\<rparr>, store (t_interlock t) Open_Word clock_now (b_between b s))))
      | Sleeping \<Rightarrow> Some (t\<lparr>t_pc := Checking\<rparr>, s)
      | Ended \<Rightarrow> None)"

section \<open>The handles\<close>

text \<open>
  \<open>Option::take\<close> drops the thread's handle: the stop flag is set and the thread joined.  What
  the owner does after the join is the continuation.
\<close>

datatype continuation = Then_Return | Then_Spawn u64 | Then_Free | Then_Gone

datatype owner_pc = Idle | Joining nat continuation | Gone

text \<open>An owner's handle, every thread it has ever spawned, and shared memory.\<close>

record owner =
  o_handle :: region
  o_clock :: "region option"
  touch_field :: "nat option"
  threads :: "beat_thread list"
  o_pc :: owner_pc
  o_shm :: shm

definition hold_thread :: "beat_thread \<Rightarrow> owner \<Rightarrow> owner" where
  "hold_thread t w = w\<lparr>threads := threads w @ [t], touch_field := Some (length (threads w))\<rparr>"

definition bare_handle :: "region \<Rightarrow> region option \<Rightarrow> shm \<Rightarrow> owner" where
  "bare_handle r clk s =
     \<lparr>o_handle = r, o_clock = clk, touch_field = None, threads = [], o_pc = Idle, o_shm = s\<rparr>"

definition owner_new :: "region \<Rightarrow> shm \<Rightarrow> owner" where
  "owner_new r s = hold_thread (touch_spawn r DEFAULT_TOUCH_INTERVAL_MS) (bare_handle r None s)"

definition process_clock_owner_new ::
    "region \<Rightarrow> region \<Rightarrow> (shm \<Rightarrow> shm) \<Rightarrow> (shm \<Rightarrow> shm) \<Rightarrow> shm \<Rightarrow> owner" where
  "process_clock_owner_new r clk before_closed before_open s =
     hold_thread (process_clock_spawn r clk DEFAULT_TOUCH_INTERVAL_MS)
       (bare_handle r (Some clk) (process_clock_new r clk before_closed before_open s))"

text \<open>
  A wait handle starts its thread in the same way and offers \<open>free\<close> and \<open>drop\<close>; the one of a
  timer holds the clock beside it.
\<close>

definition wait_handle_new :: "region \<Rightarrow> region option \<Rightarrow> shm \<Rightarrow> owner" where
  "wait_handle_new r clk s = hold_thread (touch_spawn r DEFAULT_TOUCH_INTERVAL_MS) (bare_handle r clk s)"

text \<open>A handle as one of the constructors returns it, others keeping to the guarantee meanwhile.\<close>

definition new_owner :: "region \<Rightarrow> shm \<Rightarrow> owner \<Rightarrow> bool" where
  "new_owner r s w \<longleftrightarrow>
     w = owner_new r s \<or> (\<exists>clk. w = wait_handle_new r clk s) \<or>
     (\<exists>clk f g. (\<forall>s. expirations_grow s (f s) \<and> expirations_grow s (g s)) \<and>
        w = process_clock_owner_new r clk f g s)"

fun continue_with :: "continuation \<Rightarrow> owner \<Rightarrow> owner" where
  "continue_with Then_Return w = w\<lparr>o_pc := Idle\<rparr>"
| "continue_with (Then_Spawn interval_ms) w =
     hold_thread (touch_spawn (o_handle w) interval_ms) (w\<lparr>o_pc := Idle\<rparr>)"
| "continue_with Then_Free w = w\<lparr>o_pc := Idle, o_shm := owner_free (o_handle w) (o_shm w)\<rparr>"
| "continue_with Then_Gone w = w\<lparr>o_pc := Gone\<rparr>"

definition take_thread :: "continuation \<Rightarrow> owner \<Rightarrow> owner" where
  "take_thread k w =
     (case touch_field w of
        None \<Rightarrow> continue_with k w
      | Some i \<Rightarrow> w\<lparr>touch_field := None, threads := (threads w)[i := touch_stop (threads w ! i)],
          o_pc := Joining i k\<rparr>)"

definition start_touch_thread :: "u64 \<Rightarrow> owner \<Rightarrow> owner" where
  "start_touch_thread interval_ms w = take_thread (Then_Spawn interval_ms) w"

definition stop_touch_thread :: "owner \<Rightarrow> owner" where
  "stop_touch_thread w = take_thread Then_Return w"

definition call_free :: "owner \<Rightarrow> owner" where
  "call_free w = take_thread Then_Free w"

definition drop_owner :: "owner \<Rightarrow> owner" where
  "drop_owner w = take_thread Then_Gone w"

lemmas owner_calls = start_touch_thread_def stop_touch_thread_def call_free_def drop_owner_def

text \<open>
  The steps: the calls of the owner (a process clock and a timer have \<open>free\<close> and \<open>drop\<close> only; the reference
  that \<open>start_touch_thread\<close> returns gives access to the flag), the return of a join, a step of
  a thread, and whatever others do to memory, or the owner without touching its thread, as long
  as no expiration goes down.
\<close>

definition beat_keeps :: "beat \<Rightarrow> bool" where
  "beat_keeps b \<longleftrightarrow>
     (\<forall>(f, spurious) \<in> set (b_sched b). \<forall>s. expirations_grow s (f s)) \<and>
     (\<forall>s. expirations_grow s (b_between b s))"

inductive owner_step :: "owner \<Rightarrow> owner \<Rightarrow> bool" where
  start: "o_pc w = Idle \<Longrightarrow> o_clock w = None \<Longrightarrow> owner_step w (start_touch_thread interval_ms w)"
| stop: "o_pc w = Idle \<Longrightarrow> o_clock w = None \<Longrightarrow> owner_step w (stop_touch_thread w)"
| flag: "o_pc w = Idle \<Longrightarrow> o_clock w = None \<Longrightarrow> touch_field w = Some i \<Longrightarrow>
    owner_step w (w\<lparr>threads := (threads w)[i := touch_stop (threads w ! i)]\<rparr>)"
| free: "o_pc w = Idle \<Longrightarrow> owner_step w (call_free w)"
| drop: "o_pc w = Idle \<Longrightarrow> owner_step w (drop_owner w)"
| joined: "o_pc w = Joining i k \<Longrightarrow> t_pc (threads w ! i) = Ended \<Longrightarrow> owner_step w (continue_with k w)"
| beat: "i < length (threads w) \<Longrightarrow> thread_step b (threads w ! i) (o_shm w) = Some (t, s) \<Longrightarrow> beat_keeps b \<Longrightarrow>
    owner_step w (w\<lparr>threads := (threads w)[i := t], o_shm := s\<rparr>)"
| others: "expirations_grow (o_shm w) s \<Longrightarrow> owner_step w (w\<lparr>o_shm := s\<rparr>)"

inductive_cases owner_stepE: "owner_step w w'"


section \<open>Facts about the steps of a thread\<close>

lemma thread_step_static:
  assumes "thread_step b t s = Some (t', s')"
  shows "t_interlock t' = t_interlock t" and "t_clock t' = t_clock t" and "t_ttl t' = t_ttl t"
    and "t_stop t' = t_stop t" and "t_pc t \<noteq> Ended"
  using assms
  by (auto simp: thread_step_def Let_def split: thread_pc.splits option.splits sum.splits prod.splits)

text \<open>A step keeps to any guarantee that covers the words its thread writes.\<close>

context interleaving
begin

lemma beating:
  assumes "thread_step b t s = Some (t', s')" and "(t_interlock t, Expiration_Word) \<in> cells"
    and "t_clock t \<noteq> None \<Longrightarrow> (t_interlock t, Open_Word) \<in> cells"
    and "\<forall>(f, spurious) \<in> set (b_sched b). \<forall>s. guar s (f s)" and "\<forall>s. guar s (b_between b s)"
  shows "guar s s'"
proof -
  have "guar s u" if "interlock_arm (t_interlock t) (t_ttl t) (b_now b) (b_sched b) s = (res, u)" for res u
    by (rule arming [OF assms(2,4) that])
  moreover have "guar s (store (t_interlock t) Open_Word v (b_between b s))" if "t_clock t \<noteq> None" for v
    by (rule access_last [OF assms(5) [rule_format] access_in.publish]) (use assms(3) that in simp_all)
  ultimately show ?thesis
    using assms(1)
    by (auto simp: thread_step_def Let_def guar_refl
        split: thread_pc.splits option.splits sum.splits prod.splits)
qed

end

lemma thread_step_grow:
  "thread_step b t s = Some (t', s') \<Longrightarrow> beat_keeps b \<Longrightarrow> expirations_grow s s'"
  unfolding beat_keeps_def by (rule growing.beating) blast+

lemma thread_step_publishes:
  "thread_step b t s = Some (t', s') \<Longrightarrow> t_pc t' = Publishing \<Longrightarrow> t_clock t \<noteq> None"
  by (auto simp: thread_step_def Let_def split: thread_pc.splits option.splits sum.splits prod.splits if_splits)

text \<open>An arm that refuses has just read the sentinel, and one that reads it refuses.\<close>

lemma arm_loop_refused:
  "arm_loop r deadline sched s = (Some (Inl e), t) \<Longrightarrow> load r Expiration_Word t = SENTINEL"
  by (induction r deadline sched s rule: arm_loop.induct)
     (auto simp: Let_def split: if_splits prod.splits bool.splits)

lemma arm_loop_sentinel:
  "load r Expiration_Word s = SENTINEL \<Longrightarrow>
     arm_loop r deadline sched s = ((if sched = [] then None else Some (Inl InterlockReaped)), s)"
  by (cases "(r, deadline, sched, s)" rule: arm_loop.cases) auto

lemma thread_step_reaped:
  assumes "thread_step b t s = Some (t', s')" and "t_reaped t'" and "\<not> t_reaped t"
  shows "t_pc t' = Ended \<and> load (t_interlock t) Expiration_Word s' = SENTINEL"
  using assms arm_loop_refused
  by (fastforce simp: thread_step_def interlock_arm_def Let_def
      split: thread_pc.splits option.splits sum.splits prod.splits)

text \<open>On a terminated interlock a thread that is not about to publish goes nowhere but to its end.\<close>

lemma thread_step_terminated:
  assumes "thread_step b t s = Some (t', s')" and "load (t_interlock t) Expiration_Word s = SENTINEL"
    and "t_pc t \<notin> {Publishing, Sleeping}"
  shows "s' = s \<and> t_pc t' \<notin> {Publishing, Sleeping}"
  using assms
  by (auto simp: thread_step_def interlock_arm_def arm_loop_sentinel
      split: thread_pc.splits option.splits sum.splits prod.splits if_splits)

section \<open>The invariant of a handle\<close>

text \<open>
  A thread works on the handle's region and has its kind; its reaped flag goes with its end and
  the sentinel.
\<close>

definition thread_ok :: "region \<Rightarrow> region option \<Rightarrow> shm \<Rightarrow> beat_thread \<Rightarrow> bool" where
  "thread_ok r clk s t \<longleftrightarrow>
     t_interlock t = r \<and> (clk = None \<longrightarrow> t_clock t = None) \<and> (t_pc t = Publishing \<longrightarrow> t_clock t \<noteq> None) \<and>
     (t_reaped t \<longrightarrow> t_pc t = Ended \<and> load r Expiration_Word s = SENTINEL)"

text \<open>A thread that has not ended is the one the handle holds or the one it is joining.\<close>

definition owner_inv :: "owner \<Rightarrow> bool" where
  "owner_inv w \<longleftrightarrow>
     o_handle w < next_region (o_shm w) \<and>
     (\<forall>t \<in> set (threads w). thread_ok (o_handle w) (o_clock w) (o_shm w) t) \<and>
     (\<forall>i < length (threads w). t_pc (threads w ! i) \<noteq> Ended \<longrightarrow>
        touch_field w = Some i \<or> (\<exists>k. o_pc w = Joining i k)) \<and>
     (\<forall>i. touch_field w = Some i \<longrightarrow> i < length (threads w) \<and> o_pc w = Idle) \<and>
     (\<forall>i k. o_pc w = Joining i k \<longrightarrow>
        i < length (threads w) \<and> t_stop (threads w ! i) \<and> touch_field w = None \<and>
        (o_clock w \<noteq> None \<longrightarrow> k = Then_Free \<or> k = Then_Gone))"

lemma running_unique:
  assumes "owner_inv w" and "i < length (threads w)" and "j < length (threads w)"
    and "t_pc (threads w ! i) \<noteq> Ended" and "t_pc (threads w ! j) \<noteq> Ended"
  shows "i = j"
proof -
  have held: "touch_field w = Some n \<and> o_pc w = Idle \<or> (\<exists>k. o_pc w = Joining n k)"
    if "n < length (threads w)" "t_pc (threads w ! n) \<noteq> Ended" for n
    using assms(1) that unfolding owner_inv_def by blast
  from held [OF assms(2,4)] held [OF assms(3,5)] show ?thesis by auto
qed

lemma thread_ok_grow:
  assumes "thread_ok r clk s t" and "expirations_grow s s'" and "r < next_region s"
  shows "thread_ok r clk s' t"
  using assms grow_terminated [OF assms(2,3)] by (auto simp: thread_ok_def)

lemma thread_ok_step:
  assumes "thread_ok r clk s t" and "thread_step b t s = Some (t', s')"
  shows "thread_ok r clk s' t'"
  using assms thread_step_static [OF assms(2)] thread_step_reaped [OF assms(2)] thread_step_publishes [OF assms(2)]
  by (auto simp: thread_ok_def)

lemma thread_ok_stop [simp]: "thread_ok r clk s (touch_stop t) = thread_ok r clk s t"
  by (simp add: thread_ok_def touch_stop_def)

lemma touch_stop_simps [simp]: "t_pc (touch_stop t) = t_pc t" "t_stop (touch_stop t)"
  by (simp_all add: touch_stop_def)

text \<open>What every step keeps to: the handle stays on its interlock, and no expiration goes down.\<close>

definition owner_guar :: "owner \<Rightarrow> owner \<Rightarrow> bool" where
  "owner_guar w w' \<longleftrightarrow>
     o_handle w' = o_handle w \<and> o_clock w' = o_clock w \<and> expirations_grow (o_shm w) (o_shm w')"

text \<open>The continuation runs when every thread has ended.\<close>

definition all_ended :: "owner \<Rightarrow> bool" where
  "all_ended w \<longleftrightarrow> (\<forall>t \<in> set (threads w). t_pc t = Ended)"

lemma continue_keeps:
  assumes "owner_inv w" and "all_ended w" and "touch_field w = None"
    and "o_clock w \<noteq> None \<longrightarrow> k = Then_Free \<or> k = Then_Gone"
  shows "owner_inv (continue_with k w) \<and> owner_guar w (continue_with k w)"
proof (cases k)
  case Then_Free
  have g: "expirations_grow (o_shm w) (owner_free (o_handle w) (o_shm w))"
    by (rule growing.freeing) simp
  then have "o_handle w < next_region (owner_free (o_handle w) (o_shm w))"
    using assms(1) by (auto simp: owner_inv_def expirations_grow_def)
  with g assms show ?thesis
    by (auto simp: Then_Free owner_inv_def owner_guar_def all_ended_def intro: thread_ok_grow)
next
  case (Then_Spawn interval_ms)
  with assms show ?thesis
    by (auto simp: owner_inv_def owner_guar_def all_ended_def hold_thread_def nth_append less_Suc_eq
        touch_spawn_def thread_ok_def)
qed (use assms in \<open>auto simp: owner_inv_def owner_guar_def all_ended_def\<close>)

lemma ended_unless_held:
  "owner_inv w \<Longrightarrow> touch_field w = None \<Longrightarrow> o_pc w = Idle \<or> o_pc w = Gone \<Longrightarrow> all_ended w"
  by (fastforce simp: owner_inv_def all_ended_def in_set_conv_nth)

lemma ended_when_joined:
  "owner_inv w \<Longrightarrow> o_pc w = Joining i k \<Longrightarrow> t_pc (threads w ! i) = Ended \<Longrightarrow> all_ended w"
  by (fastforce simp: owner_inv_def all_ended_def in_set_conv_nth)

lemma take_keeps:
  assumes "owner_inv w" and "o_pc w = Idle" and "o_clock w \<noteq> None \<longrightarrow> k = Then_Free \<or> k = Then_Gone"
  shows "owner_inv (take_thread k w) \<and> owner_guar w (take_thread k w)"
proof (cases "touch_field w")
  case None
  with assms ended_unless_held [OF assms(1) None] continue_keeps [OF assms(1)] show ?thesis
    by (simp add: take_thread_def)
next
  case (Some i)
  with assms show ?thesis
    by (auto simp: take_thread_def owner_inv_def owner_guar_def nth_list_update
        dest: set_update_subset_insert [THEN subsetD])
qed

lemma others_keep:
  assumes "owner_inv w" and "expirations_grow (o_shm w) s"
  shows "owner_inv (w\<lparr>o_shm := s\<rparr>) \<and> owner_guar w (w\<lparr>o_shm := s\<rparr>)"
proof -
  have "next_region (o_shm w) \<le> next_region s" using assms(2) by (simp add: expirations_grow_def)
  then show ?thesis
    using assms by (auto simp: owner_inv_def owner_guar_def intro: thread_ok_grow)
qed

lemma beat_keeps_inv:
  assumes "owner_inv w" and "i < length (threads w)"
    and step: "thread_step b (threads w ! i) (o_shm w) = Some (t, s)" and "beat_keeps b"
  shows "owner_inv (w\<lparr>threads := (threads w)[i := t], o_shm := s\<rparr>) \<and>
    owner_guar w (w\<lparr>threads := (threads w)[i := t], o_shm := s\<rparr>)"
proof -
  have g: "expirations_grow (o_shm w) s" by (rule thread_step_grow [OF step assms(4)])
  have ok: "thread_ok (o_handle w) (o_clock w) (o_shm w) (threads w ! i)"
    using assms(1,2) by (simp add: owner_inv_def)
  have "thread_ok (o_handle w) (o_clock w) s t" by (rule thread_ok_step [OF ok step])
  moreover have "owner_inv (w\<lparr>o_shm := s\<rparr>)" using others_keep [OF assms(1) g] by simp
  ultimately show ?thesis
    using assms(1,2) g thread_step_static [OF step]
    by (auto simp: owner_inv_def owner_guar_def nth_list_update dest: set_update_subset_insert [THEN subsetD])
qed

lemma owner_step_keeps: "owner_step w w' \<Longrightarrow> owner_inv w \<Longrightarrow> owner_inv w' \<and> owner_guar w w'"
proof (erule owner_stepE, goal_cases)
  case (3 i)
  then show ?case
    by (auto simp: owner_inv_def owner_guar_def nth_list_update dest: set_update_subset_insert [THEN subsetD])
next
  case (6 i k)
  have "touch_field w = None" "o_clock w \<noteq> None \<longrightarrow> k = Then_Free \<or> k = Then_Gone"
    using 6(1,3) by (auto simp: owner_inv_def)
  with 6 continue_keeps [OF 6(1) ended_when_joined [OF 6(1,3,4)]] show ?case by simp
qed (use take_keeps beat_keeps_inv others_keep in
    \<open>auto simp: owner_calls\<close>)

interpretation owner_run: step_guarantee owner_step owner_inv owner_guar
proof
  show "owner_inv w \<Longrightarrow> owner_guar w w" for w by (simp add: owner_guar_def)
  show "owner_guar u v \<Longrightarrow> owner_guar v w \<Longrightarrow> owner_guar u w" for u v w
    by (auto simp: owner_guar_def intro: grow_trans)
qed (use owner_step_keeps in blast)+

lemma hold_first:
  assumes "r < next_region s"
  shows "owner_inv (hold_thread (touch_spawn r ms) (bare_handle r k s))"
    and "owner_inv (hold_thread (process_clock_spawn r clk ms) (bare_handle r (Some clk) s))"
    and "o_handle (hold_thread t (bare_handle r k s)) = r"
  using assms
  by (auto simp: owner_inv_def hold_thread_def bare_handle_def touch_spawn_def process_clock_spawn_def thread_ok_def)

lemma new_owner_inv:
  assumes "new_owner r s w" and "r < next_region s"
  shows "owner_inv w" and "o_handle w = r"
proof -
  have grown: "r < next_region (process_clock_new r clk f g s)"
    if "\<forall>s. expirations_grow s (f s) \<and> expirations_grow s (g s)" for clk f g
    using growing.clock_started [of r f g s clk] that assms(2) by (simp add: expirations_grow_def)
  from assms(1) consider "w = owner_new r s" | clk where "w = wait_handle_new r clk s"
    | clk f g where "r < next_region (process_clock_new r clk f g s)" "w = process_clock_owner_new r clk f g s"
    unfolding new_owner_def using grown by blast
  then have "owner_inv w \<and> o_handle w = r"
    by cases (simp_all add: owner_new_def wait_handle_new_def process_clock_owner_new_def hold_first assms(2))
  then show "owner_inv w" and "o_handle w = r" by simp_all
qed

section \<open>After \<open>free\<close>\<close>

text \<open>\<open>free\<close> returns: at once when the handle holds no thread, else when its thread has ended.\<close>

definition free_returns :: "owner \<Rightarrow> owner \<Rightarrow> bool" where
  "free_returns w w' \<longleftrightarrow>
     w' = continue_with Then_Free w \<and>
     (o_pc w = Idle \<and> touch_field w = None \<or>
      (\<exists>i. o_pc w = Joining i Then_Free \<and> t_pc (threads w ! i) = Ended))"

definition silenced :: "owner \<Rightarrow> bool" where
  "silenced w \<longleftrightarrow>
     owner_inv w \<and> load (o_handle w) Expiration_Word (o_shm w) = SENTINEL \<and>
     (\<forall>t \<in> set (threads w). t_pc t \<notin> {Publishing, Sleeping})"

lemma free_silences:
  assumes "owner_inv w" and "free_returns w w'"
  shows "silenced w'"
proof -
  consider "o_pc w = Idle" "touch_field w = None"
    | i where "o_pc w = Joining i Then_Free" "t_pc (threads w ! i) = Ended"
    using assms(2) by (auto simp: free_returns_def)
  then have "touch_field w = None \<and> all_ended w"
  proof cases
    case 1
    with ended_unless_held [OF assms(1)] show ?thesis by simp
  next
    case 2
    with ended_when_joined [OF assms(1) 2] assms(1) show ?thesis by (simp add: owner_inv_def)
  qed
  with continue_keeps [OF assms(1), of Then_Free] assms(2) show ?thesis
    by (auto simp: free_returns_def silenced_def all_ended_def owner_free_def shm_simps)
qed

lemma silenced_threads:
  assumes "silenced w" and "t \<in> set (threads w)" and "thread_step b t (o_shm w) = Some (t', s)"
  shows "s = o_shm w \<and> t_pc t' \<notin> {Publishing, Sleeping}"
proof (rule thread_step_terminated [OF assms(3)])
  show "load (t_interlock t) Expiration_Word (o_shm w) = SENTINEL"
    using assms(1,2) by (auto simp: silenced_def owner_inv_def thread_ok_def)
qed (use assms(1,2) in \<open>auto simp: silenced_def\<close>)

lemma continue_pc:
  "t \<in> set (threads (continue_with k w)) \<Longrightarrow> t \<in> set (threads w) \<or> t_pc t = Checking"
  by (cases k) (auto simp: hold_thread_def touch_spawn_def)

lemma take_pc:
  assumes "t \<in> set (threads (take_thread k w))" and "owner_inv w"
  shows "t_pc t = Checking \<or> (\<exists>u \<in> set (threads w). t_pc t = t_pc u)"
proof (cases "touch_field w")
  case None
  with assms(1) continue_pc show ?thesis by (fastforce simp: take_thread_def)
next
  case (Some i)
  with assms have "i < length (threads w)" "t \<in> set ((threads w)[i := touch_stop (threads w ! i)])"
    by (auto simp: take_thread_def owner_inv_def)
  then show ?thesis by (metis in_set_conv_nth length_list_update nth_list_update touch_stop_simps(1))
qed

lemma silenced_step:
  assumes "owner_step w w'" and "silenced w"
  shows "silenced w'"
proof -
  have inv: "owner_inv w" using assms(2) by (simp add: silenced_def)
  have k: "owner_inv w'" "owner_guar w w'" using owner_step_keeps [OF assms(1) inv] by simp_all
  have "load (o_handle w') Expiration_Word (o_shm w') = SENTINEL"
    using k(2) inv assms(2) grow_terminated by (auto simp: owner_guar_def silenced_def owner_inv_def)
  moreover have "t_pc t \<notin> {Publishing, Sleeping}" if t: "t \<in> set (threads w')" for t
  proof -
    have old: "t_pc u \<notin> {Publishing, Sleeping}" if "u \<in> set (threads w)" for u
      using assms(2) that by (simp add: silenced_def)
    have taken: ?thesis if "w' = take_thread k w" for k
      using take_pc [OF t [unfolded that] inv]
    proof (elim disjE bexE)
      fix u
      assume "u \<in> set (threads w)" and "t_pc t = t_pc u"
      with old [of u] show ?thesis by simp
    qed simp
    show ?thesis
      using assms(1)
    proof (cases rule: owner_step.cases)
      case (flag i)
      then have "i < length (threads w)" using inv by (simp add: owner_inv_def)
      then have "t = touch_stop (threads w ! i) \<or> t \<in> set (threads w)"
        using t flag(1) set_update_subset_insert [of "threads w" i] by auto
      with old [OF nth_mem [OF \<open>i < length (threads w)\<close>]] old [of t] show ?thesis by auto
    next
      case (joined i k)
      with t continue_pc old show ?thesis by fastforce
    next
      case (beat i b u s)
      then have "t = u \<or> t \<in> set (threads w)"
        using t set_update_subset_insert [of "threads w" i u] by auto
      with silenced_threads [OF assms(2) nth_mem [OF beat(2)] beat(3)] old [of t] show ?thesis by auto
    next
      case (others s)
      with t old [of t] show ?thesis by simp
    qed (unfold owner_calls, (erule taken)+)
  qed
  ultimately show ?thesis using k(1) by (simp add: silenced_def)
qed

interpretation silent_run: step_guarantee owner_step silenced owner_guar
proof
  show "silenced w \<Longrightarrow> owner_guar w w" for w by (simp add: owner_guar_def)
  show "owner_guar u v \<Longrightarrow> owner_guar v w \<Longrightarrow> owner_guar u w" for u v w
    by (rule owner_run.guar_trans)
  show "silenced w \<Longrightarrow> owner_step w w' \<Longrightarrow> silenced w'" for w w'
    by (rule silenced_step)
  show "silenced w \<Longrightarrow> owner_step w w' \<Longrightarrow> owner_guar w w'" for w w'
    using owner_step_keeps by (simp add: silenced_def)
qed

section \<open>Joining\<close>

text \<open>How many steps a thread told to stop has left.\<close>

fun steps_left :: "thread_pc \<Rightarrow> nat" where
  "steps_left Ended = 0"
| "steps_left Checking = 1"
| "steps_left Sleeping = 2"
| "steps_left Publishing = 3"
| "steps_left Arming = 4"

lemma steps_left_bound: "steps_left p \<le> 4"
  by (cases p) simp_all

text \<open>In some round of the arm the exchange does not fail and the word is left alone.\<close>

definition arm_quiet :: "region \<Rightarrow> beat \<Rightarrow> bool" where
  "arm_quiet r b \<longleftrightarrow>
     (\<exists>f. (f, False) \<in> set (b_sched b) \<and> (\<forall>s. load r Expiration_Word (f s) = load r Expiration_Word s))"

lemma stopped_step:
  assumes "thread_ok r clk s t" and "t_stop t" and "t_pc t \<noteq> Ended" and "arm_quiet r b"
  shows "\<exists>t' s'. thread_step b t s = Some (t', s') \<and> steps_left (t_pc t') < steps_left (t_pc t)"
proof (cases "t_pc t")
  case Arming
  have r: "t_interlock t = r" using assms(1) by (simp add: thread_ok_def)
  have "fst (interlock_arm r (t_ttl t) (b_now b) (b_sched b) s) \<noteq> None"
    using assms(4) arm_loop_returns by (auto simp: arm_quiet_def interlock_arm_def)
  then obtain res s' where "interlock_arm r (t_ttl t) (b_now b) (b_sched b) s = (Some res, s')"
    by (metis fst_conv option.exhaust surj_pair)
  with Arming r show ?thesis
    by (auto simp: thread_step_def split: sum.split option.split)
next
  case Publishing
  with assms(1) show ?thesis by (auto simp: thread_step_def thread_ok_def Let_def)
qed (use assms(2,3) in \<open>auto simp: thread_step_def\<close>)

text \<open>Steps of one thread, each after what others do.\<close>

fun run_beats :: "nat \<Rightarrow> ((shm \<Rightarrow> shm) \<times> beat) list \<Rightarrow> owner \<Rightarrow> owner" where
  "run_beats i [] w = w"
| "run_beats i ((f, b) # bs) w =
     run_beats i bs
       (case thread_step b (threads w ! i) (f (o_shm w)) of
          None \<Rightarrow> w\<lparr>o_shm := f (o_shm w)\<rparr>
        | Some (t, s) \<Rightarrow> w\<lparr>threads := (threads w)[i := t], o_shm := s\<rparr>)"

lemma run_beats_steps:
  assumes "\<forall>(f, b) \<in> set bs. (\<forall>s. expirations_grow s (f s)) \<and> beat_keeps b" and "i < length (threads w)"
  shows "owner_step\<^sup>*\<^sup>* w (run_beats i bs w)"
  using assms
proof (induction bs arbitrary: w)
  case (Cons x bs)
  obtain f b where x: "x = (f, b)" by fastforce
  let ?u = "w\<lparr>o_shm := f (o_shm w)\<rparr>"
  have 1: "owner_step w ?u" using Cons.prems(1) by (intro owner_step.others) (simp add: x)
  show ?case
  proof (cases "thread_step b (threads w ! i) (f (o_shm w))")
    case None
    then have "run_beats i (x # bs) w = run_beats i bs ?u" by (simp add: x)
    with 1 Cons.IH [of ?u] Cons.prems show ?thesis by (simp add: converse_rtranclp_into_rtranclp)
  next
    case (Some ts)
    then obtain t s where ts: "thread_step b (threads ?u ! i) (o_shm ?u) = Some (t, s)" by (cases ts) auto
    let ?v = "?u\<lparr>threads := (threads ?u)[i := t], o_shm := s\<rparr>"
    have "beat_keeps b" "i < length (threads ?u)" using Cons.prems by (auto simp: x)
    with ts have 2: "owner_step ?u ?v" by (intro owner_step.beat)
    have "run_beats i (x # bs) w = run_beats i bs ?v" using ts by (simp add: x)
    moreover have "owner_step\<^sup>*\<^sup>* ?v (run_beats i bs ?v)" using Cons.IH [of ?v] Cons.prems by simp
    ultimately show ?thesis using 1 2 by (metis converse_rtranclp_into_rtranclp)
  qed
qed simp

lemma run_beats_pc [simp]: "o_pc (run_beats i bs w) = o_pc w"
  by (induction i bs w rule: run_beats.induct) (auto split: option.split)

text \<open>A thread told to stop is at its end after as many steps as it has left.\<close>

lemma run_beats_ends:
  assumes "owner_inv w" and "o_pc w = Joining i k" and "steps_left (t_pc (threads w ! i)) \<le> length bs"
    and "\<forall>(f, b) \<in> set bs. (\<forall>s. expirations_grow s (f s)) \<and> beat_keeps b \<and> arm_quiet (o_handle w) b"
  shows "t_pc (threads (run_beats i bs w) ! i) = Ended"
  using assms
proof (induction bs arbitrary: w)
  case Nil
  then show ?case by (cases "t_pc (threads w ! i)") simp_all
next
  case (Cons x bs)
  obtain f b where x: "x = (f, b)" by fastforce
  let ?u = "w\<lparr>o_shm := f (o_shm w)\<rparr>"
  have b: "expirations_grow (o_shm w) (f (o_shm w))" "beat_keeps b" "arm_quiet (o_handle w) b"
    using Cons.prems(4) by (auto simp: x)
  have u: "owner_inv ?u" using others_keep [OF Cons.prems(1) b(1)] by simp
  have i: "i < length (threads w)" and stop: "t_stop (threads w ! i)"
    using Cons.prems(1,2) by (auto simp: owner_inv_def)
  show ?case
  proof (cases "t_pc (threads w ! i) = Ended")
    case True
    then have "run_beats i (x # bs) w = run_beats i bs ?u" by (simp add: x thread_step_def)
    with Cons.IH [OF u] Cons.prems True show ?thesis by simp
  next
    case False
    have "thread_ok (o_handle w) (o_clock w) (o_shm ?u) (threads w ! i)"
      using u i by (auto simp: owner_inv_def)
    from stopped_step [OF this stop False b(3)] obtain t s where
      ts: "thread_step b (threads ?u ! i) (o_shm ?u) = Some (t, s)"
      and less: "steps_left (t_pc t) < steps_left (t_pc (threads w ! i))" by auto
    let ?v = "?u\<lparr>threads := (threads ?u)[i := t], o_shm := s\<rparr>"
    have "owner_inv ?v" using beat_keeps_inv [OF u _ ts b(2)] i by simp
    moreover have "run_beats i (x # bs) w = run_beats i bs ?v" using ts by (simp add: x)
    ultimately show ?thesis using Cons.IH [of ?v] Cons.prems less i by simp
  qed
qed

section \<open>Properties\<close>

text \<open>
  C20: One heartbeat at a time, and none after \<open>free\<close>.  However the calls of an owner, its
  threads and everybody else interleave, every thread of a handle works on the handle's
  interlock, at most one has not ended, and that one is held by the handle or being joined;
  one with its reaped flag up has ended, with the expiration at the sentinel.  Once \<open>free\<close> has
  returned the expiration stays at the sentinel and no thread of the handle, nor one started
  later, ever writes to memory again.
\<close>

theorem one_heartbeat:
  assumes "new_owner r s w0" and "r < next_region s"
    and "owner_step\<^sup>*\<^sup>* w0 w"
  shows "(\<forall>t \<in> set (threads w). t_interlock t = r \<and>
      (touch_is_reaped t \<longrightarrow> t_pc t = Ended \<and> load r Expiration_Word (o_shm w) = SENTINEL)) \<and>
    (\<forall>i < length (threads w). \<forall>j < length (threads w).
      t_pc (threads w ! i) \<noteq> Ended \<longrightarrow> t_pc (threads w ! j) \<noteq> Ended \<longrightarrow> i = j) \<and>
    (\<forall>i < length (threads w). t_pc (threads w ! i) \<noteq> Ended \<longrightarrow>
      touch_field w = Some i \<or> (\<exists>k. o_pc w = Joining i k)) \<and>
    (\<forall>w1 w2. free_returns w w1 \<longrightarrow> owner_step\<^sup>*\<^sup>* w1 w2 \<longrightarrow>
      load r Expiration_Word (o_shm w2) = SENTINEL \<and>
      (\<forall>t \<in> set (threads w2). \<forall>b t' s'. thread_step b t (o_shm w2) = Some (t', s') \<longrightarrow> s' = o_shm w2))"
proof -
  note start = new_owner_inv [OF assms(1,2)]
  have inv: "owner_inv w" by (rule owner_run.run_inv [OF assms(3) start(1)])
  have r: "o_handle w = r"
    using owner_run.run_guar [OF assms(3) start(1)] start(2) by (simp add: owner_guar_def)
  have after: "load r Expiration_Word (o_shm w2) = SENTINEL \<and> silenced w2"
    if "free_returns w w1" "owner_step\<^sup>*\<^sup>* w1 w2" for w1 w2
  proof -
    have w1: "silenced w1" by (rule free_silences [OF inv that(1)])
    have w2: "silenced w2" by (rule silent_run.run_inv [OF that(2) w1])
    have "o_handle w2 = o_handle w1" using silent_run.run_guar [OF that(2) w1] by (simp add: owner_guar_def)
    moreover have "o_handle w1 = r" using that(1) r by (simp add: free_returns_def)
    ultimately show ?thesis using w2 by (simp add: silenced_def)
  qed
  then have quiet: "load r Expiration_Word (o_shm w2) = SENTINEL \<and>
      (\<forall>t \<in> set (threads w2). \<forall>b t' s'. thread_step b t (o_shm w2) = Some (t', s') \<longrightarrow> s' = o_shm w2)"
    if "free_returns w w1" "owner_step\<^sup>*\<^sup>* w1 w2" for w1 w2
    using that silenced_threads by blast
  have held: "\<forall>i < length (threads w). t_pc (threads w ! i) \<noteq> Ended \<longrightarrow>
      touch_field w = Some i \<or> (\<exists>k. o_pc w = Joining i k)"
    using inv by (simp add: owner_inv_def)
  moreover have "i = j" if "i < length (threads w)" "j < length (threads w)"
    "t_pc (threads w ! i) \<noteq> Ended" "t_pc (threads w ! j) \<noteq> Ended" for i j
    by (rule running_unique [OF inv that])
  moreover have "\<forall>t \<in> set (threads w). t_interlock t = r \<and>
      (touch_is_reaped t \<longrightarrow> t_pc t = Ended \<and> load r Expiration_Word (o_shm w) = SENTINEL)"
    using inv r by (auto simp: owner_inv_def thread_ok_def touch_is_reaped_def)
  ultimately show ?thesis using quiet by blast
qed

text \<open>
  C21: Stopping, replacing, freeing and dropping return.  When an owner waits for its thread to
  end, four steps of that thread are enough, whatever others do between them, provided each of
  its arms gets one round in which the exchange does not fail and nobody changes the expiration;
  the owner then goes on with what it was called for.
\<close>

theorem join_returns:
  assumes "new_owner r s w0" and "r < next_region s"
    and "owner_step\<^sup>*\<^sup>* w0 w" and "o_pc w = Joining i k" and "4 \<le> length bs"
    and "\<forall>(f, b) \<in> set bs. (\<forall>s. expirations_grow s (f s)) \<and> beat_keeps b \<and> arm_quiet r b"
  shows "owner_step\<^sup>*\<^sup>* w (run_beats i bs w) \<and> t_pc (threads (run_beats i bs w) ! i) = Ended \<and>
    owner_step (run_beats i bs w) (continue_with k (run_beats i bs w))"
proof -
  note start = new_owner_inv [OF assms(1,2)]
  have inv: "owner_inv w" by (rule owner_run.run_inv [OF assms(3) start(1)])
  have r: "o_handle w = r"
    using owner_run.run_guar [OF assms(3) start(1)] start(2) by (simp add: owner_guar_def)
  have "steps_left (t_pc (threads w ! i)) \<le> length bs"
    using steps_left_bound assms(5) by (rule order_trans)
  then have e: "t_pc (threads (run_beats i bs w) ! i) = Ended"
    using assms(6) r by (intro run_beats_ends [OF inv assms(4)]) auto
  have "owner_step\<^sup>*\<^sup>* w (run_beats i bs w)"
    using assms(4,6) inv by (intro run_beats_steps) (auto simp: owner_inv_def)
  with e owner_step.joined [OF _ e] assms(4) show ?thesis by simp
qed

section \<open>Witnesses\<close>

definition sample_beat :: beat where
  "sample_beat = \<lparr>b_now = 5, b_sched = undisturbed, b_between = (\<lambda>s. s)\<rparr>"

definition restarted :: owner where
  "restarted = start_touch_thread 60 (owner_new 1 (sample_shm 1000))"

lemma sample_owner: "new_owner 1 (sample_shm 1000) (owner_new 1 (sample_shm 1000))"
  by (simp add: new_owner_def)

lemma sample_beat: "beat_keeps sample_beat" "arm_quiet r sample_beat"
  by (auto simp: sample_beat_def beat_keeps_def arm_quiet_def undisturbed_def)

lemma restarted:
  "owner_step\<^sup>*\<^sup>* (owner_new 1 (sample_shm 1000)) restarted" "o_pc restarted = Joining 0 (Then_Spawn 60)"
  "length (threads restarted) = 1" "touch_field restarted = None"
  "threads restarted ! 0 = touch_stop (touch_spawn 1 DEFAULT_TOUCH_INTERVAL_MS)"
proof -
  have "owner_step (owner_new 1 (sample_shm 1000)) restarted"
    unfolding restarted_def
    by (rule owner_step.start) (simp_all add: owner_new_def hold_thread_def bare_handle_def)
  then show "owner_step\<^sup>*\<^sup>* (owner_new 1 (sample_shm 1000)) restarted" by blast
qed (simp_all add: restarted_def start_touch_thread_def take_thread_def owner_new_def hold_thread_def bare_handle_def)

text \<open>The old thread sees its flag and ends, the new one is started, and \<open>free\<close> stops that.\<close>

lemma one_heartbeat_witness:
  "\<exists>w w'. owner_step\<^sup>*\<^sup>* (owner_new 1 (sample_shm 1000)) w \<and> free_returns w w' \<and> length (threads w') = 2 \<and>
     load 1 Expiration_Word (o_shm w') = SENTINEL"
proof -
  let ?bs = "[(\<lambda>s. s, sample_beat)]"
  let ?u = "call_free (continue_with (Then_Spawn 60) (run_beats 0 ?bs restarted))"
  let ?w = "run_beats 1 ?bs ?u"
  have bs: "\<forall>(f, b) \<in> set ?bs. (\<forall>s. expirations_grow s (f s)) \<and> beat_keeps b" using sample_beat by simp
  have 1: "run_beats 0 ?bs restarted = restarted\<lparr>threads := [(threads restarted ! 0)\<lparr>t_pc := Ended\<rparr>]\<rparr>"
    using restarted(3,5) by (cases "threads restarted") (simp_all add: thread_step_def touch_stop_def touch_spawn_def)
  have "owner_step\<^sup>*\<^sup>* restarted (run_beats 0 ?bs restarted)"
    by (rule run_beats_steps [OF bs]) (simp add: restarted(3))
  moreover have "owner_step (run_beats 0 ?bs restarted) (continue_with (Then_Spawn 60) (run_beats 0 ?bs restarted))"
    by (rule owner_step.joined [of _ 0]) (simp_all add: 1 restarted(2) del: run_beats.simps)
  moreover have "owner_step (continue_with (Then_Spawn 60) (run_beats 0 ?bs restarted)) ?u"
    by (rule owner_step.free) (simp add: hold_thread_def)
  ultimately have u: "owner_step\<^sup>*\<^sup>* (owner_new 1 (sample_shm 1000)) ?u"
    using restarted(1) by (meson rtranclp.rtrancl_into_rtrancl rtranclp_trans)
  have tu: "threads ?u = [(threads restarted ! 0)\<lparr>t_pc := Ended\<rparr>, touch_stop (touch_spawn (o_handle restarted) 60)]"
    "o_pc ?u = Joining 1 Then_Free"
    by (simp_all add: 1 hold_thread_def call_free_def take_thread_def del: run_beats.simps)
  then have w: "t_pc (threads ?w ! 1) = Ended" "length (threads ?w) = 2" "o_pc ?w = Joining 1 Then_Free"
    by (simp_all add: thread_step_def touch_stop_def touch_spawn_def)
  have "owner_step\<^sup>*\<^sup>* ?u ?w" by (rule run_beats_steps [OF bs]) (unfold tu(1), simp)
  with u have run: "owner_step\<^sup>*\<^sup>* (owner_new 1 (sample_shm 1000)) ?w" by (rule rtranclp_trans)
  have free: "free_returns ?w (continue_with Then_Free ?w)"
    unfolding free_returns_def using w(1,3) by blast
  have "1 < next_region (sample_shm 1000)" by (simp add: sample_shm_def)
  from one_heartbeat [OF sample_owner this run] free
  have "load 1 Expiration_Word (o_shm (continue_with Then_Free ?w)) = SENTINEL" by blast
  with run free w(2) show ?thesis by (intro exI [of _ ?w] exI [of _ "continue_with Then_Free ?w"]) simp
qed

lemma join_returns_witness:
  "\<exists>w. owner_step\<^sup>*\<^sup>* (owner_new 1 (sample_shm 1000)) w \<and> o_pc w = Idle \<and> touch_field w \<noteq> None"
proof -
  let ?bs = "replicate 4 (\<lambda>s. s, sample_beat)"
  let ?w = "run_beats 0 ?bs restarted"
  have "1 < next_region (sample_shm 1000)" by (simp add: sample_shm_def)
  moreover have "\<forall>(f, b) \<in> set ?bs. (\<forall>s. expirations_grow s (f s)) \<and> beat_keeps b \<and> arm_quiet 1 b"
    using sample_beat by auto
  ultimately have "owner_step\<^sup>*\<^sup>* restarted ?w" "owner_step ?w (continue_with (Then_Spawn 60) ?w)"
    using join_returns [OF sample_owner _ restarted(1,2), of ?bs] by simp_all
  with restarted(1) have "owner_step\<^sup>*\<^sup>* (owner_new 1 (sample_shm 1000)) (continue_with (Then_Spawn 60) ?w)"
    by (meson rtranclp.rtrancl_into_rtrancl rtranclp_trans)
  then show ?thesis by (intro exI [of _ "continue_with (Then_Spawn 60) ?w"]) (simp add: hold_thread_def)
qed

end
