(* ===== verification/Sdk_Roles.thy ===== *)
theory Sdk_Roles
  imports Sdk_Owner
begin

text \<open>
  The methods that each handle of the SDK has, type by type, and the words of its interlock that
  a handle's role may write.  A method that several handles have is one definition of
  \<open>Sdk_Handles\<close> or \<open>Sdk_Waits\<close>; what a type leaves out cannot be called.  \<open>free\<close> is what it does
  once the handle's thread has ended, as \<open>Sdk_Owner\<close> has it.
\<close>

section \<open>Answers\<close>

text \<open>What a method returns; \<^const>\<open>None\<close> is a call that has not returned when its schedule ends.\<close>

datatype answer =
    Unit_Answer
  | Count u64
  | Counts u64 u64
  | Signed int
  | Lifecycle InterlockState
  | Touched "sdk_error + unit"
  | Word_Reached "sdk_error + u64"
  | Waited "sdk_error + wait_result"
  | Timed timer_end

type_synonym outcome = "answer option \<times> shm"

definition answers :: "('a \<Rightarrow> answer) \<Rightarrow> 'a \<times> shm \<Rightarrow> outcome" where
  "answers f = (\<lambda>(x, s). (Some (f x), s))"

definition may_answer :: "('a \<Rightarrow> answer) \<Rightarrow> 'a option \<times> shm \<Rightarrow> outcome" where
  "may_answer f = (\<lambda>(x, s). (map_option f x, s))"

definition quietly :: "shm \<Rightarrow> outcome" where
  "quietly s = (Some Unit_Answer, s)"

lemma outcome_memory [simp]:
  "snd (answers f p) = snd p" "snd (may_answer f q) = snd q" "snd (quietly s) = s"
  by (simp_all add: answers_def may_answer_def quietly_def split: prod.splits)

section \<open>Interlock and AttachedInterlock\<close>

text \<open>
  The arguments of a call are the method's own, followed by what it meets: what others do between
  its accesses, readings of the clock, schedules.
\<close>

datatype interlock_call =
    Interlock_Open u64
  | Interlock_Close u64
  | Interlock_Touch u64 u64 arm_schedule
  | Interlock_Peek "shm \<Rightarrow> shm"
  | Interlock_Wait_Open u64 "wait_round list"
  | Interlock_Wait_Close u64 "wait_round list"
  | Interlock_Value "shm \<Rightarrow> shm"
  | Interlock_State "shm \<Rightarrow> shm" "shm \<Rightarrow> shm" u64
  | Interlock_Free

fun interlock_method :: "region \<Rightarrow> interlock_call \<Rightarrow> shm \<Rightarrow> outcome" where
  "interlock_method r (Interlock_Open h) s = quietly (handle_open r h s)"
| "interlock_method r (Interlock_Close h) s = quietly (handle_close r h s)"
| "interlock_method r (Interlock_Touch ms now sched) s =
     may_answer Touched (handle_touch r ms now sched s)"
| "interlock_method r (Interlock_Peek others) s = answers (\<lambda>(a, b). Counts a b) (peek r others s)"
| "interlock_method r (Interlock_Wait_Open target rounds) s =
     may_answer Word_Reached (wait_open r target rounds s)"
| "interlock_method r (Interlock_Wait_Close target rounds) s =
     may_answer Word_Reached (wait_close r target rounds s)"
| "interlock_method r (Interlock_Value others) s = answers Signed (handle_value r others s)"
| "interlock_method r (Interlock_State others1 others2 now) s =
     answers Lifecycle (handle_state r others1 others2 now s)"
| "interlock_method r Interlock_Free s = quietly (owner_free r s)"

datatype attached_call =
    Attached_Open u64
  | Attached_Close u64
  | Attached_Peek "shm \<Rightarrow> shm"
  | Attached_Wait_Open u64 "wait_round list"
  | Attached_Wait_Close u64 "wait_round list"
  | Attached_Value "shm \<Rightarrow> shm"
  | Attached_State "shm \<Rightarrow> shm" "shm \<Rightarrow> shm" u64
  | Attached_Free

fun attached_method :: "region \<Rightarrow> attached_call \<Rightarrow> shm \<Rightarrow> outcome" where
  "attached_method r (Attached_Open h) s = quietly (handle_open r h s)"
| "attached_method r (Attached_Close h) s = quietly (handle_close r h s)"
| "attached_method r (Attached_Peek others) s = answers (\<lambda>(a, b). Counts a b) (peek r others s)"
| "attached_method r (Attached_Wait_Open target rounds) s =
     may_answer Word_Reached (wait_open r target rounds s)"
| "attached_method r (Attached_Wait_Close target rounds) s =
     may_answer Word_Reached (wait_close r target rounds s)"
| "attached_method r (Attached_Value others) s = answers Signed (handle_value r others s)"
| "attached_method r (Attached_State others1 others2 now) s =
     answers Lifecycle (handle_state r others1 others2 now s)"
| "attached_method r Attached_Free s = quietly (attached_free r s)"

section \<open>The read-only handles\<close>

datatype attached_counter_call =
    Watcher_Peek "shm \<Rightarrow> shm"
  | Watcher_Value "shm \<Rightarrow> shm"
  | Watcher_Completed_At

fun attached_counter_method :: "region \<Rightarrow> attached_counter_call \<Rightarrow> shm \<Rightarrow> outcome" where
  "attached_counter_method r (Watcher_Peek others) s = answers (\<lambda>(a, b). Counts a b) (peek r others s)"
| "attached_counter_method r (Watcher_Value others) s = answers Signed (handle_value r others s)"
| "attached_counter_method r Watcher_Completed_At s = answers Count (completed_at r s, s)"

datatype clock_call =
    Clock_Peek "shm \<Rightarrow> shm"
  | Clock_Value "shm \<Rightarrow> shm"
  | Clock_Now_Ms
  | Clock_Start_Time_Ms
  | Clock_Uptime_Ms "shm \<Rightarrow> shm"
  | Clock_Wait_Open u64 "wait_round list"
  | Clock_Wait_Close u64 "wait_round list"

fun clock_method :: "region \<Rightarrow> clock_call \<Rightarrow> shm \<Rightarrow> outcome" where
  "clock_method r (Clock_Peek others) s = answers (\<lambda>(a, b). Counts a b) (peek r others s)"
| "clock_method r (Clock_Value others) s = answers Signed (handle_value r others s)"
| "clock_method r Clock_Now_Ms s = answers Count (clock_now_ms r s, s)"
| "clock_method r Clock_Start_Time_Ms s = answers Count (clock_start_time_ms r s, s)"
| "clock_method r (Clock_Uptime_Ms others) s = answers Signed (clock_uptime_ms r others s)"
| "clock_method r (Clock_Wait_Open target rounds) s =
     may_answer Word_Reached (wait_open r target rounds s)"
| "clock_method r (Clock_Wait_Close target rounds) s =
     may_answer Word_Reached (wait_close r target rounds s)"

section \<open>The handles of the waits\<close>

datatype counter_call =
    Counter_Wait_Until u64 u64 wait_start "wait_round list"
  | Counter_Completed_At
  | Counter_Touch u64 u64 arm_schedule
  | Counter_Peek "shm \<Rightarrow> shm"
  | Counter_Value "shm \<Rightarrow> shm"
  | Counter_Free

fun counter_method :: "region \<Rightarrow> counter_call \<Rightarrow> shm \<Rightarrow> outcome" where
  "counter_method r (Counter_Wait_Until target timeout_ms st rounds) s =
     may_answer Waited (counter_wait_until r target timeout_ms st rounds s)"
| "counter_method r Counter_Completed_At s = answers Count (completed_at r s, s)"
| "counter_method r (Counter_Touch ms now sched) s = may_answer Touched (handle_touch r ms now sched s)"
| "counter_method r (Counter_Peek others) s = answers (\<lambda>(a, b). Counts a b) (peek r others s)"
| "counter_method r (Counter_Value others) s = answers Signed (handle_value r others s)"
| "counter_method r Counter_Free s = quietly (owner_free r s)"

datatype timer_call =
    Timer_Wait_Ms u64 wait_start u64 "wait_round list"
  | Timer_Wait_Until u64 "shm \<Rightarrow> shm" wait_start u64 "wait_round list"
  | Timer_Completed_At
  | Timer_Touch u64 u64 arm_schedule
  | Timer_Peek "shm \<Rightarrow> shm"
  | Timer_Free

fun timer_method :: "region \<Rightarrow> region \<Rightarrow> timer_call \<Rightarrow> shm \<Rightarrow> outcome" where
  "timer_method r clk (Timer_Wait_Ms ms st now rounds) s =
     may_answer Timed (timer_wait_ms r clk ms st now rounds s)"
| "timer_method r clk (Timer_Wait_Until timestamp_ms others st now rounds) s =
     may_answer Timed (timer_wait_until r clk timestamp_ms others st now rounds s)"
| "timer_method r clk Timer_Completed_At s = answers Count (completed_at r s, s)"
| "timer_method r clk (Timer_Touch ms now sched) s = may_answer Touched (handle_touch r ms now sched s)"
| "timer_method r clk (Timer_Peek others) s = answers (\<lambda>(a, b). Counts a b) (peek r others s)"
| "timer_method r clk Timer_Free s = quietly (owner_free r s)"

datatype cron_call =
    Cron_Wait "shm \<Rightarrow> shm" "wait_round list"
  | Cron_Completed_At
  | Cron_Peek "shm \<Rightarrow> shm"
  | Cron_Free

fun cron_method :: "region \<Rightarrow> cron_call \<Rightarrow> shm \<Rightarrow> outcome" where
  "cron_method r (Cron_Wait others rounds) s = may_answer Waited (cron_wait r others rounds s)"
| "cron_method r Cron_Completed_At s = answers Count (completed_at r s, s)"
| "cron_method r (Cron_Peek others) s = answers (\<lambda>(a, b). Counts a b) (peek r others s)"
| "cron_method r Cron_Free s = quietly (owner_free r s)"

datatype barrier_call =
    Barrier_Wait "wait_round list"
  | Barrier_Completed_At
  | Barrier_Peek "shm \<Rightarrow> shm"
  | Barrier_Free

fun barrier_method :: "region \<Rightarrow> barrier_call \<Rightarrow> shm \<Rightarrow> outcome" where
  "barrier_method r (Barrier_Wait rounds) s = may_answer Waited (barrier_wait r rounds s)"
| "barrier_method r Barrier_Completed_At s = answers Count (completed_at r s, s)"
| "barrier_method r (Barrier_Peek others) s = answers (\<lambda>(a, b). Counts a b) (peek r others s)"
| "barrier_method r Barrier_Free s = quietly (owner_free r s)"

text \<open>\<open>is_reaped\<close> of a process clock reads its thread's flag and no memory.\<close>

datatype process_clock_call =
    Process_Uptime_Ms "shm \<Rightarrow> shm"
  | Process_Last_Seen_Ms
  | Process_Start_Time_Ms
  | Process_Free

fun process_clock_method :: "region \<Rightarrow> process_clock_call \<Rightarrow> shm \<Rightarrow> outcome" where
  "process_clock_method r (Process_Uptime_Ms others) s = answers Signed (process_clock_uptime_ms r others s)"
| "process_clock_method r Process_Last_Seen_Ms s = answers Count (process_clock_last_seen_ms r s, s)"
| "process_clock_method r Process_Start_Time_Ms s = answers Count (process_clock_start_time_ms r s, s)"
| "process_clock_method r Process_Free s = quietly (process_clock_free r s)"

section \<open>Roles\<close>

datatype role =
    Role_Interlock
  | Role_Attached
  | Role_Attached_Counter
  | Role_Clock
  | Role_Counter
  | Role_Timer
  | Role_Cron
  | Role_Barrier
  | Role_Process_Clock

text \<open>
  The words each role may write, as a specification.  The creators of an interlock, a counter and
  a timer, the two attachers and the clock have the rows of the permission table in
  docs/design/CONTRACTS.md.  Cron, barrier and process clock are not in that table: their three
  rows say what the methods of their types write and have no other source.
\<close>

fun may_write :: "role \<Rightarrow> word_id set" where
  "may_write Role_Interlock = {Open_Word, Closed_Word, Expiration_Word}"
| "may_write Role_Counter = {Open_Word, Expiration_Word}"
| "may_write Role_Timer = {Open_Word, Expiration_Word}"
| "may_write Role_Attached = {Open_Word, Closed_Word}"
| "may_write Role_Attached_Counter = {}"
| "may_write Role_Clock = {}"
| "may_write Role_Cron = {Expiration_Word}"
| "may_write Role_Barrier = {Expiration_Word}"
| "may_write Role_Process_Clock = {Open_Word, Closed_Word, Expiration_Word}"

text \<open>A call through a handle of any of the types.\<close>

datatype handle_call =
    On_Interlock interlock_call
  | On_Attached attached_call
  | On_Attached_Counter attached_counter_call
  | On_Clock clock_call
  | On_Counter counter_call
  | On_Timer region timer_call
  | On_Cron cron_call
  | On_Barrier barrier_call
  | On_Process_Clock process_clock_call

fun role_of :: "handle_call \<Rightarrow> role" where
  "role_of (On_Interlock c) = Role_Interlock"
| "role_of (On_Attached c) = Role_Attached"
| "role_of (On_Attached_Counter c) = Role_Attached_Counter"
| "role_of (On_Clock c) = Role_Clock"
| "role_of (On_Counter c) = Role_Counter"
| "role_of (On_Timer clk c) = Role_Timer"
| "role_of (On_Cron c) = Role_Cron"
| "role_of (On_Barrier c) = Role_Barrier"
| "role_of (On_Process_Clock c) = Role_Process_Clock"

fun handle_method :: "region \<Rightarrow> handle_call \<Rightarrow> shm \<Rightarrow> outcome" where
  "handle_method r (On_Interlock c) s = interlock_method r c s"
| "handle_method r (On_Attached c) s = attached_method r c s"
| "handle_method r (On_Attached_Counter c) s = attached_counter_method r c s"
| "handle_method r (On_Clock c) s = clock_method r c s"
| "handle_method r (On_Counter c) s = counter_method r c s"
| "handle_method r (On_Timer clk c) s = timer_method r clk c s"
| "handle_method r (On_Cron c) s = cron_method r c s"
| "handle_method r (On_Barrier c) s = barrier_method r c s"
| "handle_method r (On_Process_Clock c) s = process_clock_method r c s"

section \<open>What others do during a call\<close>

text \<open>Everything that others do during a call keeps to a relation.\<close>

abbreviation gap_keeps :: "(shm \<Rightarrow> shm \<Rightarrow> bool) \<Rightarrow> (shm \<Rightarrow> shm) \<Rightarrow> bool" where
  "gap_keeps guar f \<equiv> (\<forall>s. guar s (f s))"

abbreviation sched_keeps :: "(shm \<Rightarrow> shm \<Rightarrow> bool) \<Rightarrow> arm_schedule \<Rightarrow> bool" where
  "sched_keeps guar sched \<equiv> (\<forall>(f, b) \<in> set sched. \<forall>s. guar s (f s))"

abbreviation rounds_keep :: "(shm \<Rightarrow> shm \<Rightarrow> bool) \<Rightarrow> wait_round list \<Rightarrow> bool" where
  "rounds_keep guar rounds \<equiv> (\<forall>rd \<in> set rounds. wait_keeps guar rd)"

fun call_keeps :: "(shm \<Rightarrow> shm \<Rightarrow> bool) \<Rightarrow> handle_call \<Rightarrow> bool" where
  "call_keeps guar (On_Interlock c) =
     (case c of
        Interlock_Touch ms now sched \<Rightarrow> sched_keeps guar sched
      | Interlock_Peek f \<Rightarrow> gap_keeps guar f
      | Interlock_Wait_Open target rounds \<Rightarrow> rounds_keep guar rounds
      | Interlock_Wait_Close target rounds \<Rightarrow> rounds_keep guar rounds
      | Interlock_Value f \<Rightarrow> gap_keeps guar f
      | Interlock_State f g now \<Rightarrow> gap_keeps guar f \<and> gap_keeps guar g
      | _ \<Rightarrow> True)"
| "call_keeps guar (On_Attached c) =
     (case c of
        Attached_Peek f \<Rightarrow> gap_keeps guar f
      | Attached_Wait_Open target rounds \<Rightarrow> rounds_keep guar rounds
      | Attached_Wait_Close target rounds \<Rightarrow> rounds_keep guar rounds
      | Attached_Value f \<Rightarrow> gap_keeps guar f
      | Attached_State f g now \<Rightarrow> gap_keeps guar f \<and> gap_keeps guar g
      | _ \<Rightarrow> True)"
| "call_keeps guar (On_Attached_Counter c) =
     (case c of
        Watcher_Peek f \<Rightarrow> gap_keeps guar f
      | Watcher_Value f \<Rightarrow> gap_keeps guar f
      | Watcher_Completed_At \<Rightarrow> True)"
| "call_keeps guar (On_Clock c) =
     (case c of
        Clock_Peek f \<Rightarrow> gap_keeps guar f
      | Clock_Value f \<Rightarrow> gap_keeps guar f
      | Clock_Uptime_Ms f \<Rightarrow> gap_keeps guar f
      | Clock_Wait_Open target rounds \<Rightarrow> rounds_keep guar rounds
      | Clock_Wait_Close target rounds \<Rightarrow> rounds_keep guar rounds
      | _ \<Rightarrow> True)"
| "call_keeps guar (On_Counter c) =
     (case c of
        Counter_Wait_Until target ms st rounds \<Rightarrow> start_keeps guar st \<and> rounds_keep guar rounds
      | Counter_Touch ms now sched \<Rightarrow> sched_keeps guar sched
      | Counter_Peek f \<Rightarrow> gap_keeps guar f
      | Counter_Value f \<Rightarrow> gap_keeps guar f
      | _ \<Rightarrow> True)"
| "call_keeps guar (On_Timer clk c) =
     (case c of
        Timer_Wait_Ms ms st now rounds \<Rightarrow> start_keeps guar st \<and> rounds_keep guar rounds
      | Timer_Wait_Until ts f st now rounds \<Rightarrow>
          gap_keeps guar f \<and> start_keeps guar st \<and> rounds_keep guar rounds
      | Timer_Touch ms now sched \<Rightarrow> sched_keeps guar sched
      | Timer_Peek f \<Rightarrow> gap_keeps guar f
      | _ \<Rightarrow> True)"
| "call_keeps guar (On_Cron c) =
     (case c of
        Cron_Wait f rounds \<Rightarrow> gap_keeps guar f \<and> rounds_keep guar rounds
      | Cron_Peek f \<Rightarrow> gap_keeps guar f
      | _ \<Rightarrow> True)"
| "call_keeps guar (On_Barrier c) =
     (case c of
        Barrier_Wait rounds \<Rightarrow> rounds_keep guar rounds
      | Barrier_Peek f \<Rightarrow> gap_keeps guar f
      | _ \<Rightarrow> True)"
| "call_keeps guar (On_Process_Clock c) =
     (case c of Process_Uptime_Ms f \<Rightarrow> gap_keeps guar f | _ \<Rightarrow> True)"

lemma reading_memory [simp]:
  "snd (peek r f s) = f s" "snd (handle_value r f s) = f s" "snd (clock_uptime_ms r f s) = f s"
  "snd (process_clock_uptime_ms r f s) = f s" "snd (handle_state r f g now s) = g (f s)"
  by (simp_all add: peek_def handle_value_def clock_uptime_ms_def process_clock_uptime_ms_def
      handle_state_def Let_def)

lemma process_clock_free_owner: "process_clock_free r s = owner_free r s"
  by (simp add: process_clock_free_def owner_free_def)

context interleaving
begin

lemmas methods = handle_opened handle_closed freeing detaching touching waiting_loops waiting_until

text \<open>A call keeps to the guarantee if its handle's role may write only cells that it covers.\<close>

lemma calling:
  assumes "\<forall>w \<in> may_write (role_of c). (r, w) \<in> cells" and "call_keeps guar c"
  shows "guar s (snd (handle_method r c s))"
proof (cases c)
  case (On_Interlock m)
  with assms show ?thesis by (cases m) (auto intro: methods guar_refl guar_trans)
next
  case (On_Attached m)
  with assms show ?thesis by (cases m) (auto intro: methods guar_refl guar_trans)
next
  case (On_Attached_Counter m)
  with assms show ?thesis by (cases m) (auto intro: guar_refl)
next
  case (On_Clock m)
  with assms show ?thesis by (cases m) (auto intro: methods guar_refl)
next
  case (On_Counter m)
  with assms show ?thesis by (cases m) (auto intro: methods guar_refl)
next
  case (On_Timer clk m)
  with assms show ?thesis by (cases m) (auto intro: methods guar_refl)
next
  case (On_Cron m)
  with assms show ?thesis by (cases m) (auto intro: methods guar_refl)
next
  case (On_Barrier m)
  with assms show ?thesis by (cases m) (auto intro: methods guar_refl)
next
  case (On_Process_Clock m)
  with assms show ?thesis by (cases m) (auto simp: process_clock_free_owner intro: methods guar_refl)
qed

end

section \<open>Targets at the edge of the counts\<close>

text \<open>
  A target equal to the sentinel terminates the interlock it is set on: raising the open count to
  it is the same store as an attacher's \<open>free\<close>.
\<close>

lemma raising_to_sentinel_terminates:
  assumes "cas_max r SENTINEL undisturbed s = (Some u, t)"
  shows "interlock_is_terminated r t"
  using cas_max_open [OF assms] by (simp add: undisturbed_def open_rely_def interlock_is_terminated_def SENTINEL_def)

text \<open>A timer whose duration takes the clock past the last count gets a target in the past.\<close>

lemma timer_target_wraps:
  "2 ^ 64 \<le> unat (load clk Open_Word s) + unat ms \<Longrightarrow>
     load clk Open_Word s + ms < load clk Open_Word s"
  by (rule u64_add_wraps)

section \<open>Properties\<close>

text \<open>
  C23: A handle writes what its role allows and nothing else.  Whatever method of whatever handle
  is called, on any arguments and with any others in between: all that it does to memory is a
  sequence of atomic accesses to words of its own interlock that its role may write, and those of
  the others; so a word that the role may not write, and any word of any other interlock, is left as it
  is unless the others change it.  What a role may write is the table \<open>may_write\<close>: the permission
  table of docs/design/CONTRACTS.md, with rows of our own for the three roles it leaves out.  The same holds of every step of the
  thread that an owning handle has started.
\<close>

theorem handle_calls_permitted:
  "(\<forall>cells. {r} \<times> may_write (role_of c) \<subseteq> cells \<longrightarrow> call_keeps (access_in cells)\<^sup>*\<^sup>* c \<longrightarrow>
      (access_in cells)\<^sup>*\<^sup>* s (snd (handle_method r c s))) \<and>
   (\<forall>r' w. (r', w) \<notin> {r} \<times> may_write (role_of c) \<longrightarrow>
      call_keeps (\<lambda>s t. load r' w t = load r' w s) c \<longrightarrow>
      load r' w (snd (handle_method r c s)) = load r' w s) \<and>
   (\<forall>b t t' s' r' w. thread_step b t s = Some (t', s') \<longrightarrow> t_interlock t = r \<longrightarrow>
      Expiration_Word \<in> may_write (role_of c) \<longrightarrow>
      (t_clock t \<noteq> None \<longrightarrow> role_of c = Role_Process_Clock) \<longrightarrow>
      (r', w) \<notin> {r} \<times> may_write (role_of c) \<longrightarrow>
      (\<forall>(f, spurious) \<in> set (b_sched b). \<forall>s. load r' w (f s) = load r' w s) \<longrightarrow>
      (\<forall>s. load r' w (b_between b s) = load r' w s) \<longrightarrow> load r' w s' = load r' w s)"
proof (intro conjI allI impI)
  fix cells
  assume "{r} \<times> may_write (role_of c) \<subseteq> cells" and "call_keeps (access_in cells)\<^sup>*\<^sup>* c"
  then show "(access_in cells)\<^sup>*\<^sup>* s (snd (handle_method r c s))"
    by (intro accesses.calling) auto
next
  fix r' w
  assume "(r', w) \<notin> {r} \<times> may_write (role_of c)" and "call_keeps (\<lambda>s t. load r' w t = load r' w s) c"
  then show "load r' w (snd (handle_method r c s)) = load r' w s"
    by (intro elsewhere.calling) auto
next
  fix b t t' s' r' w
  assume step: "thread_step b t s = Some (t', s')" and t: "t_interlock t = r"
    and role: "Expiration_Word \<in> may_write (role_of c)" "t_clock t \<noteq> None \<longrightarrow> role_of c = Role_Process_Clock"
    and out: "(r', w) \<notin> {r} \<times> may_write (role_of c)"
    and others: "\<forall>(f, spurious) \<in> set (b_sched b). \<forall>s. load r' w (f s) = load r' w s"
      "\<forall>s. load r' w (b_between b s) = load r' w s"
  show "load r' w s' = load r' w s"
    by (rule elsewhere.beating [OF step _ _ others]) (use t role out in auto)
qed

section \<open>Witnesses\<close>

text \<open>
  A counter's owner raises its target and waits, while the daemon delivers and somebody opens
  another interlock: its own closed count is the daemon's, and the clock's words are untouched.
\<close>

definition sample_wait :: handle_call where
  "sample_wait = On_Counter (Counter_Wait_Until 7 100
     (sample_start\<lparr>before_arm := handle_open 2 1\<rparr>) [(still 60)\<lparr>asleep := store 1 Closed_Word 7\<rparr>])"

lemma handle_calls_permitted_witness:
  "load 0 Open_Word (snd (handle_method 1 sample_wait (sample_shm 1000))) = load 0 Open_Word (sample_shm 1000) \<and>
   load 1 Closed_Word (snd (handle_method 1 (On_Timer 0 (Timer_Wait_Ms 5 sample_start 60 [still 60])) (sample_shm 1000))) =
     load 1 Closed_Word (sample_shm 1000)"
proof -
  have "call_keeps (\<lambda>s t. load 0 Open_Word t = load 0 Open_Word s) sample_wait"
    by (simp add: sample_wait_def sample_start_def start_keeps_def wait_keeps_def undisturbed_def handle_open_def
        fetch_add_def shm_simps)
  moreover have "call_keeps (\<lambda>s t. load 1 Closed_Word t = load 1 Closed_Word s)
      (On_Timer 0 (Timer_Wait_Ms 5 sample_start 60 [still 60]))"
    by (simp add: sample_start_def start_keeps_def wait_keeps_def undisturbed_def)
  ultimately show ?thesis
    by (intro conjI handle_calls_permitted [THEN conjunct2, THEN conjunct1, rule_format])
       (simp_all add: sample_wait_def)
qed

end
