(* ===== verification/Sdk_Client.thy ===== *)
theory Sdk_Client
  imports Sdk_Touch Sdk_Waits Transport
begin

text \<open>
  \<open>abacus-client/src/client.rs\<close>: the client's side of the connection, the requests it makes of
  the daemon, and the mapping of the daemon's error codes.  The descriptor table of the
  process, which says what memory a received descriptor denotes, is the argument
  \<open>region_of\<close>.
\<close>

section \<open>Reading\<close>

text \<open>
  \<open>read_exact\<close> of the client: as the daemon's, but on a blocking stream, where an empty read
  is an error like any other.
\<close>

function client_read_loop ::
    "bool \<Rightarrow> nat \<Rightarrow> u8 list \<Rightarrow> arrival list \<Rightarrow> ((transport_error + u8 list) \<times> arrival list) option" where
  "client_read_loop is_frame_start n buf evs =
     (if n \<le> length buf then Some (Inr buf, evs)
      else case stream_read (n - length buf) evs of
        None \<Rightarrow> None
      | Some (r, evs') \<Rightarrow>
         (case r of
            Inr bs \<Rightarrow>
              (if bs = [] then
                 (if buf = [] \<and> is_frame_start then Some (Inl ConnectionClosed, evs')
                  else Some (Inl (Protocol (Truncated n (length buf))), evs'))
               else client_read_loop is_frame_start n (buf @ bs) evs')
          | Inl e \<Rightarrow>
              (if is_interrupted e then client_read_loop is_frame_start n buf evs'
               else Some (Inl (Io Read e), evs'))))"
  by auto
termination
  by (relation "measure (\<lambda>(_, _, _, evs). weight evs)") (auto dest: stream_read_weight)

declare client_read_loop.simps [simp del]

definition client_read_exact ::
    "nat \<Rightarrow> bool \<Rightarrow> arrival list \<Rightarrow> ((transport_error + u8 list) \<times> arrival list) option" where
  "client_read_exact n is_frame_start evs = client_read_loop is_frame_start n [] evs"

text \<open>
  \<open>recvmsg_retry\<close>, \<open>extract_fds\<close> and the loop of \<open>send_frame\<close> are the client's own, too.
\<close>

definition MAX_FDS :: usize where "MAX_FDS = 1"

fun client_recvmsg_retry :: "msg_arrival list \<Rightarrow> (transport_error + u8 list \<times> cmsg list \<times> bool) option" where
  "client_recvmsg_retry [] = None"
| "client_recvmsg_retry (Msg_Failed e # ms) =
     (if e = EINTR then client_recvmsg_retry ms else Some (Inl (Io RecvMsg e)))"
| "client_recvmsg_retry (Msg bs cs trunc # ms) = Some (Inr (bs, cs, trunc))"

fun extract_fds :: "cmsg list \<Rightarrow> fd list" where
  "extract_fds [] = []"
| "extract_fds (c # cs) =
     (if cmsg_level c = SOL_SOCKET \<and> cmsg_type c = SCM_RIGHTS
      then data_fds (cmsg_data c) @ extract_fds cs else extract_fds cs)"

fun send_loop ::
    "u8 list \<Rightarrow> nat \<Rightarrow> write_reply list \<Rightarrow> ((transport_error + unit) \<times> u8 list \<times> write_reply list) option" where
  "send_loop frame written [] = (if written < length frame then None else Some (Inr (), take written frame, []))"
| "send_loop frame written (w # ws) =
     (if \<not> written < length frame then Some (Inr (), take written frame, w # ws)
      else case w of
        Wrote n \<Rightarrow>
          (if n = 0 then Some (Inl (Io Write EPIPE), take written frame, ws)
           else send_loop frame (written + n) ws)
      | Write_Failed e \<Rightarrow>
          (if is_interrupted e then send_loop frame written ws
           else Some (Inl (Io Write e), take written frame, ws)))"

definition client_recvmsg_prefix ::
    "msg_arrival list \<Rightarrow> arrival list \<Rightarrow> ((transport_error + u8 list \<times> fd list) \<times> arrival list) option" where
  "client_recvmsg_prefix ms evs =
     (case client_recvmsg_retry ms of
        None \<Rightarrow> None
      | Some (Inl e) \<Rightarrow> Some (Inl e, evs)
      | Some (Inr (bs, cs, trunc)) \<Rightarrow>
          (if bs = [] then Some (Inl ConnectionClosed, evs)
           else let fds = extract_fds cs in
           if trunc then Some (Inl (Protocol (Truncated MAX_FDS (length fds))), evs)
           else if length bs < LENGTH_PREFIX_BYTES then
             io_then (client_read_exact (LENGTH_PREFIX_BYTES - length bs) False evs)
               (\<lambda>tail evs. Some (Inr (bs @ tail, fds), evs))
           else Some (Inr (bs, fds), evs)))"

definition client_recv_response ::
    "msg_arrival list \<Rightarrow> arrival list \<Rightarrow> ((transport_error + response \<times> fd list) \<times> arrival list) option" where
  "client_recv_response ms evs =
     io_then (client_recvmsg_prefix ms evs) (\<lambda>(prefix, fds) evs.
     let payload_len = unat (u32_from_le_bytes prefix) in
     if MAX_MESSAGE_SIZE < payload_len
     then Some (Inl (Protocol (FrameTooLarge payload_len MAX_MESSAGE_SIZE)), evs)
     else io_then (client_read_exact payload_len False evs) (\<lambda>payload evs.
     case decode_response payload of
       Inl f \<Rightarrow> Some (Inl (Protocol f), evs)
     | Inr resp \<Rightarrow>
         (let needed = expected_fd_count resp in
          if length fds \<noteq> needed then Some (Inl (Protocol (Truncated needed (length fds))), evs)
          else Some (Inr (resp, fds), evs))))"

section \<open>One exchange\<close>

text \<open>
  The client's connection: the replies to its writes, what it has sent, and what will arrive.
\<close>

record client_conn =
  c_replies :: "write_reply list"
  c_sent :: "u8 list"
  c_msgs :: "msg_arrival list"
  c_arrivals :: "arrival list"

definition send_frame :: "u8 list \<Rightarrow> client_conn \<Rightarrow> ((transport_error + unit) \<times> client_conn) option" where
  "send_frame frame c =
     map_option (\<lambda>(r, out, rs). (r, c\<lparr>c_replies := rs, c_sent := c_sent c @ out\<rparr>))
       (send_loop frame 0 (c_replies c))"

text \<open>The messages are those of this exchange: none of them outlives it.\<close>

definition send_recv ::
    "request \<Rightarrow> client_conn \<Rightarrow> ((sdk_error + response \<times> fd list) \<times> client_conn) option" where
  "send_recv req c =
     (case encode_request req of
        Inl f \<Rightarrow> Some (Inl (Sdk_Transport (Protocol f)), c)
      | Inr frame \<Rightarrow>
          (case send_frame frame c of
             None \<Rightarrow> None
           | Some (Inl e, c1) \<Rightarrow> Some (Inl (sdk_from_transport e), c1)
           | Some (Inr _, c1) \<Rightarrow>
               map_option (\<lambda>(r, evs). (map_err sdk_from_transport r, c1\<lparr>c_msgs := [], c_arrivals := evs\<rparr>))
                 (client_recv_response (c_msgs c1) (c_arrivals c1))))"

definition parse_daemon_error :: "u8 \<Rightarrow> string \<Rightarrow> sdk_error" where
  "parse_daemon_error code message =
     (if code = 0x01 then Sdk_InterlockReaped
      else if code = 0x02 then Sdk_InterlockNotFound message
      else if code = 0x03 then Sdk_AllocationFailed message
      else if code = 0x04 then Sdk_InvalidRequest message
      else Sdk_UnexpectedResponse (''unknown daemon error 0x'' @ show_hex2 code @ '': '' @ message))"

fun extract_single_fd :: "fd list \<Rightarrow> sdk_error + fd" where
  "extract_single_fd [f] = Inr f"
| "extract_single_fd fds = Inl (Sdk_Transport (Protocol (Truncated 1 (length fds))))"

definition open_received ::
    "alloc_replies \<Rightarrow> (fd \<Rightarrow> region) \<Rightarrow> fd list \<Rightarrow> sdk_error + region" where
  "open_received k region_of fds =
     and_then (extract_single_fd fds) (\<lambda>f.
     map_err (\<lambda>e. Sdk_MmapFailed (condition_display e)) (interlock_open k (region_of f)))"

fun created_handle ::
    "alloc_replies \<Rightarrow> (fd \<Rightarrow> region) \<Rightarrow> response \<times> fd list \<Rightarrow> sdk_error + region" where
  "created_handle k region_of (Created i, fds) = open_received k region_of fds"
| "created_handle k region_of (Error_Response code message, fds) = Inl (parse_daemon_error code message)"
| "created_handle k region_of (resp, fds) =
     Inl (Sdk_UnexpectedResponse ''unexpected response type for create'')"

fun attached_handle ::
    "alloc_replies \<Rightarrow> (fd \<Rightarrow> region) \<Rightarrow> response \<times> fd list \<Rightarrow> sdk_error + region" where
  "attached_handle k region_of (Attached i, fds) = open_received k region_of fds"
| "attached_handle k region_of (Error_Response code message, fds) = Inl (parse_daemon_error code message)"
| "attached_handle k region_of (resp, fds) =
     Inl (Sdk_UnexpectedResponse ''unexpected response type for attach'')"

type_synonym 'a exchange = "((sdk_error + 'a) \<times> client_conn) option"

definition request_handle ::
    "(response \<times> fd list \<Rightarrow> sdk_error + region) \<Rightarrow> request \<Rightarrow> client_conn \<Rightarrow> region exchange" where
  "request_handle handle_of req c =
     map_option (\<lambda>(r, c'). (and_then r handle_of, c')) (send_recv req c)"

definition do_create ::
    "alloc_replies \<Rightarrow> (fd \<Rightarrow> region) \<Rightarrow> string \<Rightarrow> u8 \<Rightarrow> string option \<Rightarrow> u8 option \<Rightarrow> client_conn \<Rightarrow>
     region exchange" where
  "do_create k region_of name t wn ww c =
     request_handle (created_handle k region_of) (CreateInterlock name t wn ww None None) c"

definition do_attach ::
    "alloc_replies \<Rightarrow> (fd \<Rightarrow> region) \<Rightarrow> string \<Rightarrow> client_conn \<Rightarrow> region exchange" where
  "do_attach k region_of name c =
     request_handle (attached_handle k region_of) (AttachInterlock name) c"

section \<open>The operations of the client\<close>

text \<open>A new handle of any tier is returned with its region; its touch thread starts.\<close>

definition create_interlock where
  "create_interlock k region_of name c = do_create k region_of name 0 None None c"

definition attach_interlock ::
    "alloc_replies \<Rightarrow> (fd \<Rightarrow> region) \<Rightarrow> string \<Rightarrow> client_conn \<Rightarrow> region exchange" where
  "attach_interlock k region_of name c =
     (if name = ''clock''
      then Some (Inl (Sdk_InvalidRequest ''use client.clock() to access the system clock''), c)
      else do_attach k region_of name c)"

definition attach_wait_counter where
  "attach_wait_counter k region_of name c = do_attach k region_of name c"

definition create_wait_counter ::
    "alloc_replies \<Rightarrow> (fd \<Rightarrow> region) \<Rightarrow> string \<Rightarrow> string \<Rightarrow> sdk_watched_word \<Rightarrow> client_conn \<Rightarrow>
     region exchange" where
  "create_wait_counter k region_of name watched w c =
     do_create k region_of name 1 (Some watched) (Some (to_u8 w)) c"

definition create_wait_timer where
  "create_wait_timer k region_of name c = do_create k region_of name 2 None None c"

definition create_wait_cron ::
    "alloc_replies \<Rightarrow> (fd \<Rightarrow> region) \<Rightarrow> string \<Rightarrow> u64 \<Rightarrow> client_conn \<Rightarrow> region exchange" where
  "create_wait_cron k region_of name interval c =
     request_handle (created_handle k region_of)
       (CreateInterlock name 3 None None (Some (saturating_mul_u64 interval 1000000)) None) c"

definition create_wait_barrier ::
    "alloc_replies \<Rightarrow> (fd \<Rightarrow> region) \<Rightarrow> string \<Rightarrow> (string \<times> sdk_watched_word \<times> u64) list \<Rightarrow>
     client_conn \<Rightarrow> region exchange" where
  "create_wait_barrier k region_of name conds c =
     request_handle (created_handle k region_of)
       (CreateInterlock name 4 None None None (Some (map (\<lambda>(n, w, t). (n, to_u8 w, t)) conds))) c"

text \<open>A process clock's words are set before its thread starts.\<close>

definition create_process_clock ::
    "alloc_replies \<Rightarrow> (fd \<Rightarrow> region) \<Rightarrow> region \<Rightarrow> (shm \<Rightarrow> shm) \<Rightarrow> (shm \<Rightarrow> shm) \<Rightarrow> string \<Rightarrow>
     client_conn \<Rightarrow> shm \<Rightarrow> ((sdk_error + region) \<times> client_conn \<times> shm) option" where
  "create_process_clock k region_of clk before_closed before_open name c s =
     map_option (\<lambda>(r, c'). (r, c', (case r of
         Inr h \<Rightarrow> process_clock_new h clk before_closed before_open s | Inl e \<Rightarrow> s)))
       (do_create k region_of name 0 None None c)"

definition conn_connect :: "errno + client_conn \<Rightarrow> transport_error + client_conn" where
  "conn_connect reply = map_err (Io Connect) reply"

definition client_connect ::
    "errno + client_conn \<Rightarrow> alloc_replies \<Rightarrow> (fd \<Rightarrow> region) \<Rightarrow> region exchange" where
  "client_connect reply k region_of =
     (case conn_connect reply of
        Inl e \<Rightarrow> Some (Inl (sdk_from_transport e),
                    \<lparr>c_replies = [], c_sent = [], c_msgs = [], c_arrivals = []\<rparr>)
      | Inr c \<Rightarrow> do_attach k region_of ''clock'' c)"

text \<open>The result of the peeking \<open>recv\<close> and its error number; EWOULDBLOCK is EAGAIN.\<close>

definition is_connected :: "int \<Rightarrow> errno \<Rightarrow> bool" where
  "is_connected ret err \<longleftrightarrow>
     (if ret = 0 then False else if ret < 0 then err = EAGAIN else True)"

section \<open>A blocking stream\<close>

text \<open>
  A stream whose reads never come up empty: they bring data, are interrupted, fail or find the end.
  One that does not end or fail either only brings data.
\<close>

definition blocking :: "arrival list \<Rightarrow> bool" where
  "blocking evs \<longleftrightarrow> Read_Failed EAGAIN \<notin> set evs"

definition flowing :: "arrival list \<Rightarrow> bool" where
  "flowing evs \<longleftrightarrow> list_all (\<lambda>e. case e of Bytes bs \<Rightarrow> bs \<noteq> [] | Read_Failed e \<Rightarrow> e = EINTR) evs"

lemma blocking_simps [simp]:
  "blocking []" "blocking (Bytes bs # evs) \<longleftrightarrow> blocking evs"
  "blocking (Read_Failed e # evs) \<longleftrightarrow> e \<noteq> EAGAIN \<and> blocking evs"
  by (auto simp: blocking_def)

lemma flowing_simps [simp]:
  "flowing []" "flowing (Bytes bs # evs) \<longleftrightarrow> bs \<noteq> [] \<and> flowing evs"
  "flowing (Read_Failed e # evs) \<longleftrightarrow> e = EINTR \<and> flowing evs"
  by (simp_all add: flowing_def)

lemma flowing_quiet: "flowing evs \<Longrightarrow> quiet evs"
  by (auto simp: flowing_def quiet_def list_all_iff split: arrival.splits)

lemma flowing_blocking: "flowing evs \<Longrightarrow> blocking evs"
  by (auto simp: flowing_def blocking_def list_all_iff)

lemma stream_read_blocking:
  "stream_read n evs = Some (r, evs') \<Longrightarrow> blocking evs \<Longrightarrow> blocking evs' \<and> r \<noteq> Inl EAGAIN"
  by (induction n evs rule: stream_read.induct) (auto split: if_splits)

text \<open>On a blocking stream the client reads what the daemon's routine would, and it stays one.\<close>

lemma client_read_loop_eq:
  "blocking evs \<Longrightarrow> client_read_loop start n buf evs = read_loop start n buf evs \<and>
     (\<forall>r evs'. read_loop start n buf evs = Some (r, evs') \<longrightarrow> blocking evs')"
proof (induction start n buf evs rule: read_loop.induct)
  case (1 start n buf evs)
  note steps = read_loop.simps [of start n buf evs] client_read_loop.simps [of start n buf evs]
  show ?case
  proof (cases "n \<le> length buf")
    case True
    with "1.prems" show ?thesis by (simp add: steps)
  next
    case False
    show ?thesis
    proof (cases "stream_read (n - length buf) evs")
      case None
      with False show ?thesis by (simp add: steps)
    next
      case (Some p)
      obtain a t where a: "stream_read (n - length buf) evs = Some (a, t)" using Some by (cases p) auto
      have b: "blocking t" "a \<noteq> Inl EAGAIN"
        using stream_read_blocking [OF a "1.prems"] by auto
      show ?thesis
      proof (cases a)
        case (Inl e)
        with b have e: "\<not> is_would_block e" by (simp add: is_would_block_def)
        with "1.IH"(1) [OF False a refl Inl _ b(1)] Inl a False b(1) show ?thesis
          by (cases "is_interrupted e") (simp_all add: steps)
      next
        case (Inr bs)
        show ?thesis
        proof (cases "bs = []")
          case True
          with Inr a False b show ?thesis by (simp add: steps)
        next
          case bs: False
          with "1.IH"(3) [OF False a refl Inr bs b(1)] Inr a False show ?thesis by (simp add: steps)
        qed
      qed
    qed
  qed
qed

lemma client_read_exact_eq:
  "blocking evs \<Longrightarrow> client_read_exact n start evs = read_exact_retrying n start evs"
  "blocking evs \<Longrightarrow> read_exact_retrying n start evs = Some (r, evs') \<Longrightarrow> blocking evs'"
  using client_read_loop_eq by (auto simp: client_read_exact_def read_exact_retrying_def)

text \<open>An empty poll is an error to the client, as from a stream with a timeout, and no reason to retry.\<close>

lemma client_read_times_out:
  "length buf < n \<Longrightarrow> client_read_loop start n buf (Read_Failed EAGAIN # evs) = Some (Inl (Io Read EAGAIN), evs)"
  by (simp add: client_read_loop.simps)

lemma client_recvmsg_retry_eq: "client_recvmsg_retry ms = recvmsg_retry ms"
  by (induction ms rule: client_recvmsg_retry.induct) auto

lemma extract_fds_eq: "extract_fds cs = extract_fds_from_cmsg cs"
  by (induction cs) auto

lemma send_loop_eq:
  "send_loop frame written ws =
     map_option (\<lambda>(r, out, ws'). (r, take written frame @ out, ws'))
       (write_all_retrying (drop written frame) ws)"
proof (induction frame written ws rule: send_loop.induct)
  case (1 frame written)
  then show ?case by auto
next
  case (2 frame written w ws)
  show ?case
  proof (cases "written < length frame")
    case True
    then have d: "drop written frame \<noteq> []" by simp
    show ?thesis
    proof (cases w)
      case (Wrote n)
      have "drop n (drop written frame) = drop (written + n) frame" by (simp add: add.commute)
      with 2(1) [OF _ Wrote] True d Wrote show ?thesis
        by (auto simp: option.map_comp comp_def take_add split_def simp del: drop_drop)
    next
      case (Write_Failed e)
      with 2(2) [OF _ Write_Failed] True d show ?thesis by auto
    qed
  qed simp
qed

lemma send_frame_eq:
  "send_frame frame c =
     map_option (\<lambda>(r, out, rs). (r, c\<lparr>c_replies := rs, c_sent := c_sent c @ out\<rparr>))
       (write_all_retrying frame (c_replies c))"
  using send_loop_eq [of frame 0 "c_replies c"]
  by (simp add: send_frame_def option.map_comp comp_def split_def)

lemma client_recvmsg_prefix_eq:
  assumes "blocking evs"
  shows "client_recvmsg_prefix ms evs = recvmsg_prefix_with_fds ms evs"
    and "recvmsg_prefix_with_fds ms evs = Some (Inr x, evs') \<Longrightarrow> blocking evs'"
proof -
  show "client_recvmsg_prefix ms evs = recvmsg_prefix_with_fds ms evs"
    by (auto simp: client_recvmsg_prefix_def recvmsg_prefix_with_fds_def client_read_exact_eq(1) [OF assms]
        client_recvmsg_retry_eq extract_fds_eq MAX_FDS_PER_MESSAGE_def MAX_FDS_def Let_def
        split: option.splits sum.splits prod.splits)
  show "blocking evs'" if p: "recvmsg_prefix_with_fds ms evs = Some (Inr x, evs')"
  proof (cases "\<exists>n tail evs1. read_exact_retrying n False evs = Some (Inr tail, evs1) \<and> evs' = evs1")
    case True
    then show ?thesis using client_read_exact_eq(2) [OF assms] by blast
  next
    case False
    with p have "evs' = evs"
      by (auto simp: recvmsg_prefix_with_fds_def Let_def split: option.splits sum.splits if_splits
          dest!: io_then_Some)
    with assms show ?thesis by simp
  qed
qed

lemma client_recv_response_eq:
  assumes "blocking evs"
  shows "client_recv_response ms evs = recv_response ms evs"
proof (cases "recvmsg_prefix_with_fds ms evs")
  case None
  then show ?thesis
    by (simp add: client_recv_response_def recv_response_def client_recvmsg_prefix_eq(1) [OF assms])
next
  case (Some p)
  obtain r evs1 where p: "p = (r, evs1)" by fastforce
  show ?thesis
  proof (cases r)
    case (Inl e)
    then show ?thesis
      by (simp add: client_recv_response_def recv_response_def client_recvmsg_prefix_eq(1) [OF assms] Some p)
  next
    case (Inr x)
    with Some p have "blocking evs1" using client_recvmsg_prefix_eq(2) [OF assms] by simp
    then show ?thesis
      by (cases x) (simp add: client_recv_response_def recv_response_def client_recvmsg_prefix_eq(1) [OF assms]
          Some p Inr read_frame_payload_def client_read_exact_eq(1) Let_def)
  qed
qed

text \<open>One exchange with a socket that takes the request at once.\<close>

lemma send_recv_frame:
  assumes "encode_request req = Inr f" and "f \<noteq> []" and "c_replies c = Wrote n # rs" and "length f \<le> n"
    and "wf_response resp" and "expected_fd_count resp = length fds" and "extract_fds_from_cmsg cs = fds"
    and "encode_response resp = Inr (bs @ later)" and "bs \<noteq> []" and "length bs \<le> LENGTH_PREFIX_BYTES"
    and "c_msgs c = [Msg bs cs False]" and "flowing (c_arrivals c)" and "arrived (c_arrivals c) = later"
  shows "\<exists>c'. send_recv req c = Some (Inr (resp, fds), c') \<and> c_sent c' = c_sent c @ f"
proof -
  let ?c = "c\<lparr>c_replies := rs, c_sent := c_sent c @ f\<rparr>"
  have "n \<noteq> 0" using assms(2,4) by (cases n) auto
  then have "send_frame f c = Some (Inr (), ?c)"
    using assms(2-4) by (cases rs) (simp_all add: send_frame_eq)
  moreover obtain evs' where "client_recv_response (c_msgs c) (c_arrivals c) = Some (Inr (resp, fds), evs')"
    using recv_response_frame [OF assms(5-10) flowing_quiet [OF assms(12)] assms(13)]
    by (auto simp: client_recv_response_eq [OF flowing_blocking [OF assms(12)]] assms(11))
  ultimately show ?thesis by (simp add: send_recv_def assms(1))
qed

section \<open>Properties\<close>

text \<open>
  C30: The client's own copy of the transport is the daemon's.  On a blocking stream, also one that
  ends or fails in the middle of a frame, the client's reads and its \<open>recv_response\<close> give exactly
  what the daemon crate's give, result, error and bytes left; and its \<open>send_frame\<close> writes what
  \<open>write_all_retrying\<close> does, whatever the socket answers.
\<close>

theorem client_transport_equivalent:
  assumes "blocking evs"
  shows "client_recv_response ms evs = recv_response ms evs \<and>
    client_read_exact n start evs = read_exact_retrying n start evs \<and>
    send_frame frame c =
      map_option (\<lambda>(r, out, rs). (r, c\<lparr>c_replies := rs, c_sent := c_sent c @ out\<rparr>))
        (write_all_retrying frame (c_replies c))"
  using client_recv_response_eq [OF assms] client_read_exact_eq(1) [OF assms] send_frame_eq by blast

section \<open>Witnesses\<close>

lemma client_transport_equivalent_witness:
  "client_recv_response [Msg [10, 0] [fds_cmsg [9]] False] [Bytes [0], Read_Failed EINTR, Bytes []] =
     recv_response [Msg [10, 0] [fds_cmsg [9]] False] [Bytes [0], Read_Failed EINTR, Bytes []]"
  by (rule client_transport_equivalent [THEN conjunct1]) simp

end
