(* ===== verification/Daemon_Run.thy ===== *)
theory Daemon_Run
  imports Concurrency
begin

text \<open>
  The daemon as a process: \<open>daemon_run\<close> of \<open>daemon.rs\<close> from the socket path to the end of its
  loop, the \<open>Drop\<close> of the server in \<open>transport.rs\<close>, and \<open>main\<close> with its exit status.
\<close>

section \<open>The loop\<close>

text \<open>
  The cycles of a list of environments.  Only a failed poll ends the loop; when the list ends
  first, the result is the daemon about to begin its next cycle.
\<close>

fun daemon_loop :: "cycle_env list \<Rightarrow> daemon \<Rightarrow> (startup_error + daemon) option" where
  "daemon_loop [] d = Some (Inr d)"
| "daemon_loop (env # envs) d =
     (case daemon_cycle env d of
        None \<Rightarrow> None
      | Some (Inl e) \<Rightarrow> Some (Inl e)
      | Some (Inr d') \<Rightarrow> daemon_loop envs d')"

text \<open>When the server goes out of scope its path is removed, whoever owns it by then.\<close>

definition server_drop :: "path_action list" where
  "server_drop = [Remove_File]"

text \<open>
  \<open>daemon_run\<close> with what it does to the socket path.  A server that was created is dropped when
  \<open>daemon_run\<close> returns, which it only does with an error.
\<close>

definition daemon_run ::
    "string \<Rightarrow> path_replies \<Rightarrow> alloc_replies \<Rightarrow> u64 \<Rightarrow> u64 \<Rightarrow> u64 \<Rightarrow> arm_schedule \<Rightarrow> u64 \<Rightarrow> cycle_env list \<Rightarrow> shm \<Rightarrow>
     (startup_error + daemon) option \<times> path_action list" where
  "daemon_run path pk k now_create now_arm now_start sched now_anchor envs s =
     (case server_create path pk of
        (Inl e, acts) \<Rightarrow> (Some (Inl (startup_from_transport e)), acts)
      | (Inr _, acts) \<Rightarrow>
          (let out = (case daemon_start path pk k now_create now_arm now_start sched now_anchor s of
                 Some (Inr d) \<Rightarrow> daemon_loop envs d
               | out \<Rightarrow> out)
           in case out of
                Some (Inl e) \<Rightarrow> (out, acts @ server_drop)
              | _ \<Rightarrow> (out, acts)))"

text \<open>The exit status of \<open>main\<close>, once \<open>daemon_run\<close> has returned.\<close>

fun exit_status :: "(startup_error + daemon) option \<Rightarrow> int option" where
  "exit_status (Some (Inl e)) = Some 1"
| "exit_status _ = None"

definition abacus_main ::
    "string list \<Rightarrow> path_replies \<Rightarrow> alloc_replies \<Rightarrow> u64 \<Rightarrow> u64 \<Rightarrow> u64 \<Rightarrow> arm_schedule \<Rightarrow> u64 \<Rightarrow> cycle_env list \<Rightarrow>
     shm \<Rightarrow> int option \<times> path_action list" where
  "abacus_main args pk k now_create now_arm now_start sched now_anchor envs s =
     (case parse_args args of
        None \<Rightarrow> (Some 101, [])
      | Some path \<Rightarrow>
          (case daemon_run path pk k now_create now_arm now_start sched now_anchor envs s of
             (out, acts) \<Rightarrow> (exit_status out, acts)))"

section \<open>Lemmas\<close>

lemma daemon_cycle_Inl:
  "daemon_cycle env d = Some (Inl e) \<Longrightarrow>
     e = EventLoopFailed (poll_errno env) \<and> poll_errno env \<noteq> EINTR \<and> (\<exists>t. poll_ret env t < 0)"
  by (auto simp: daemon_cycle_def Let_def bind_eq_Some_conv split: if_splits)

lemma daemon_loop_Inl:
  "daemon_loop envs d = Some (Inl e) \<Longrightarrow>
     \<exists>env \<in> set envs. e = EventLoopFailed (poll_errno env) \<and> poll_errno env \<noteq> EINTR \<and> (\<exists>t. poll_ret env t < 0)"
  by (induction envs d rule: daemon_loop.induct)
     (auto dest: daemon_cycle_Inl split: option.splits sum.splits)

text \<open>The loop is a run of the system.\<close>

lemma daemon_loop_steps:
  "daemon_loop envs d = Some (Inr d') \<Longrightarrow> list_all env_of_clients envs \<Longrightarrow> system_step\<^sup>*\<^sup>* d d'"
proof (induction envs d rule: daemon_loop.induct)
  case (2 env envs d)
  then show ?case
    by (auto split: option.splits sum.splits intro: converse_rtranclp_into_rtranclp system_step.cycle)
qed simp

text \<open>No access of a client lowers an expiration, of whatever region.\<close>

lemma client_expiration_rely: "client_behaviour f \<Longrightarrow> expiration_rely r f"
proof -
  have step: "load r Expiration_Word s \<le> load r Expiration_Word t" if "sdk_access s t" for s t
    using that by (rule access_inE) (auto simp: fetch_add_def shm_simps SENTINEL_def)
  have "load r Expiration_Word s \<le> load r Expiration_Word t" if "sdk_access\<^sup>*\<^sup>* s t" for s t
    using that by (induction rule: rtranclp_induct) (auto dest: step)
  then show "client_behaviour f \<Longrightarrow> expiration_rely r f" by (simp add: client_behaviour_def expiration_rely_def)
qed

lemma daemon_start_Inl:
  "daemon_start path pk k now_create now_arm now_start sched now_anchor s = Some (Inl e) \<Longrightarrow>
     fst (server_create path pk) = Inr p \<Longrightarrow> \<exists>c. e = startup_from_condition c"
  by (auto simp: daemon_start_def split: option.splits sum.splits prod.splits)

text \<open>A cycle ends, whatever clients do, once its calls have been answered.\<close>

lemma cycle_completes:
  assumes "daemon_inv d" and "poll_errno env = EINTR \<or> (\<forall>t. 0 \<le> poll_ret env t)"
    and "(if listener_in env then accept_loop (accepts env) (clients d) else Some (clients d)) = Some cs"
    and "serve_clients env [0..<length (clients d)] cs (reg_of d) (shm_of d) = Some (rm, cs', reg', s')"
    and "env_of_clients env"
    and "(f, False) \<in> set (refresh_sched env)"
    and "\<And>s. load (clock_handle d) Expiration_Word (f s) = load (clock_handle d) Expiration_Word s"
  shows "\<exists>d'. daemon_cycle env d = Some (Inr d') \<and> daemon_inv d' \<and>
    clients d' = nths cs' (- set rm) \<and> cycle d' = cycle d + 1 \<and>
    (load (clock_handle d) Expiration_Word (shm_of d') = SENTINEL \<or>
     refresh_now env + 1000000000 \<le> load (clock_handle d) Expiration_Word (shm_of d'))"
proof -
  let ?clk = "clock_handle d" and ?ms = "clock_now env div NANOS_PER_MS"
  note env = env_of_clients_grow [OF assms(5)]
  have inv: "registry_inv (reg_of d) (shm_of d)" "clock (reg_of d) = Some ?clk"
    using assms(1) by (simp_all add: daemon_inv_def)
  have k: "stays (reg_of d) (shm_of d) reg' s'"
    by (rule busy_requests.serving [OF inv(1) _ _ assms(4)]) (rule env)+
  have "length (clients d) \<le> length cs"
    using assms(3) accept_loop_append by (fastforce split: if_splits)
  then have rm: "remove_clients rm cs' = Some (nths cs' (- set rm))"
    using serve_indices [OF assms(4)] by (intro remove_clients_nths) auto
  let ?s1 = "store ?clk Open_Word ?ms (before_tick env s')"
  have "registry_inv reg' ?s1"
    using k registry_inv_mono [of reg' s'] grow_regions env(6) by (simp add: stays_def registry_inv_store)
  from evaluate_all_inv [OF this env(2)] obtain reg'' s2 where
    e: "evaluate_all ?ms (eval_now env) (eval_sched env) reg' ?s1 = Some (reg'', s2)" "clock reg'' = Some ?clk"
    using k inv(2) by (metis stays_def)
  let ?s3 = "futex_wake ?clk Open_Word (after_pass env s2)"
  obtain res s4 where a: "interlock_arm ?clk 1000000000 (refresh_now env) (refresh_sched env) ?s3 = (Some res, s4)"
    using arm_returns [OF assms(6,7)] by blast
  then have t: "tick env ?clk reg' s' = Some (reg'', s4)"
    by (simp add: tick_def Let_def e refresh_clock_expiration_def)
  define d' where "d' = d\<lparr>cycle := cycle d + 1, clients := nths cs' (- set rm), reg_of := reg'', shm_of := s4\<rparr>"
  have "\<not> (poll_ret env t < 0 \<and> poll_errno env \<noteq> EINTR)" for t
    using assms(2) by (metis not_less)
  then have cycle: "daemon_cycle env d = Some (Inr d')"
    using assms(3,4) rm t by (cases "listener_in env") (auto simp: daemon_cycle_def Let_def d'_def simp del: upt_Suc)
  then have "daemon_inv d'" using cycle_interleaved [OF assms(1) _ assms(5)] by blast
  moreover have "load ?clk Expiration_Word s4 = SENTINEL \<or> refresh_now env + 1000000000 \<le> load ?clk Expiration_Word s4"
    using arm_result [OF a] assms(5) client_expiration_rely by (fastforce simp: env_all_def list_all_iff)
  ultimately show ?thesis using cycle by (simp add: d'_def)
qed

text \<open>Every client has its own turn.\<close>

lemma client_turns:
  assumes "daemon_inv d" and "env_of_clients env" and "daemon_cycle env d = Some (Inr d')"
  shows "\<exists>rm cs' fresh. clients d' = nths (cs' @ fresh) (- set rm) \<and> length cs' = length (clients d) \<and>
    (if listener_in env then accept_loop (accepts env) (clients d) else Some (clients d)) =
      Some (clients d @ fresh) \<and> set rm \<subseteq> {..<length (clients d)} \<and>
    (\<forall>i < length (clients d). \<exists>gone cs1 reg s.
       serve_clients env [0..<i] (clients d @ fresh) (reg_of d) (shm_of d) = Some (gone, cs1, reg, s) \<and>
       registry_inv reg (before_request env i s) \<and> clock reg = Some (clock_handle d) \<and>
       turn_taken env i (clients d ! i) reg (before_request env i s) (cs' ! i) (i \<in> set rm))"
proof -
  let ?n = "length (clients d)"
  from assms(3) obtain cs rm ds reg' s' cs'' reg'' s'' where
    acc: "(if listener_in env then accept_loop (accepts env) (clients d) else Some (clients d)) = Some cs"
    and serve: "serve_clients env [0..<?n] cs (reg_of d) (shm_of d) = Some (rm, ds, reg', s')"
    and rem: "remove_clients rm ds = Some cs''" and d': "clients d' = cs''"
    by (auto simp: daemon_cycle_def Let_def bind_eq_Some_conv split: if_splits)
  obtain fresh where cs: "cs = clients d @ fresh"
    using acc accept_loop_append by (fastforce split: if_splits)
  note ix = serve_indices [OF serve]
  have inv: "registry_inv (reg_of d) (shm_of d)" "clock (reg_of d) = Some (clock_handle d)"
    using assms(1) by (simp_all add: daemon_inv_def)
  note env = env_of_clients_grow [OF assms(2)]
  have "drop ?n ds = fresh"
    using serve_untouched [OF serve] ix by (intro nth_equalityI) (auto simp: cs)
  then have ds: "ds = take ?n ds @ fresh" by (metis append_take_drop_id)
  have "clients d' = nths ds (- set rm)"
  proof -
    have "\<forall>j \<in> set rm. j < length ds" using ix by (auto simp: cs)
    then show ?thesis using remove_clients_nths [of rm ds] rem d' by simp
  qed
  moreover have "\<exists>gone cs1 reg s. serve_clients env [0..<i] cs (reg_of d) (shm_of d) = Some (gone, cs1, reg, s) \<and>
      registry_inv reg (before_request env i s) \<and> clock reg = Some (clock_handle d) \<and>
      turn_taken env i (clients d ! i) reg (before_request env i s) (take ?n ds ! i) (i \<in> set rm)"
    if i: "i < ?n" for i
  proof -
    have c: "cs ! i = clients d ! i" "take ?n ds ! i = ds ! i" using i by (simp_all add: cs nth_append)
    have "[0..<?n] = [0..<i] @ i # [Suc i..<?n]"
      using i upt_add_eq_append [of 0 i "?n - i"] by (simp add: upt_conv_Cons)
    then have "serve_clients env ([0..<i] @ i # [Suc i..<?n]) cs (reg_of d) (shm_of d) = Some (rm, ds, reg', s')"
      using serve by (simp only:)
    then have "\<exists>gone cs1 reg1 s1. serve_clients env [0..<i] cs (reg_of d) (shm_of d) = Some (gone, cs1, reg1, s1) \<and>
        turn_taken env i (cs ! i) reg1 (before_request env i s1) (ds ! i) (i \<in> set rm)"
      by (rule serve_turn) (use i in \<open>simp_all add: cs\<close>)
    then obtain gone cs1 reg1 s1 where
      before: "serve_clients env [0..<i] cs (reg_of d) (shm_of d) = Some (gone, cs1, reg1, s1)"
      and turn: "turn_taken env i (cs ! i) reg1 (before_request env i s1) (ds ! i) (i \<in> set rm)"
      by blast
    have "stays (reg_of d) (shm_of d) reg1 s1"
      by (rule busy_requests.serving [OF inv(1) _ _ before]) (rule env)+
    then have "registry_inv reg1 (before_request env i s1)" "clock reg1 = Some (clock_handle d)"
      using inv(2) registry_inv_mono [of reg1 s1] grow_regions env(4) by (simp_all add: stays_def)
    with before turn show ?thesis unfolding c by blast
  qed
  ultimately show ?thesis
    using acc ix ds by (intro exI [of _ rm] exI [of _ "take ?n ds"] exI [of _ fresh]) (auto simp: cs)
qed

section \<open>Properties\<close>

text \<open>
  C31: A cycle survives its clients and its clock survives the cycle.  Poll has not failed for
  good, the accepts pending come to an end, each client that is served has a whole frame, an end,
  an error or nothing on its stream and a kernel that answers its writes, and one round of the arm
  finds the clock's expiration unchanged; then, whatever clients ask for and whatever they do to
  memory before each request, inside reaps, firings and contracts, around the pass and inside the
  arm, serving returns and the cycle ends without a panic.  The collected clients and no others are
  gone, and the clock's expiration is a second or more after the refresh; and when no client
  terminates the clock, it is not at the sentinel: neither the pass nor the refresh terminates it.
\<close>

theorem cycle_survives_clients:
  assumes "daemon_inv d" and "env_of_clients env"
    and "poll_errno env = EINTR \<or> (\<forall>t. 0 \<le> poll_ret env t)"
    and "listener_in env \<Longrightarrow> \<exists>(ar, nb) \<in> set (accepts env). \<forall>c. ar \<noteq> Accepted c"
    and "\<forall>i < length (clients d). client_answered env i (clients d ! i)"
    and "(f, False) \<in> set (refresh_sched env)"
    and "\<And>s. load (clock_handle d) Expiration_Word (f s) = load (clock_handle d) Expiration_Word s"
  shows "\<exists>fresh rm cs' reg' s' d'.
    (if listener_in env then accept_loop (accepts env) (clients d) else Some (clients d)) = Some (clients d @ fresh) \<and>
    serve_clients env [0..<length (clients d)] (clients d @ fresh) (reg_of d) (shm_of d) = Some (rm, cs', reg', s') \<and>
    daemon_cycle env d = Some (Inr d') \<and> daemon_inv d' \<and>
    clients d' = nths cs' (- set rm) \<and> cycle d' = cycle d + 1 \<and>
    refresh_now env + 1000000000 \<le> load (clock_handle d) Expiration_Word (shm_of d') \<and>
    (load (clock_handle d) Expiration_Word (shm_of d) \<noteq> SENTINEL \<and> refresh_now env + 1000000000 \<noteq> SENTINEL \<and>
     env_all (\<lambda>f. \<forall>s. not_ended (clock_handle d) s (f s)) env \<longrightarrow>
       load (clock_handle d) Expiration_Word (shm_of d') \<noteq> SENTINEL)"
proof -
  note env = env_of_clients_grow [OF assms(2)]
  have inv: "registry_inv (reg_of d) (shm_of d)" using assms(1) by (simp add: daemon_inv_def)
  have "(if listener_in env then accept_loop (accepts env) (clients d) else Some (clients d)) \<noteq> None"
    using assms(4) accept_loop_ends [of _ _ "accepts env" "clients d"] by (auto simp del: not_None_eq)
  then obtain fresh where acc: "(if listener_in env then accept_loop (accepts env) (clients d)
      else Some (clients d)) = Some (clients d @ fresh)"
    using accept_loop_append by (metis append_Nil2 option.exhaust)
  have "\<forall>i \<in> set [0..<length (clients d)]. client_answered env i ((clients d @ fresh) ! i)"
    using assms(5) by (simp add: nth_append)
  then have "serve_clients env [0..<length (clients d)] (clients d @ fresh) (reg_of d) (shm_of d) \<noteq> None"
    by (intro busy_requests.serving_returns [OF inv env(4,5)] distinct_upt)
  then obtain rm cs' reg' s' where
    serve: "serve_clients env [0..<length (clients d)] (clients d @ fresh) (reg_of d) (shm_of d) = Some (rm, cs', reg', s')"
    by (metis option.exhaust prod_cases4)
  from cycle_completes [OF assms(1,3) acc serve assms(2,6,7)] obtain d' where
    d': "daemon_cycle env d = Some (Inr d')" "daemon_inv d'" "clients d' = nths cs' (- set rm)" "cycle d' = cycle d + 1"
    and deadline: "load (clock_handle d) Expiration_Word (shm_of d') = SENTINEL \<or>
      refresh_now env + 1000000000 \<le> load (clock_handle d) Expiration_Word (shm_of d')" by blast
  from deadline have "refresh_now env + 1000000000 \<le> load (clock_handle d) Expiration_Word (shm_of d')"
    by (auto simp: SENTINEL_def)
  with acc serve d' cycle_keeps_clock [OF assms(1) d'(1)] show ?thesis by blast
qed

text \<open>What \<open>daemon_run\<close> is once the server has been created.\<close>

lemma daemon_run_created:
  assumes "server_create path pk = (Inr p, acts)"
    and "daemon_run path pk k now_create now_arm now_start sched now_anchor envs s = (out, acts')"
  shows "out = Some (Inl e) \<Longrightarrow> acts' = acts @ server_drop \<and>
      ((\<exists>c. e = startup_from_condition c) \<or>
       (\<exists>env \<in> set envs. e = EventLoopFailed (poll_errno env) \<and> poll_errno env \<noteq> EINTR \<and> (\<exists>t. poll_ret env t < 0)))"
    and "out = Some (Inr d) \<Longrightarrow> acts' = acts \<and>
      (\<exists>d0. daemon_start path pk k now_create now_arm now_start sched now_anchor s = Some (Inr d0) \<and>
        daemon_loop envs d0 = Some (Inr d))"
  using assms daemon_start_Inl [of path pk k now_create now_arm now_start sched now_anchor s _ p]
  by (auto simp: daemon_run_def Let_def split: option.splits sum.splits dest: daemon_loop_Inl)

text \<open>
  C15: Every client gets its own turn in every cycle.  Of the clients connected when a cycle
  begins, one that has hung up is dropped with nothing done to its connection; one that has
  something to read is given to the request handler exactly as it was, after the clients before
  it, with a well-formed registry that still has the clock, and is dropped iff the handler reports a dead connection; any other
  is untouched; and a client accepted in this cycle is kept, and served in the next at the earliest.
  No client's bytes reach another.
\<close>

theorem clients_served_in_turn:
  assumes "daemon_inv d" and "env_of_clients env" and "daemon_cycle env d = Some (Inr d')"
  shows "\<exists>rm cs' fresh. clients d' = nths (cs' @ fresh) (- set rm) \<and> length cs' = length (clients d) \<and>
    (if listener_in env then accept_loop (accepts env) (clients d) else Some (clients d)) =
      Some (clients d @ fresh) \<and> set rm \<subseteq> {..<length (clients d)} \<and>
    (\<forall>i < length (clients d). \<exists>gone cs1 reg s.
       serve_clients env [0..<i] (clients d @ fresh) (reg_of d) (shm_of d) = Some (gone, cs1, reg, s) \<and>
       registry_inv reg (before_request env i s) \<and> clock reg = Some (clock_handle d) \<and>
       turn_taken env i (clients d ! i) reg (before_request env i s) (cs' ! i) (i \<in> set rm))"
  by (rule client_turns [OF assms])

text \<open>
  C38: The process ends for a reason and cleans up after itself.  On a socket path that is not a
  dead socket, or on which a daemon answers, the process ends with status 1 and has not touched
  the path.  Otherwise it ends, with status 1, only because the server could not be created, the
  clock could not be allocated, or poll failed with something else than an interruption; and
  a server that had been created has then removed its path.  While the process has not
  ended, the path is bound and listened on, and the daemon is in a state of the system that
  its start-up and its clients lead to.
\<close>

theorem main_exits:
  assumes "parse_args args = Some path"
    and "daemon_run path pk k now_create now_arm now_start sched now_anchor envs s = (out, acts)"
  shows "abacus_main args pk k now_create now_arm now_start sched now_anchor envs s = (exit_status out, acts) \<and>
    (path_exists pk \<and> (metadata pk \<noteq> Inr True \<or> probe_connects pk) \<longrightarrow> exit_status out = Some 1 \<and> acts = []) \<and>
    (\<forall>e. out = Some (Inl e) \<longrightarrow>
      (\<exists>t. server_create path pk = (Inl t, acts) \<and> e = startup_from_transport t) \<or>
      last acts = Remove_File \<and> Listen_On \<in> set acts \<and>
      ((\<exists>c. e = startup_from_condition c) \<or>
       (\<exists>env \<in> set envs. e = EventLoopFailed (poll_errno env) \<and> poll_errno env \<noteq> EINTR \<and>
         (\<exists>t. poll_ret env t < 0)))) \<and>
    (\<forall>d. out = Some (Inr d) \<longrightarrow> exit_status out = None \<and> last acts = Listen_On \<and>
      (\<exists>d0. daemon_start path pk k now_create now_arm now_start sched now_anchor s = Some (Inr d0) \<and>
        (list_all env_of_clients envs \<longrightarrow> system_step\<^sup>*\<^sup>* d0 d)))"
proof (cases "fst (server_create path pk)")
  case (Inl t)
  then obtain acts' where c: "server_create path pk = (Inl t, acts')" by (cases "server_create path pk") auto
  with assms show ?thesis using server_create_path [of pk path] by (auto simp: abacus_main_def daemon_run_def)
next
  case (Inr p)
  then obtain acts' where c: "server_create path pk = (Inr p, acts')" by (cases "server_create path pk") auto
  then have acts': "last acts' = Listen_On" "Listen_On \<in> set acts'" and
    path: "\<not> (path_exists pk \<and> (metadata pk \<noteq> Inr True \<or> probe_connects pk))"
    using server_create_path [of pk path] by auto
  note run = daemon_run_created [OF c assms(2)]
  have "abacus_main args pk k now_create now_arm now_start sched now_anchor envs s = (exit_status out, acts)"
    using assms by (simp add: abacus_main_def)
  moreover have "last acts = Remove_File \<and> Listen_On \<in> set acts \<and>
      ((\<exists>c. e = startup_from_condition c) \<or>
       (\<exists>env \<in> set envs. e = EventLoopFailed (poll_errno env) \<and> poll_errno env \<noteq> EINTR \<and>
         (\<exists>t. poll_ret env t < 0)))" if "out = Some (Inl e)" for e
    using run(1) [OF that] acts' by (auto simp: server_drop_def)
  moreover have "exit_status out = None \<and> last acts = Listen_On \<and>
      (\<exists>d0. daemon_start path pk k now_create now_arm now_start sched now_anchor s = Some (Inr d0) \<and>
        (list_all env_of_clients envs \<longrightarrow> system_step\<^sup>*\<^sup>* d0 d))" if "out = Some (Inr d)" for d
    using run(2) [OF that] acts'(1) that daemon_loop_steps by auto
  ultimately show ?thesis using path by blast
qed

section \<open>Witnesses\<close>

text \<open>Three clients: one that poll reports gone, one whose stream ends when it is read, a silent one.\<close>

definition three_clients :: daemon where
  "three_clients = sample_daemon\<lparr>clients :=
     [sample_connection [], (sample_connection [])\<lparr>incoming := [Bytes []]\<rparr>, sample_connection []]\<rparr>"

definition three_env :: cycle_env where
  "three_env = busy_env\<lparr>client_revents := (\<lambda>i. \<lparr>hup_or_err = (i = 0), pollin = (i = 1)\<rparr>)\<rparr>"

lemma three_env: "env_of_clients three_env"
  using busy_env by (simp add: three_env_def env_all_def)

lemma three_clients: "daemon_inv three_clients"
  using sample_daemon(1) by (simp add: three_clients_def daemon_inv_def)

lemma closed_stream:
  "incoming c = [Bytes []] \<Longrightarrow> handle_client_request env c reg s =
     Some (Inl ConnectionClosed, c\<lparr>incoming := []\<rparr>, reg, s)"
proof -
  have "recv_request [Bytes []] = Some (Inl ConnectionClosed, [])"
    by (simp add: recv_request_def recv_payload_def read_frame_prefix_def read_exact_retrying_def
        read_loop.simps LENGTH_PREFIX_BYTES_def)
  then show "incoming c = [Bytes []] \<Longrightarrow> handle_client_request env c reg s =
     Some (Inl ConnectionClosed, c\<lparr>incoming := []\<rparr>, reg, s)" by (simp add: handle_client_request_def)
qed

text \<open>A client whose stream ends is served by a cycle amid busy clients.\<close>

definition one_client :: daemon where
  "one_client = sample_daemon\<lparr>clients := [(sample_connection [Write_Failed EAGAIN])\<lparr>incoming := [Bytes []]\<rparr>]\<rparr>"

definition one_env :: cycle_env where
  "one_env = busy_env\<lparr>client_revents := (\<lambda>i. \<lparr>hup_or_err = False, pollin = True\<rparr>)\<rparr>"

lemma cycle_survives_clients_witness:
  "\<exists>d'. daemon_cycle one_env one_client = Some (Inr d') \<and> daemon_inv d' \<and> cycle d' = 1 \<and> clients d' = [] \<and>
     load 0 Expiration_Word (shm_of d') \<noteq> SENTINEL"
proof -
  have d: "daemon_inv one_client" "load (clock_handle one_client) Expiration_Word (shm_of one_client) \<noteq> SENTINEL"
    using sample_daemon(1) by (simp_all add: one_client_def daemon_inv_def)
      (simp add: sample_daemon_def load_def sample_shm_def SENTINEL_def)
  have env: "env_of_clients one_env" using busy_env by (simp add: one_env_def env_all_def)
  have alive: "env_all (\<lambda>f. \<forall>s. not_ended (clock_handle one_client) s (f s)) one_env"
    by (auto simp: env_all_def one_env_def one_client_def sample_daemon_def busy_env_def sample_env_def client_visit_def
        visit_all_def not_ended_def handle_open_def handle_close_def owner_free_def interlock_free_def
        attached_free_def fetch_add_def shm_simps)
  have "client_answered one_env 0 (clients one_client ! 0)"
    by (simp add: client_answered_def one_client_def socket_answers_def recv_request_def recv_payload_def
        read_frame_prefix_def read_exact_retrying_def read_loop.simps LENGTH_PREFIX_BYTES_def)
  then have answered: "\<forall>i < length (clients one_client). client_answered one_env i (clients one_client ! i)"
    by (simp add: one_client_def)
  have more: "poll_errno one_env = EINTR \<or> (\<forall>t. 0 \<le> poll_ret one_env t)"
    "((\<lambda>s. s), False) \<in> set (refresh_sched one_env)" "\<not> listener_in one_env"
    "refresh_now one_env + 1000000000 \<noteq> SENTINEL"
    by (simp_all add: one_env_def busy_env_def sample_env_def SENTINEL_def)
  have no: "\<exists>(ar, nb) \<in> set (accepts one_env). \<forall>c. ar \<noteq> Accepted c" if "listener_in one_env"
    using that more(3) by simp
  from cycle_survives_clients [OF d(1) env more(1) no answered more(2) refl] obtain fresh rm cs' reg' s' d' where
    acc: "(if listener_in one_env then accept_loop (accepts one_env) (clients one_client)
      else Some (clients one_client)) = Some (clients one_client @ fresh)"
    and served: "serve_clients one_env [0..<length (clients one_client)] (clients one_client @ fresh)
      (reg_of one_client) (shm_of one_client) = Some (rm, cs', reg', s')"
    and d': "daemon_cycle one_env one_client = Some (Inr d')" "daemon_inv d'" "clients d' = nths cs' (- set rm)"
      "cycle d' = cycle one_client + 1"
    and clock: "load (clock_handle one_client) Expiration_Word (shm_of one_client) \<noteq> SENTINEL \<and>
      refresh_now one_env + 1000000000 \<noteq> SENTINEL \<and>
      env_all (\<lambda>f. \<forall>s. not_ended (clock_handle one_client) s (f s)) one_env \<longrightarrow>
        load (clock_handle one_client) Expiration_Word (shm_of d') \<noteq> SENTINEL"
    by blast
  have "fresh = []" using acc more(3) by simp
  with served have serve: "serve_clients one_env [0..<length (clients one_client)] (clients one_client)
      (reg_of one_client) (shm_of one_client) = Some (rm, cs', reg', s')" by simp
  have "rm = [0]" using serve by (auto simp: one_client_def one_env_def closed_stream split: option.splits)
  moreover have "length cs' = 1" using serve_indices [OF serve] by (simp add: one_client_def)
  ultimately have "clients d' = []" using d'(3) by (cases cs') (auto simp: nths_Cons)
  moreover have "load 0 Expiration_Word (shm_of d') \<noteq> SENTINEL"
    using clock d(2) more(4) alive by (simp add: one_client_def sample_daemon_def)
  ultimately show ?thesis using d' by (simp add: one_client_def sample_daemon_def)
qed

lemma three_cycle: "\<exists>d'. daemon_cycle three_env three_clients = Some (Inr d')"
proof -
  have "[0..<length (clients three_clients)] = [0, 1, 2]" by (simp add: three_clients_def upt_rec)
  then have "\<exists>cs s'. serve_clients three_env [0..<length (clients three_clients)] (clients three_clients)
      (reg_of three_clients) (shm_of three_clients) = Some ([0, 1], cs, sample_registry, s')"
    by (simp add: three_clients_def three_env_def sample_daemon_def closed_stream)
  then obtain cs s' where "serve_clients three_env [0..<length (clients three_clients)] (clients three_clients)
      (reg_of three_clients) (shm_of three_clients) = Some ([0, 1], cs, sample_registry, s')" by blast
  from cycle_completes [OF three_clients _ _ this three_env, of "\<lambda>s. s"] show ?thesis
    by (auto simp: three_env_def busy_env_def sample_env_def)
qed

lemma clients_served_in_turn_witness:
  "\<exists>d' rm cs'. daemon_cycle three_env three_clients = Some (Inr d') \<and> length cs' = 3 \<and>
     clients d' = nths cs' (- set rm) \<and> 0 \<in> set rm \<and> 1 \<in> set rm \<and> 2 \<notin> set rm \<and> cs' ! 2 = sample_connection []"
proof -
  obtain d' where d': "daemon_cycle three_env three_clients = Some (Inr d')" using three_cycle by blast
  from clients_served_in_turn [OF three_clients three_env d'] obtain rm cs' fresh where
    r: "clients d' = nths (cs' @ fresh) (- set rm)" "length cs' = length (clients three_clients)"
      "(if listener_in three_env then accept_loop (accepts three_env) (clients three_clients)
        else Some (clients three_clients)) = Some (clients three_clients @ fresh)"
    and turns: "\<forall>i < length (clients three_clients). \<exists>reg s.
       turn_taken three_env i (clients three_clients ! i) reg s (cs' ! i) (i \<in> set rm)"
    by blast
  have "fresh = []" using r(3) by (simp add: three_env_def busy_env_def sample_env_def)
  moreover have "0 \<in> set rm" using turns [rule_format, of 0] by (auto simp: three_clients_def three_env_def turn_taken_def)
  moreover have "1 \<in> set rm"
    using turns [rule_format, of 1] by (auto simp: three_clients_def three_env_def turn_taken_def closed_stream)
  moreover have "2 \<notin> set rm \<and> cs' ! 2 = sample_connection []"
    using turns [rule_format, of 2] by (auto simp: three_clients_def three_env_def turn_taken_def)
  ultimately show ?thesis
    using d' r(1,2) by (intro exI [of _ d'] exI [of _ rm] exI [of _ cs']) (simp add: three_clients_def)
qed

lemma main_exits_witness:
  "\<exists>acts. abacus_main [''abacus'', ''--socket-path=/a''] \<lparr>path_exists = True, metadata = Inr True,
       probe_connects = False, bind_reply = Inr (), nonblocking_reply = Inr (), listen_rc = 0, listen_errno = 0\<rparr>
       good_replies 7000 8000 9000000 undisturbed 9500000
       [sample_env\<lparr>poll_ret := (\<lambda>_. - 1), poll_errno := 9\<rparr>] (sample_shm 0) = (Some 1, acts) \<and>
     acts = [Remove_File, Bind_Path, Listen_On, Remove_File]"
proof -
  let ?pk = "\<lparr>path_exists = True, metadata = Inr True,
       probe_connects = False, bind_reply = Inr (), nonblocking_reply = Inr (), listen_rc = 0, listen_errno = 0\<rparr>"
  let ?envs = "[sample_env\<lparr>poll_ret := (\<lambda>_. - 1), poll_errno := 9\<rparr>]"
  have c: "server_create ''/a'' ?pk = (Inr ''/a'', [Remove_File, Bind_Path, Listen_On])"
    by (simp add: server_create_def remove_stale_def is_socket_file_def)
  have created: "fst (server_create ''/a'' ?pk) = Inr ''/a''" by (simp add: c)
  have ttl: "(7000 :: u64) + CREATION_TTL_NANOS \<noteq> SENTINEL"
    by (simp add: CREATION_TTL_NANOS_def SENTINEL_def)
  obtain d where d: "daemon_start ''/a'' ?pk good_replies 7000 8000 9000000 undisturbed 9500000
      (sample_shm 0) = Some (Inr d)"
    by (rule daemon_start_ok [OF created _ _ _ ttl, of good_replies]) simp_all
  have loop: "daemon_loop ?envs d = Some (Inl (EventLoopFailed 9))"
    by (simp add: daemon_cycle_def Let_def EINTR_def)
  have run: "daemon_run ''/a'' ?pk good_replies 7000 8000 9000000 undisturbed 9500000 ?envs (sample_shm 0) =
      (Some (Inl (EventLoopFailed 9)), [Remove_File, Bind_Path, Listen_On, Remove_File])"
    by (simp only: daemon_run_def c d loop prod.case sum.case option.case Let_def server_drop_def append.simps)
  have "parse_args [''abacus'', ''--socket-path=/a''] = Some ''/a''" by (simp add: parse_args_def)
  from main_exits [OF this run] show ?thesis by simp
qed

end
