(* ===== verification/Delivery.thy ===== *)
theory Delivery
  imports Registry Sdk_Waits Sdk_Touch
begin

text \<open>
  What the daemon's evaluation pass leaves in memory, as the waits of the SDK see it: \<open>registry.rs\<close>
  on one side and the \<open>wait_\<close> files on the other.  The pass of the daemon fires an entry, and the
  next round of the wait on that entry returns what the pass has stored.  And what the heartbeats
  of \<open>touch.rs\<close> leave there, as the pass sees it: an entry kept alive is not reaped.
\<close>

section \<open>Rounds on an interlock that has fired\<close>

text \<open>What others do between the loads of a round leaves the words of an interlock alone.\<close>

definition leaves_words :: "region \<Rightarrow> (shm \<Rightarrow> shm) \<Rightarrow> bool" where
  "leaves_words r f \<longleftrightarrow> (\<forall>s. mem (f s) r = mem s r)"

lemma leaves_words_load [simp]: "leaves_words r f \<Longrightarrow> load r w (f s) = load r w s"
  by (simp add: leaves_words_def load_def)

text \<open>The result that reports a value delivered for a target.\<close>

definition delivered :: "u64 \<Rightarrow> u64 \<Rightarrow> wait_result" where
  "delivered target v = \<lparr>wr_completed_at = v, wr_state = (if v = target then Normal else Overrun)\<rparr>"

lemma counter_round_delivered:
  assumes "leaves_words r (between rd)" and "load r Open_Word s \<le> load r Closed_Word s"
  shows "counter_round r rd s = Inr (Inr (delivered (load r Open_Word s) (load r Closed_Word s)), between rd s)"
    and "timer_round r deadline rd s =
      Inr (Returned (Inr (delivered (load r Open_Word s) (load r Closed_Word s))), between rd s)"
  using assms
  by (auto simp: counter_round_def timer_round_def Let_def check_wake_state_def delivered_def)

lemma sint_minus_small:
  assumes "0 \<le> sint (w :: u64)"
  shows "sint (- w) = - sint w"
proof -
  have "sint w < 2 ^ 63" using sint_lt [of w] by simp
  then have "signed_take_bit 63 (- sint w) = - sint w"
    using assms by (intro signed_take_bit_int_eq_self) auto
  then show ?thesis by (simp add: sint_word_ariths)
qed

lemma barrier_round_delivered:
  assumes "leaves_words r (between rd)" and "load r Open_Word s = 1" and "load r Closed_Word s \<noteq> 0"
    and "load r Closed_Word s < 2 ^ 63"
  shows "barrier_round r rd s = Inr (Inr (delivered 1 (load r Closed_Word s)), between rd s)"
proof -
  let ?v = "load r Closed_Word s"
  have v: "0 < ?v" "1 \<le> ?v" using assms(3) by (auto simp: word_less_nat_alt word_le_nat_alt unat_eq_0 Suc_le_eq unat_gt_0)
  have "unat (?v - 1) < 2 ^ 63" using assms(4) v(2) by (simp add: unat_sub word_less_nat_alt word_le_nat_alt)
  then have "0 \<le> sint (?v - 1)" by (simp add: sint_small)
  moreover have "sint (1 - ?v) = - sint (?v - 1)"
    using sint_minus_small [OF calculation] by simp
  ultimately show ?thesis using assms v by (simp add: barrier_round_def Let_def delivered_def)
qed

lemma cron_round_delivered:
  assumes "leaves_words r (between rd)" and "initial < load r Closed_Word s" and "load r Closed_Word s \<noteq> SENTINEL"
    and "load r Closed_Word s < load r Open_Word s"
  shows "cron_round r initial rd s =
    Inr (Inr \<lparr>wr_completed_at = load r Closed_Word s, wr_state = Normal\<rparr>, between rd s)"
  using assms by (simp add: cron_round_def Let_def not_le)

section \<open>Entries that are kept alive\<close>

text \<open>Alive for a pass at \<open>now_ns\<close>: no word at the sentinel, and a deadline ahead.\<close>

definition alive_at :: "u64 \<Rightarrow> region \<Rightarrow> shm \<Rightarrow> bool" where
  "alive_at now_ns r s \<longleftrightarrow>
     \<not> interlock_is_terminated r s \<and> expiration_alive (load r Expiration_Word s) now_ns"

lemma entry_dead_alive: "entry_dead now_ns e s \<longleftrightarrow> \<not> alive_at now_ns (e_handle e) s"
  by (auto simp: entry_dead_def alive_at_def)

abbreviation spares :: "u64 \<Rightarrow> region \<Rightarrow> (shm \<Rightarrow> shm) \<Rightarrow> bool" where
  "spares now_ns r f \<equiv> (\<forall>s. alive_at now_ns r s \<longrightarrow> alive_at now_ns r (f s))"

text \<open>What the daemon does to other regions spares an interlock, if the clients do.\<close>

interpretation bystanders:
  region_accesses "- {r}" "\<lambda>s t. alive_at now_ns r s \<longrightarrow> alive_at now_ns r t" for r now_ns
  by unfold_locales (auto simp: alive_at_def interlock_is_terminated_def shm_simps)

text \<open>The visit of an entry that is alive, and is kept alive between the loads, does not reap it.\<close>

lemma visit_alive:
  assumes "evaluate_entry now_ms now_ns reg v e s = Some (dead, s')"
    and "visit_all (spares now_ns (e_handle e)) v" and "alive_at now_ns (e_handle e) s"
  shows "\<not> dead" and "e_tier e = Interlock \<Longrightarrow> alive_at now_ns (e_handle e) s'"
proof -
  let ?h = "e_handle e" and ?t = "after_open v s"
  have "alive_at now_ns ?h ?t" "alive_at now_ns ?h (after_closed v ?t)"
    "alive_at now_ns ?h (before_contract v (after_closed v ?t))"
    using assms(2,3) by (simp_all add: visit_all_def)
  with assms(1,3) show "\<not> dead" and "e_tier e = Interlock \<Longrightarrow> alive_at now_ns ?h s'"
    by (auto simp: evaluate_entry_def evaluate_contract_def Let_def alive_at_def interlock_is_terminated_def
        split: if_splits)
qed

lemma pass_alive:
  assumes "evaluate_each now_ms now_ns reg sched s = Some (rm, s')" and "registry_inv reg s0"
    and "by_name reg n = Some e" and "alive_at now_ns (e_handle e) s" and "distinct (map fst sched)"
    and "\<forall>(m, v) \<in> set sched. visit_all (spares now_ns (e_handle e)) v"
  shows "n \<notin> set rm \<and> (n \<notin> fst ` set sched \<or> e_tier e = Interlock \<longrightarrow> alive_at now_ns (e_handle e) s')"
  using assms(1,4-6)
proof (induction sched arbitrary: s rm)
  case Nil
  then show ?case by simp
next
  case (Cons x sched)
  let ?h = "e_handle e"
  obtain m v where x: "x = (m, v)" by fastforce
  let ?s = "before_visit v s"
  have v: "visit_all (spares now_ns ?h) v" using Cons.prems(4) by (simp add: x)
  then have alive: "alive_at now_ns ?h ?s" using Cons.prems(2) by (simp add: visit_all_def)
  show ?case
  proof (cases "m = clock_name \<or> by_name reg m = None")
    case True
    then have "evaluate_each now_ms now_ns reg sched ?s = Some (rm, s')"
      using Cons.prems(1) by (auto simp: x Let_def split: if_splits)
    with Cons.IH [of ?s rm] Cons.prems(3,4) alive True assms(3) show ?thesis by (auto simp: x)
  next
    case False
    then obtain e' where e': "by_name reg m = Some e'" by blast
    obtain dead t rm' where visit: "evaluate_entry now_ms now_ns reg v e' ?s = Some (dead, t)"
      and rest: "evaluate_each now_ms now_ns reg sched t = Some (rm', s')"
      and rm: "rm = (if dead then m # rm' else rm')"
      using Cons.prems(1) False e' by (auto simp: x Let_def bind_eq_Some_conv split: if_splits)
    show ?thesis
    proof (cases "m = n")
      case True
      with e' assms(3) have e: "e' = e" by simp
      note own = visit_alive [OF visit [unfolded e] v alive]
      have "n \<notin> set (map fst sched)" using Cons.prems(3) True by (simp add: x)
      then have "n \<notin> set rm'" using evaluate_each_names [OF rest] by auto
      moreover have "alive_at now_ns ?h s'" if "e_tier e = Interlock"
        using Cons.IH [OF rest own(2) [OF that]] Cons.prems(3,4) that by simp
      ultimately show ?thesis using own(1) True by (auto simp: rm x)
    next
      case False
      then have "e_handle e' \<noteq> ?h" using registry_invD(4) [OF assms(2) e' assms(3)] by blast
      then have "alive_at now_ns ?h t" using bystanders.visiting [OF visit v] alive by simp
      with Cons.IH [OF rest] Cons.prems(3,4) False show ?thesis by (auto simp: rm x)
    qed
  qed
qed

lemma beat_deadline:
  assumes "step = touch_step r interval_ms \<or> step = process_clock_step r clk interval_ms"
    and "step rd s0 = Inl s" and "touch_rely r rd"
  shows "arm_reading rd + touch_ttl interval_ms \<le> load r Expiration_Word s"
  using assms touch_beat.goes_on clock_beat.goes_on by blast

section \<open>Properties\<close>

text \<open>
  C3: What the daemon delivers is what the wait returns.  Take an entry that is alive, open and
  whose contract is met when a pass begins, and a wait on it that has gone on into the memory
  that the pass leaves.  Then the closed count's waiter has been woken, and the wait returns in its
  next round, whatever comes after: a counter's wait with the value watched, a timer's and a
  barrier's with the clock, Normal when that is the target and Overrun when it is past it; and a
  cron's with the clock and Normal, because the pass has armed the next grid line.
\<close>

theorem delivery_end_to_end:
  assumes "registry_inv reg s" and "distinct order" and "set order = dom (by_name reg)"
    and "evaluate_all now_ms now_ns (isolated order) reg s = Some (reg', s')"
    and "by_name reg n = Some e" and "n \<noteq> clock_name"
    and "\<not> entry_dead now_ns e s" and "entry_open e s"
    and "\<forall>m \<in> watched_names e. steady reg now_ns s m"
    and "contract_value now_ms reg e s = Some v" and "leaves_words (e_handle e) (between rd)"
  shows "(\<exists>evs evs'. trace s' = evs @ [Stored (e_handle e) Closed_Word v, Woken (e_handle e) Closed_Word] @ evs') \<and>
    (case e_tier e of
       Interlock \<Rightarrow> False
     | WaitCounter \<Rightarrow> run_rounds (counter_round (e_handle e)) (rd # rds) s' =
         (Some (Inr (delivered (load (e_handle e) Open_Word s) v)), between rd s')
     | WaitTimer \<Rightarrow> v = now_ms \<and> run_rounds (timer_round (e_handle e) deadline) (rd # rds) s' =
         (Some (Returned (Inr (delivered (load (e_handle e) Open_Word s) v))), between rd s')
     | WaitBarrier \<Rightarrow> v = now_ms \<and>
         (load (e_handle e) Open_Word s = 1 \<and> 0 < v \<and> v < 2 ^ 63 \<longrightarrow>
          run_rounds (barrier_round (e_handle e)) (rd # rds) s' = (Some (Inr (delivered 1 v)), between rd s'))
     | WaitCron \<Rightarrow> v = now_ms \<and>
         (initial < v \<and> unat v + unat (the (e_interval_ms e)) < 2 ^ 64 \<longrightarrow>
          run_rounds (cron_round (e_handle e) initial) (rd # rds) s' =
            (Some (Inr \<lparr>wr_completed_at = v, wr_state = Normal\<rparr>), between rd s')))"
proof -
  let ?h = "e_handle e"
  from pass_contract [OF assms(1-9)] assms(10)
  have closed: "load ?h Closed_Word s' = v"
    and opened: "load ?h Open_Word s' = rearmed_open now_ms e (load ?h Open_Word s)"
    and woken: "\<exists>evs evs'. trace s' = evs @ [Stored ?h Closed_Word v, Woken ?h Closed_Word] @ evs'"
    by simp_all
  show ?thesis
  proof (cases "e_tier e")
    case Interlock
    with assms(10) show ?thesis by (simp add: contract_value_def)
  next
    case WaitCounter
    then have "load ?h Open_Word s \<le> v"
      using assms(10) by (auto simp: contract_value_def Let_def bind_eq_Some_conv split: if_splits)
    with counter_round_delivered(1) [OF assms(11), of s'] WaitCounter closed opened woken show ?thesis
      by (simp add: rearmed_open_def)
  next
    case WaitTimer
    then have "load ?h Open_Word s \<le> v" "v = now_ms"
      using assms(10) by (auto simp: contract_value_def Let_def split: if_splits)
    with counter_round_delivered(2) [OF assms(11), of s'] WaitTimer closed opened woken show ?thesis
      by (simp add: rearmed_open_def)
  next
    case WaitBarrier
    then have "v = now_ms"
      using assms(10) by (auto simp: contract_value_def Let_def bind_eq_Some_conv split: if_splits)
    with barrier_round_delivered [OF assms(11), of s'] WaitBarrier closed opened woken show ?thesis
      by (auto simp: rearmed_open_def)
  next
    case WaitCron
    then have v: "v = now_ms"
      using assms(10) by (auto simp: contract_value_def Let_def split: if_splits)
    obtain i where i: "e_interval_ms e = Some i" "i \<noteq> 0"
      using registry_invD(3) [OF assms(1,5)] WaitCron by (auto simp: entry_wf_def)
    then have l: "next_grid_line now_ms i = Some (load ?h Open_Word s')"
      using opened WaitCron by (simp add: next_grid_line_def rearmed_open_def)
    have "v < load ?h Open_Word s'" if "unat v + unat i < 2 ^ 64"
      using next_grid_line_unat [OF l] that i(2)
      by (simp add: v word_less_nat_alt dividend_less_div_times unat_gt_0 add.commute)
    then have "run_rounds (cron_round ?h initial) (rd # rds) s' =
        (Some (Inr \<lparr>wr_completed_at = v, wr_state = Normal\<rparr>), between rd s')"
      if "initial < v" "unat v + unat i < 2 ^ 64"
      using cron_round_delivered [OF assms(11), of initial s'] that closed
        order_less_le_trans [OF _ SENTINEL_top(1), of v "load ?h Open_Word s'"] by auto
    with WaitCron v i woken show ?thesis by simp
  qed
qed

text \<open>
  C7: Heartbeats keep an entry in the table.  When a round of the thread that keeps an interlock
  alive has gone on, and the daemon then makes a pass with a clock reading less than twice the
  interval after the thread's own, the entry is still there after the pass, whatever the
  iteration order and whatever clients do during the round and between any two accesses of the
  pass, as long as they do not terminate the interlock themselves; and a plain interlock is
  still alive afterwards.
\<close>

theorem heartbeat_prevents_reaping:
  assumes "step = touch_step (e_handle e) interval_ms \<or> step = process_clock_step (e_handle e) clk interval_ms"
    and "step rd s0 = Inl s" and "touch_rely (e_handle e) rd"
    and "now_ns < arm_reading rd + ms_to_nanos (saturating_mul_u64 interval_ms 2)" and "\<not> interlock_is_terminated (e_handle e) s"
    and "registry_inv reg s" and "by_name reg n = Some e" and "distinct (map fst sched)"
    and "\<forall>(m, v) \<in> set sched. visit_all (spares now_ns (e_handle e)) v"
    and "evaluate_all now_ms now_ns sched reg s = Some (reg', s')"
  shows "by_name reg' n = Some e \<and> (e_tier e = Interlock \<longrightarrow> \<not> entry_dead now_ns e s')"
proof -
  have "arm_reading rd + touch_ttl interval_ms \<le> load (e_handle e) Expiration_Word s"
    by (rule beat_deadline [OF assms(1-3)])
  with assms(4,5) have alive: "alive_at now_ns (e_handle e) s"
    by (auto simp: alive_at_def expiration_alive_def touch_ttl_def)
  from assms(10) obtain rm where rm: "evaluate_each now_ms now_ns reg sched s = Some (rm, s')"
    and reg': "reg' = remove_names rm reg" by (auto simp: evaluate_all_def)
  from pass_alive [OF rm assms(6,7) alive assms(8,9)] assms(7) show ?thesis
    by (simp add: reg' by_name_remove_names entry_dead_alive)
qed

section \<open>Witnesses\<close>

text \<open>The cron entry of the sample registry, which is armed for 4990 and fires at 5000.\<close>

lemma delivery_end_to_end_witness:
  "\<exists>reg' s'. evaluate_all 5000 5000000000 (isolated sample_order) sample_registry (sample_shm 6000000000) =
      Some (reg', s') \<and>
    fst (run_rounds (cron_round 3 4980) [still 60] s') = Some (Inr \<lparr>wr_completed_at = 5000, wr_state = Normal\<rparr>)"
proof -
  let ?s = "sample_shm 6000000000"
  obtain reg' s' where r: "evaluate_all 5000 5000000000 (isolated sample_order) sample_registry ?s
      = Some (reg', s')" by (rule sample_pass)
  obtain e where e: "by_name sample_registry ''c'' = Some e" by (simp add: sample_registry_def)
  then have f: "e_handle e = 3" "e_tier e = WaitCron" "e_interval_ms e = Some 10"
    by (auto simp: sample_registry_def)
  have 1: "\<not> entry_dead 5000000000 e ?s" "entry_open e ?s" "contract_value 5000 sample_registry e ?s = Some 5000"
    by (simp_all add: f entry_dead_def entry_open_def interlock_is_terminated_def expiration_alive_def
        load_def sample_shm_def SENTINEL_def contract_value_def)
  have 2: "\<forall>m \<in> watched_names e. steady sample_registry 5000000000 ?s m"
    using e by (auto simp: sample_registry_def watched_names_def steady_def)
  have "leaves_words (e_handle e) (between (still 60))" by (simp add: leaves_words_def)
  from delivery_end_to_end [OF sample_inv sample_order r e _ 1(1,2) 2 1(3) this, of "[]" 0 4980] r show ?thesis
    by (auto simp: f)
qed

text \<open>
  The owner of ''a'' heartbeats at 4.95 s every 40 ms and then opens it; at 5 s the pass meets ''a''
  with 30 ms to go, while a client opens and closes it.
\<close>

definition sample_round :: touch_round where
  "sample_round = \<lparr>stop_flag = False, arm_reading = 4950000000, arm_sched = undisturbed,
     before_load = (\<lambda>s. s), before_store = (\<lambda>s. s), sleeping = store 1 Open_Word 7\<rparr>"

lemma heartbeat_prevents_reaping_witness:
  "\<exists>s reg' s' e. touch_step 1 40 sample_round (sample_shm 1000) = Inl s \<and>
     evaluate_all 5000 5000000000 [(''a'', quiet_visit\<lparr>after_open := store 1 Closed_Word 9\<rparr>)] sample_registry s =
       Some (reg', s') \<and> by_name reg' ''a'' = Some e \<and> \<not> entry_dead 5000000000 e s'"
proof -
  let ?v = "quiet_visit\<lparr>after_open := store 1 Closed_Word 9\<rparr>"
  have ttl: "touch_ttl 40 = 80000000"
    by (simp add: touch_ttl_def ms_to_nanos_def saturating_mul_u64_def checked_mul_u64_def NANOS_PER_MS_def)
  obtain s where s: "touch_step 1 40 sample_round (sample_shm 1000) = Inl s"
    "s = store 1 Open_Word 7 (store 1 Expiration_Word 5030000000 (sample_shm 1000))"
    by (simp add: touch_step_def sample_round_def ttl interlock_arm_def arm_undisturbed)
       (simp add: load_def sample_shm_def SENTINEL_def)
  obtain e where e: "by_name sample_registry ''a'' = Some e" "e_handle e = 1" "e_tier e = Interlock"
    by (simp add: sample_registry_def)
  have inv: "registry_inv sample_registry s"
    using sample_inv [of 1000] registry_inv_mono [of sample_registry "sample_shm 1000" s] by (simp add: s(2) shm_simps)
  have alive: "\<not> interlock_is_terminated (e_handle e) s"
    unfolding s(2) interlock_is_terminated_def e(2) by (simp add: shm_simps) (simp add: load_def sample_shm_def SENTINEL_def)
  have v: "visit_all (spares 5000000000 (e_handle e)) ?v"
    by (simp add: e(2) visit_all_def alive_at_def interlock_is_terminated_def shm_simps SENTINEL_def)
  then have "schedule_ok [(''a'', ?v)]" by (simp add: schedule_ok_def visit_all_def shm_simps)
  from evaluate_all_inv [OF inv this] obtain reg' s' where
    r: "evaluate_all 5000 5000000000 [(''a'', ?v)] sample_registry s = Some (reg', s')" by metis
  have "touch_rely (e_handle e) sample_round"
    by (simp add: touch_rely_def sample_round_def undisturbed_def expiration_rely_def shm_simps)
  from heartbeat_prevents_reaping [OF _ _ this _ alive inv e(1) _ _ r, of "touch_step 1 40" 40] s(1) e v r
  show ?thesis by (auto simp: ttl [unfolded touch_ttl_def] sample_round_def)
qed

end
