(* ===== verification/Futex.thy ===== *)
theory Futex
  imports Concurrency
begin

text \<open>
  Sleeping and waking: \<open>futex_wait\<close> and \<open>futex_wake\<close> of \<open>abacus-core/src/clock.rs\<close> with the
  queues of the kernel as a parameter, the wakes that the stores of a history are owed, and the
  cycle of the daemon, which owes none for a closed count and for the clock.
\<close>

section \<open>Threads that sleep\<close>

text \<open>
  The address passed to the kernel is that of the word itself, read as 32 bits; in memory with
  the least significant byte first those are the low 32 bits.
\<close>

definition futex_addr :: "u64 \<Rightarrow> u32" where
  "futex_addr word = u32_from_le_bytes (take 4 (u64_to_le_bytes word))"

text \<open>
  The kernel's side of the calls, on a state of its own.  A thread, a futex, what the kernel
  reads there and what the caller expects for a wait; a futex for a wake of all its sleepers; a
  thread whose sleep ends by a timeout, a signal or without a reason; and where a thread sleeps.
\<close>

record 'q kernel =
  k_wait :: "nat \<Rightarrow> region \<times> word_id \<Rightarrow> u32 \<Rightarrow> u32 \<Rightarrow> 'q \<Rightarrow> 'q"
  k_wake :: "region \<times> word_id \<Rightarrow> 'q \<Rightarrow> 'q"
  k_leave :: "nat \<Rightarrow> 'q \<Rightarrow> 'q"
  k_asleep :: "'q \<Rightarrow> nat \<Rightarrow> (region \<times> word_id) option"

text \<open>
  What futex(2) documents: a wait compares first and does not sleep when the values differ, a
  wake ends the sleep of everybody on the futex, and each call leaves all other threads alone.
\<close>

definition futex_laws :: "'q kernel \<Rightarrow> bool" where
  "futex_laws K \<longleftrightarrow>
     (\<forall>t key now expected q. k_asleep K q t = None \<longrightarrow>
        k_asleep K (k_wait K t key now expected q) t \<in> {None, if now = expected then Some key else None}) \<and>
     (\<forall>t key now expected q u. u \<noteq> t \<longrightarrow>
        k_asleep K (k_wait K t key now expected q) u = k_asleep K q u) \<and>
     (\<forall>key q u. k_asleep K (k_wake K key q) u = (if k_asleep K q u = Some key then None else k_asleep K q u)) \<and>
     (\<forall>t q u. k_asleep K (k_leave K t q) u = (if u = t then None else k_asleep K q u))"

text \<open>
  The words, the kernel's state, and what each thread has passed as the expected value.  Thread
  \<open>t\<close> calls \<open>futex_wait\<close> with the low half of a value it has loaded before; a timeout, of
  whatever length, is one way for its sleep to end.
\<close>

record 'q sleepers =
  words_of :: "region \<Rightarrow> interlock"
  queue :: 'q
  expects :: "nat \<Rightarrow> u32"

definition futex_wait :: "'q kernel \<Rightarrow> nat \<Rightarrow> region \<Rightarrow> word_id \<Rightarrow> u32 \<Rightarrow> 'q sleepers \<Rightarrow> 'q sleepers" where
  "futex_wait K t r w expected_lo32 z =
     z\<lparr>queue := k_wait K t (r, w) (futex_addr (word_get w (words_of z r))) expected_lo32 (queue z),
       expects := (expects z)(t := expected_lo32)\<rparr>"

text \<open>What a store or a wake does.\<close>

fun apply_event :: "mem_event \<Rightarrow> (region \<Rightarrow> interlock) \<Rightarrow> region \<Rightarrow> interlock" where
  "apply_event (Stored r w v) m = m(r := word_put w v (m r))"
| "apply_event (Woken r w) m = m"

fun seen_by :: "'q kernel \<Rightarrow> mem_event \<Rightarrow> 'q sleepers \<Rightarrow> 'q sleepers" where
  "seen_by K (Stored r w v) z = z\<lparr>words_of := apply_event (Stored r w v) (words_of z)\<rparr>"
| "seen_by K (Woken r w) z = z\<lparr>queue := k_wake K (r, w) (queue z)\<rparr>"

text \<open>
  The events of memory with calls of \<open>futex_wait\<close> and ends of sleeps between any two of them.
  A thread that is asleep makes no call.
\<close>

datatype sleep_event = Mem mem_event | Call nat region word_id u64 | Return nat

fun sleeping_run :: "'q kernel \<Rightarrow> sleep_event list \<Rightarrow> 'q sleepers \<Rightarrow> 'q sleepers" where
  "sleeping_run K [] z = z"
| "sleeping_run K (Mem e # es) z = sleeping_run K es (seen_by K e z)"
| "sleeping_run K (Call t r w v # es) z =
     sleeping_run K es (if k_asleep K (queue z) t = None then futex_wait K t r w (futex_word v) z else z)"
| "sleeping_run K (Return t # es) z = sleeping_run K es (z\<lparr>queue := k_leave K t (queue z)\<rparr>)"

fun memory_of :: "sleep_event list \<Rightarrow> mem_event list" where
  "memory_of [] = []"
| "memory_of (Mem e # es) = e # memory_of es"
| "memory_of (_ # es) = memory_of es"

text \<open>A thread that sleeps on a word whose low half is not what it passed.\<close>

definition oversleeps :: "'q kernel \<Rightarrow> 'q sleepers \<Rightarrow> nat \<Rightarrow> region \<times> word_id \<Rightarrow> bool" where
  "oversleeps K z t key \<longleftrightarrow>
     k_asleep K (queue z) t = Some key \<and> expects z t \<noteq> futex_word (word_get (snd key) (words_of z (fst key)))"

section \<open>Wakes that are owed\<close>

text \<open>The words that a history stores to and does not wake afterwards.\<close>

fun owed :: "mem_event list \<Rightarrow> (region \<times> word_id) set" where
  "owed [] = {}"
| "owed (Stored r w v # evs) = (if Woken r w \<in> set evs then {} else {(r, w)}) \<union> owed evs"
| "owed (Woken r w # evs) = owed evs"

lemma owed_append: "owed (xs @ ys) = {(r, w) \<in> owed xs. Woken r w \<notin> set ys} \<union> owed ys"
  by (induction xs rule: owed.induct) auto

lemma wakes_follow_owed: "wakes_follow evs \<longleftrightarrow> (\<forall>r. (r, Closed_Word) \<notin> owed evs)"
  by (induction evs rule: wakes_follow.induct) auto

lemma futex_addr_word: "futex_addr v = futex_word v"
proof -
  have "take 4 (le_bytes 8 v) = le_bytes 4 (ucast v :: u32)"
    by (simp add: eval_nat_numeral) (auto intro!: bit_word_eqI simp: bit_simps)
  then show ?thesis
    using le_word_le_bytes [of 4 "ucast v :: u32"]
    by (simp add: futex_addr_def futex_word_def u64_to_le_bytes_def u32_from_le_bytes_def take_bit_word_eq_self)
qed

text \<open>Only a store that nobody has followed by a wake leaves somebody oversleeping.\<close>

lemma futex_lawsD:
  assumes "futex_laws K"
  shows "k_asleep K q t = None \<Longrightarrow> k_asleep K (k_wait K t key now expected q) t = Some key' \<Longrightarrow>
      key' = key \<and> now = expected"
    and "u \<noteq> t \<Longrightarrow> k_asleep K (k_wait K t key now expected q) u = k_asleep K q u"
    and "k_asleep K (k_wake K key q) u = (if k_asleep K q u = Some key then None else k_asleep K q u)"
    and "k_asleep K (k_leave K t q) u = (if u = t then None else k_asleep K q u)"
proof -
  assume "k_asleep K q t = None" and s: "k_asleep K (k_wait K t key now expected q) t = Some key'"
  then have "k_asleep K (k_wait K t key now expected q) t \<in> {None, if now = expected then Some key else None}"
    using assms unfolding futex_laws_def by blast
  with s show "key' = key \<and> now = expected" by (auto split: if_splits)
qed (use assms in \<open>unfold futex_laws_def, blast+\<close>)

lemma oversleeps_store:
  "oversleeps K (seen_by K (Stored r w v) z) t key \<Longrightarrow> key = (r, w) \<or> oversleeps K z t key"
  by (cases key) (auto simp: oversleeps_def words.ld_st split: if_splits)

lemma oversleeps_wake:
  "futex_laws K \<Longrightarrow> oversleeps K (seen_by K (Woken r w) z) t key \<Longrightarrow> key \<noteq> (r, w) \<and> oversleeps K z t key"
  by (auto simp: oversleeps_def futex_lawsD(3) split: if_splits)

lemma oversleeps_wait:
  assumes "futex_laws K" and "k_asleep K (queue z) t' = None"
    and "oversleeps K (futex_wait K t' r w (futex_word v) z) t key"
  shows "oversleeps K z t key"
proof (cases "t = t'")
  case True
  with futex_lawsD(1) [OF assms(1,2)] assms(3) show ?thesis
    by (fastforce simp: oversleeps_def futex_wait_def futex_addr_word)
next
  case False
  with futex_lawsD(2) [OF assms(1)] assms(3) show ?thesis by (simp add: oversleeps_def futex_wait_def)
qed

lemma oversleeps_leave:
  "futex_laws K \<Longrightarrow> oversleeps K (z\<lparr>queue := k_leave K t' (queue z)\<rparr>) t key \<Longrightarrow> oversleeps K z t key"
  by (auto simp: oversleeps_def futex_lawsD(4) split: if_splits)

lemma oversleeping:
  "futex_laws K \<Longrightarrow> oversleeps K (sleeping_run K es z) t (r, w) \<Longrightarrow>
    (r, w) \<in> owed (memory_of es) \<or> oversleeps K z t (r, w) \<and> Woken r w \<notin> set (memory_of es)"
proof (induction K es z rule: sleeping_run.induct)
  case (2 K e es z)
  then have IH: "(r, w) \<in> owed (memory_of es) \<or>
      oversleeps K (seen_by K e z) t (r, w) \<and> Woken r w \<notin> set (memory_of es)" by simp
  show ?case
  proof (cases e)
    case (Stored r' w' v)
    with IH oversleeps_store [of K r' w' v z t "(r, w)"] show ?thesis by auto
  next
    case (Woken r' w')
    with IH oversleeps_wake [OF "2.prems"(1), of r' w' z t "(r, w)"] show ?thesis by auto
  qed
next
  case (3 K t' r' w' v es z)
  then have IH: "(r, w) \<in> owed (memory_of es) \<or>
      oversleeps K (if k_asleep K (queue z) t' = None then futex_wait K t' r' w' (futex_word v) z else z) t (r, w) \<and>
      Woken r w \<notin> set (memory_of es)" by simp
  then show ?case using oversleeps_wait [OF "3.prems"(1)] by (auto split: if_splits)
next
  case (4 K t' es z)
  then show ?case using oversleeps_leave [OF "4.prems"(1)] by auto
qed simp

text \<open>The run ends in the memory its events lead to.\<close>

lemma words_of_run: "words_of (sleeping_run K es z) = fold apply_event (memory_of es) (words_of z)"
proof (induction K es z rule: sleeping_run.induct)
  case (2 K e es z)
  then show ?case by (cases e) (simp_all add: fun_upd_def)
qed (simp_all add: futex_wait_def)

section \<open>Histories\<close>

text \<open>An event is local to its region.\<close>

lemma apply_events_local:
  "m r = n r \<Longrightarrow> fold apply_event evs m r = fold apply_event evs n r"
proof (induction evs arbitrary: m n)
  case (Cons e evs)
  have "apply_event e m r = apply_event e n r" using Cons.prems by (cases e) auto
  then show ?case using Cons.IH [of "apply_event e m" "apply_event e n"] by simp
qed simp

text \<open>
  Memory that has changed by a history which owes wakes for words of \<open>U\<close> alone, as far as
  regions are concerned that were there before.
\<close>

definition owes :: "(region \<times> word_id) set \<Rightarrow> shm \<Rightarrow> shm \<Rightarrow> bool" where
  "owes U s t \<longleftrightarrow> next_region s \<le> next_region t \<and>
     (\<exists>evs. trace t = trace s @ evs \<and>
        (\<forall>r < next_region s. mem t r = fold apply_event evs (mem s) r \<and> (\<forall>w. (r, w) \<in> owed evs \<longrightarrow> (r, w) \<in> U)))"

lemma owesE:
  assumes "owes U s t"
  obtains evs where "trace t = trace s @ evs" and "\<And>r. r < next_region s \<Longrightarrow> mem t r = fold apply_event evs (mem s) r"
    and "\<And>r w. r < next_region s \<Longrightarrow> (r, w) \<in> owed evs \<Longrightarrow> (r, w) \<in> U" and "next_region s \<le> next_region t"
  using assms unfolding owes_def by blast

lemma owes_refl [simp]: "owes U s s"
  by (simp add: owes_def)

lemma owes_then:
  assumes "owes U s t" and "owes V t u"
  shows "owes (U \<union> V) s u"
proof -
  obtain xs where x: "trace t = trace s @ xs" "\<And>r. r < next_region s \<Longrightarrow> mem t r = fold apply_event xs (mem s) r"
    "\<And>r w. r < next_region s \<Longrightarrow> (r, w) \<in> owed xs \<Longrightarrow> (r, w) \<in> U" "next_region s \<le> next_region t"
    using assms(1) by (rule owesE) blast
  obtain ys where y: "trace u = trace t @ ys" "\<And>r. r < next_region t \<Longrightarrow> mem u r = fold apply_event ys (mem t) r"
    "\<And>r w. r < next_region t \<Longrightarrow> (r, w) \<in> owed ys \<Longrightarrow> (r, w) \<in> V" "next_region t \<le> next_region u"
    using assms(2) by (rule owesE) blast
  have "mem u r = fold apply_event (xs @ ys) (mem s) r" if "r < next_region s" for r
    using that x(2,4) y(2) [of r] apply_events_local [of "mem t" r "fold apply_event xs (mem s)" ys] by simp
  moreover have "(r, w) \<in> U \<union> V" if "r < next_region s" "(r, w) \<in> owed (xs @ ys)" for r w
    using that x(3,4) y(3) by (auto simp: owed_append)
  ultimately show ?thesis using x(1,4) y(1,4) unfolding owes_def by (intro conjI exI [of _ "xs @ ys"]) auto
qed

lemma owes_trans: "owes U s t \<Longrightarrow> owes U t u \<Longrightarrow> owes U s u"
  using owes_then by fastforce

lemma owes_mono: "owes U s t \<Longrightarrow> U \<subseteq> V \<Longrightarrow> owes V s t"
  unfolding owes_def by (meson subsetD)

lemma owes_store: "(r, w) \<in> U \<Longrightarrow> owes U s (store r w v s)"
  by (auto simp: owes_def store_def)

lemma owes_wake: "owes U s (futex_wake r w s)"
  by (auto simp: owes_def futex_wake_def)

text \<open>A wake pays.\<close>

lemma owes_paid:
  assumes "owes (insert (r, w) U) s t"
  shows "owes U s (futex_wake r w t)"
proof -
  obtain xs where x: "trace t = trace s @ xs" "\<And>r. r < next_region s \<Longrightarrow> mem t r = fold apply_event xs (mem s) r"
    "\<And>q v. q < next_region s \<Longrightarrow> (q, v) \<in> owed xs \<Longrightarrow> (q, v) \<in> insert (r, w) U" "next_region s \<le> next_region t"
    using assms by (rule owesE) blast
  have "(q, v) \<in> U" if "q < next_region s" "(q, v) \<in> owed (xs @ [Woken r w])" for q v
    using that x(3) by (auto simp: owed_append)
  then show ?thesis
    using x(1,2,4) unfolding owes_def by (intro conjI exI [of _ "xs @ [Woken r w]"]) (auto simp: futex_wake_def)
qed

section \<open>What the daemon owes\<close>

text \<open>A new region has no sleepers: what is stored to it owes nothing.\<close>

lemma owes_store_fresh:
  assumes "owes U s t" and "next_region s \<le> r"
  shows "owes U s (store r w v t)"
proof -
  obtain xs where x: "trace t = trace s @ xs" "\<And>r. r < next_region s \<Longrightarrow> mem t r = fold apply_event xs (mem s) r"
    "\<And>q v. q < next_region s \<Longrightarrow> (q, v) \<in> owed xs \<Longrightarrow> (q, v) \<in> U" "next_region s \<le> next_region t"
    using assms(1) by (rule owesE) blast
  have "(q, u) \<in> U" if "q < next_region s" "(q, u) \<in> owed (xs @ [Stored r w v])" for q u
    using that x(3) assms(2) by (auto simp: owed_append)
  then show ?thesis
    using x(1,2,4) assms(2) unfolding owes_def
    by (intro conjI exI [of _ "xs @ [Stored r w v]"]) (auto simp: store_def)
qed

lemma owes_alloc:
  assumes "interlock_create k now s = (out, s')"
  shows "owes U s s'"
proof -
  have "owes U s s1" if "memfd_create k s = (res, s1)" for res s1
    using that by (auto simp: memfd_create_def owes_def split: if_splits)
  moreover have "h = next_region s" if "memfd_create k s = (Inr h, s1)" for h s1
    using that by (auto simp: memfd_create_def split: if_splits)
  ultimately show ?thesis
    using assms
    by (auto simp: interlock_create_def mmap_interlock_def intro!: owes_store_fresh
        split: prod.splits sum.splits mmap_reply.splits if_splits)
qed

lemma owes_init:
  "init_words t now ival h s1 = Some s2 \<Longrightarrow> owes U s s1 \<Longrightarrow> next_region s \<le> h \<Longrightarrow> owes U s s2"
  by (cases t) (auto simp: bind_eq_Some_conv intro!: owes_store_fresh)

text \<open>A reap wakes for both counts, a firing for the closed count; a re-armed cron does not.\<close>

lemma owes_reap:
  assumes "(h, Expiration_Word) \<in> U" and gap: "\<And>i s. owes U s (gap i s)"
  shows "owes U s (interlock_reap_amid gap h s)"
proof -
  let ?C = "insert (h, Closed_Word) U" and ?U = "insert (h, Open_Word) (insert (h, Closed_Word) U)"
  define s1 s2 s3 s4 where s: "s1 = gap 0 (store h Open_Word SENTINEL s)"
    "s2 = gap 1 (store h Closed_Word SENTINEL s1)" "s3 = gap 2 (store h Expiration_Word SENTINEL s2)"
    "s4 = gap 3 (futex_wake h Open_Word s3)"
  have g: "owes ?U u (gap i u)" "owes ?C u (gap i u)" for i u using gap by (auto intro: owes_mono)
  have "owes ?U s s1" unfolding s by (rule owes_trans [OF owes_store g(1)]) simp
  moreover have "owes ?U s1 s2" unfolding s(2) by (rule owes_trans [OF owes_store g(1)]) simp
  moreover have "owes ?U s2 s3" unfolding s(3) by (rule owes_trans [OF owes_store g(1)]) (use assms(1) in simp)
  ultimately have "owes ?U s s3" by (blast intro: owes_trans)
  then have "owes ?C s s4" unfolding s(4) by (rule owes_trans [OF owes_paid g(2)])
  then show ?thesis by (simp add: interlock_reap_amid_def Let_def s owes_paid)
qed

lemma owes_fire: "(\<And>s. owes U s (others s)) \<Longrightarrow> owes U s (fire others h v s)"
  unfolding fire_def by (rule owes_paid, rule owes_trans [OF owes_store owes_mono]) auto

abbreviation uncounted :: "(region \<times> word_id) set \<Rightarrow> (region \<times> word_id) set" where
  "uncounted V \<equiv> {(r, w). w \<noteq> Closed_Word} \<union> V"

interpretation pass_owes: pass_effects UNIV "owes (uncounted V)" for V
  by unfold_locales (auto intro: owes_trans owes_reap owes_fire owes_store)

abbreviation unarmed :: "(region \<times> word_id) set \<Rightarrow> (region \<times> word_id) set" where
  "unarmed V \<equiv> {(r, w). w = Expiration_Word} \<union> V"

interpretation arm_owes: interleaving "{(r, Expiration_Word)}" "owes (unarmed V)" for r V
proof
  show "owes (unarmed V) s t" if "access_in {(r, Expiration_Word)} s t" for s t
    using that by (rule access_inE) (auto intro: owes_store owes_wake)
qed (auto intro: owes_trans)

text \<open>Serving a request.\<close>

lemma create_owes:
  assumes "create k gap now name t wn ww ival conds reg s = Some (out, reg', s')"
    and "\<And>i s. owes (unarmed V) s (gap i s)"
  shows "owes (unarmed V) s s'"
proof -
  from assms(1) consider "s' = s" | e where "interlock_create k now s = (Inl e, s')"
    | h s1 c ival s2 old where "interlock_create k now s = (Inr h, s1)" "init_words t c ival h s1 = Some s2"
        "s' = reap_old gap old s2"
    by (auto simp: create_def Let_def bind_eq_Some_conv split: if_splits sum.splits prod.splits)
  then show ?thesis
  proof cases
    case 3
    have "owes (unarmed V) s s2"
      by (rule owes_init [OF 3(2) owes_alloc [OF 3(1)]]) (simp add: interlock_create_Inr(1) [OF 3(1)])
    moreover have "owes (unarmed V) s2 s'"
      unfolding 3(3) by (cases old) (simp_all add: reap_old_def owes_reap assms(2))
    ultimately show ?thesis by (rule owes_trans)
  qed (auto dest: owes_alloc)
qed

lemma owes_regions: "owes U s t \<Longrightarrow> next_region s \<le> next_region t"
  by (simp add: owes_def)

definition served_owing :: "(region \<times> word_id) set \<Rightarrow> registry \<Rightarrow> shm \<Rightarrow> registry \<Rightarrow> shm \<Rightarrow> bool" where
  "served_owing U reg s reg' s' \<longleftrightarrow> registry_inv reg' s' \<and> clock reg' = clock reg \<and> owes U s s'"

interpretation requests_owe: request_effects "served_owing (unarmed V)" "\<lambda>f. \<forall>s. owes (unarmed V) s (f s)" for V
proof
  fix reg s gap k now name t wn ww ival conds out reg' s'
  assume inv: "registry_inv reg s" and gap: "\<And>i. \<forall>s. owes (unarmed V) s (gap i s)"
    and c: "create k gap now name t wn ww ival conds reg s = Some (out, reg', s')"
  have "allocates (gap i)" for i using gap owes_regions by blast
  then show "served_owing (unarmed V) reg s reg' s'"
    using create_inv [OF inv c] create_clock [OF c] create_owes [OF c] gap by (simp add: served_owing_def)
qed (auto simp: served_owing_def intro: owes_trans registry_inv_mono owes_regions)

text \<open>
  A whole cycle.  What the others may leave owed in the gaps of a cycle: expirations, open counts
  but the clock's, and the words of \<open>V\<close>; so a cron line that is armed again is not woken for.
\<close>

definition unwatched :: "region \<Rightarrow> (region \<times> word_id) set \<Rightarrow> (region \<times> word_id) set" where
  "unwatched clk V = unarmed ({(r, w). w = Open_Word \<and> r \<noteq> clk} \<union> V)"

lemma unwatched_clock: "insert (clk, Open_Word) (unwatched clk V) = uncounted V"
proof -
  have "w = Open_Word \<or> w = Expiration_Word" if "w \<noteq> Closed_Word" for w using that by (cases w) auto
  then show ?thesis by (auto simp: unwatched_def)
qed

lemma tick_owes:
  assumes "registry_inv reg s" and clk: "clock reg = Some clk"
    and env: "env_all (\<lambda>f. \<forall>s. owes (unwatched clk V) s (f s)) env"
    and t: "tick env clk reg s = Some (reg', s')"
  shows "owes (unwatched clk V) s s'"
proof -
  let ?U = "unwatched clk V" and ?ms = "clock_now env div NANOS_PER_MS"
  let ?s1 = "store clk Open_Word ?ms (before_tick env s)"
  have more: "?U \<subseteq> uncounted V" using unwatched_clock by blast
  have gaps: "owes ?U u (before_tick env u)" "owes ?U u (after_pass env u)"
    "\<forall>(f, b) \<in> set (refresh_sched env). \<forall>s. owes ?U s (f s)" for u
    using env by (auto simp: env_all_def list_all_iff)
  have visits: "\<forall>(n, v) \<in> set (eval_sched env). visit_all (\<lambda>f. \<forall>s. owes (uncounted V) s (f s)) v"
    using env more by (fastforce simp: env_all_def list_all_iff intro: visit_all_mono owes_mono)
  from t obtain s2 where e: "evaluate_all ?ms (eval_now env) (eval_sched env) reg ?s1 = Some (reg', s2)"
    and f: "refresh_clock_expiration (refresh_now env) (refresh_sched env) reg' (futex_wake clk Open_Word (after_pass env s2)) = Some s'"
    by (auto simp: tick_def Let_def bind_eq_Some_conv)
  have "owes (uncounted V) ?s1 s2"
    using e pass_owes.visiting_all [OF UNIV_I visits] by (auto simp: evaluate_all_def)
  moreover have "owes (uncounted V) s ?s1"
    by (rule owes_trans [OF owes_mono [OF gaps(1) more] owes_store]) simp
  ultimately have "owes (uncounted V) s (after_pass env s2)"
    by (blast intro: owes_trans owes_mono [OF gaps(2) more])
  then have woken: "owes ?U s (futex_wake clk Open_Word (after_pass env s2))"
    by (intro owes_paid) (simp only: unwatched_clock)
  have "registry_inv reg ?s1"
    using registry_inv_mono [OF assms(1) owes_regions [OF gaps(1)]] by (simp add: registry_inv_store)
  moreover have "schedule_ok (eval_sched env)"
    using visits by (fastforce simp: schedule_ok_def intro: visit_all_mono owes_regions)
  ultimately have "clock reg' = Some clk"
    using evaluate_all_inv [of reg ?s1 "eval_sched env" ?ms "eval_now env"] e clk by auto
  then obtain res where a: "interlock_arm clk 1000000000 (refresh_now env) (refresh_sched env)
      (futex_wake clk Open_Word (after_pass env s2)) = (res, s')"
    using f by (auto simp: refresh_clock_expiration_def split: option.splits prod.splits)
  have "owes ?U (futex_wake clk Open_Word (after_pass env s2)) s'"
    using arm_owes.arming [OF _ _ a] gaps(3) unfolding unwatched_def by blast
  with woken show ?thesis by (rule owes_trans)
qed

lemma cycle_owes:
  assumes "daemon_inv d" and c: "daemon_cycle env d = Some (Inr d')"
    and env: "env_all (\<lambda>f. \<forall>s. owes (unwatched (clock_handle d) V) s (f s)) env"
  shows "owes (unwatched (clock_handle d) V) (shm_of d) (shm_of d')"
proof -
  let ?U = "unwatched (clock_handle d) V" and ?W = "{(r, w). w = Open_Word \<and> r \<noteq> clock_handle d} \<union> V"
  from c obtain cs rm cs' reg' s' cs'' reg'' s'' where
    serve: "serve_clients env [0..<length (clients d)] cs (reg_of d) (shm_of d) = Some (rm, cs', reg', s')"
    and tick: "tick env (clock_handle d) reg' s' = Some (reg'', s'')"
    and d': "d' = d\<lparr>cycle := cycle d + 1, clients := cs'', reg_of := reg'', shm_of := s''\<rparr>"
    by (auto simp: daemon_cycle_def Let_def bind_eq_Some_conv split: if_splits)
  have inv: "registry_inv (reg_of d) (shm_of d)" using assms(1) by (simp add: daemon_inv_def)
  have k: "served_owing ?U (reg_of d) (shm_of d) reg' s'"
    unfolding unwatched_def
    by (rule requests_owe.serving [OF inv _ _ serve]) (use env in \<open>simp_all add: env_all_def unwatched_def\<close>)
  then have "registry_inv reg' s'" "clock reg' = Some (clock_handle d)"
    using assms(1) by (simp_all add: served_owing_def daemon_inv_def)
  from tick_owes [OF this env tick] k show ?thesis
    by (auto simp: d' served_owing_def intro: owes_trans)
qed

section \<open>What the SDK owes\<close>

text \<open>
  The calls that pay for what they store, and those that do not: a raised target, the time a
  process clock publishes, and every expiration.
\<close>

lemma sdk_calls_pay:
  "owes U s (handle_open r h s)" "owes U s (handle_close r h s)" "owes U s (attached_free r s)"
  "(r, Expiration_Word) \<in> U \<Longrightarrow> owes U s (owner_free r s)"
proof -
  show "owes U s (handle_open r h s)" "owes U s (handle_close r h s)"
    unfolding handle_open_def handle_close_def fetch_add_def by (rule owes_paid, rule owes_store, simp)+
  show "owes U s (attached_free r s)"
    unfolding attached_free_def by (rule owes_trans [OF _ owes_wake], rule owes_paid, rule owes_store, simp)
  show "(r, Expiration_Word) \<in> U \<Longrightarrow> owes U s (owner_free r s)"
    unfolding owner_free_def interlock_free_def
    by (intro owes_trans [OF owes_trans [OF owes_store owes_wake] owes_wake])
qed

section \<open>Properties\<close>

text \<open>
  C5: No wake-up is lost.  Let the cycle of a daemon run with anybody calling \<open>futex_wait\<close> between
  any two of its accesses to memory, on a kernel that keeps to futex(2), and let the others
  that act in between wake for the closed counts they change, but for those of \<open>V\<close>.  Then a
  thread that is asleep at the end of the cycle on a closed count, or on the open count of the
  clock, has passed the low half of the value the word now has: nobody sleeps through a
  firing, a reap or a tick that changed that half, whenever it loaded the value it waits on.
\<close>

theorem no_lost_wakeup:
  assumes "futex_laws K" and "daemon_inv d" and "daemon_cycle env d = Some (Inr d')"
    and "env_all (\<lambda>f. \<forall>s. owes (unwatched (clock_handle d) V) s (f s)) env"
    and "trace (shm_of d') = trace (shm_of d) @ memory_of es" and "words_of z = mem (shm_of d)"
    and "r < next_region (shm_of d)" and "w = Closed_Word \<or> w = Open_Word \<and> r = clock_handle d" and "(r, w) \<notin> V"
    and "\<not> oversleeps K z t (r, w)"
    and "k_asleep K (queue (sleeping_run K es z)) t = Some (r, w)"
  shows "expects (sleeping_run K es z) t = futex_word (load r w (shm_of d'))"
proof -
  obtain evs where evs: "trace (shm_of d') = trace (shm_of d) @ evs"
    "mem (shm_of d') r = fold apply_event evs (mem (shm_of d)) r"
    "(r, w) \<in> owed evs \<Longrightarrow> (r, w) \<in> unwatched (clock_handle d) V"
    using cycle_owes [OF assms(2-4)] assms(7) by (elim owesE) blast
  then have es: "evs = memory_of es" using assms(5) by simp
  have "(r, w) \<notin> owed (memory_of es)" using evs(3) assms(8,9) by (auto simp: es unwatched_def)
  then have "\<not> oversleeps K (sleeping_run K es z) t (r, w)" using oversleeping [OF assms(1)] assms(10) by blast
  with assms(6,11) evs(2) show ?thesis by (simp add: oversleeps_def words_of_run es load_def)
qed

section \<open>Witnesses\<close>

text \<open>A kernel that keeps to the documentation: the queue is who sleeps where.\<close>

definition table_kernel :: "(nat \<Rightarrow> (region \<times> word_id) option) kernel" where
  "table_kernel =
     \<lparr>k_wait = (\<lambda>t key now expected q. if now = expected then q(t := Some key) else q),
      k_wake = (\<lambda>key q u. if q u = Some key then None else q u),
      k_leave = (\<lambda>t q. q(t := None)), k_asleep = (\<lambda>q. q)\<rparr>"

lemma table_kernel: "futex_laws table_kernel"
  by (auto simp: futex_laws_def table_kernel_def)

definition nobody_asleep :: "(region \<Rightarrow> interlock) \<Rightarrow> (nat \<Rightarrow> (region \<times> word_id) option) sleepers" where
  "nobody_asleep m = \<lparr>words_of = m, queue = (\<lambda>_. None), expects = (\<lambda>_. 0)\<rparr>"

lemma sleeping_run_append: "sleeping_run K (xs @ ys) z = sleeping_run K ys (sleeping_run K xs z)"
  by (induction K xs z rule: sleeping_run.induct) simp_all

lemma no_calls_nobody_asleep:
  "queue z t = None \<Longrightarrow> queue (sleeping_run table_kernel (map Mem evs) z) t = None"
proof (induction evs arbitrary: z)
  case (Cons e evs)
  have "queue (seen_by table_kernel e z) t = None"
    using Cons.prems by (cases e) (simp_all add: table_kernel_def)
  then show ?case using Cons.IH by simp
qed simp

lemma memory_of_events [simp]: "memory_of (map Mem evs @ es) = evs @ memory_of es"
  by (induction evs) simp_all

text \<open>
  Two corners that the words of the futex leave open.  A change by a multiple of \<open>2 ^ 32\<close> is not
  seen by the kernel; and a \<open>free\<close> stores an expiration, so that its wake comes too early for a
  thread that has loaded its count and not yet called.
\<close>

lemma low_half_unseen: "futex_word (v + 2 ^ 32 * k) = futex_word v"
proof -
  have "(unat v + 2 ^ 32 * unat k) mod 2 ^ 64 mod 2 ^ 32 = unat v mod 2 ^ 32"
    by (subst mod_mod_cancel) simp_all
  then have "unat (v + 2 ^ 32 * k) mod 2 ^ 32 = unat v mod 2 ^ 32"
    by (simp add: unat_word_ariths mod_simps)
  then show ?thesis by (simp add: futex_word_def word_unat_eq_iff unat_ucast_u32)
qed

lemma early_free_unheard:
  assumes "r' = r" and "word_get Closed_Word (m r) = v"
  shows "queue (sleeping_run table_kernel
      [Mem (Stored r Expiration_Word SENTINEL), Mem (Woken r Open_Word), Mem (Woken r Closed_Word), Call t r Closed_Word v]
      (nobody_asleep m)) t = Some (r, Closed_Word)"
  using assms by (simp add: nobody_asleep_def table_kernel_def futex_wait_def futex_addr_word words.ld_st)

lemma busy_env_owes: "env_all (\<lambda>f. \<forall>s. owes (unwatched clk {}) s (f s)) busy_env"
  by (simp add: sdk_calls_pay env_all_def busy_env_def sample_env_def client_visit_def visit_all_def unwatched_def)

lemma no_lost_wakeup_witness:
  "\<exists>d' es. daemon_cycle busy_env sample_daemon = Some (Inr d') \<and>
     expects (sleeping_run table_kernel es (nobody_asleep (mem (shm_of sample_daemon)))) 7 =
       futex_word (load 2 Closed_Word (shm_of d'))"
proof -
  obtain d' where d': "daemon_cycle busy_env sample_daemon = Some (Inr d')" using busy_cycle by blast
  let ?s = "shm_of sample_daemon" and ?z = "nobody_asleep (mem (shm_of sample_daemon))"
  have r: "2 < next_region ?s" by (simp add: sample_daemon_def sample_shm_def)
  note env = busy_env_owes [of "clock_handle sample_daemon"]
  obtain evs where evs: "trace (shm_of d') = trace ?s @ evs" "mem (shm_of d') 2 = fold apply_event evs (mem ?s) 2"
    using cycle_owes [OF sample_daemon(1) d' env] r by (elim owesE) blast
  let ?es = "map Mem evs @ [Call 7 2 Closed_Word (load 2 Closed_Word (shm_of d'))]"
  have "queue (sleeping_run table_kernel (map Mem evs) ?z) 7 = None"
    by (rule no_calls_nobody_asleep) (simp add: nobody_asleep_def)
  moreover have "words_of (sleeping_run table_kernel (map Mem evs) ?z) 2 = mem (shm_of d') 2"
    using memory_of_events [of evs "[]"] by (simp add: words_of_run evs(2) nobody_asleep_def)
  ultimately have "k_asleep table_kernel (queue (sleeping_run table_kernel ?es ?z)) 7 = Some (2, Closed_Word)"
    by (simp add: sleeping_run_append table_kernel_def futex_wait_def futex_addr_word load_def)
  from no_lost_wakeup [OF table_kernel sample_daemon(1) d' env _ _ r _ _ _ this] evs(1) d' show ?thesis
    by (auto simp: nobody_asleep_def oversleeps_def table_kernel_def)
qed

end
