(* ===== verification/Region_Lifetime.thy ===== *)
theory Region_Lifetime
  imports Concurrency "HOL-Library.Multiset"
begin

text \<open>
  Descriptors and mappings: \<open>InterlockRegion\<close> with its \<open>Drop\<close> and \<open>InterlockHandle\<close> of
  \<open>abacus-core/src/interlock.rs\<close>, on every path of its constructors, and what the daemon holds
  of them while it serves requests and evaluates (\<open>registry.rs\<close>, \<open>daemon.rs\<close>).
\<close>

section \<open>Regions of a process\<close>

text \<open>
  What a process has of each region: the strong count of its \<open>Arc\<close>, descriptors and mappings.
  The daemon makes every region itself, so there is one \<open>Arc\<close> for each.
\<close>

record process =
  strong :: "region \<Rightarrow> nat"
  open_fds :: "region multiset"
  mappings :: "region multiset"

definition open_fd :: "region \<Rightarrow> process \<Rightarrow> process" where
  "open_fd r p = p\<lparr>open_fds := add_mset r (open_fds p)\<rparr>"

definition close_fd :: "region \<Rightarrow> process \<Rightarrow> process" where
  "close_fd r p = p\<lparr>open_fds := open_fds p - {#r#}\<rparr>"

definition map_region :: "region \<Rightarrow> process \<Rightarrow> process" where
  "map_region r p = p\<lparr>mappings := add_mset r (mappings p)\<rparr>"

definition from_raw :: "region \<Rightarrow> process \<Rightarrow> process" where
  "from_raw r p = p\<lparr>strong := (strong p)(r := 1)\<rparr>"

text \<open>The drop of a region: \<open>munmap\<close>, whose failure is only logged, then its fields, which closes the descriptor.\<close>

definition region_drop :: "(region \<Rightarrow> int) \<Rightarrow> region \<Rightarrow> process \<Rightarrow> process" where
  "region_drop munmap_ret r p =
     close_fd r (if munmap_ret r \<noteq> 0 then p else p\<lparr>mappings := mappings p - {#r#}\<rparr>)"

definition handle_clone :: "region \<Rightarrow> process \<Rightarrow> process" where
  "handle_clone r p = p\<lparr>strong := (strong p)(r := strong p r + 1)\<rparr>"

definition handle_drop :: "(region \<Rightarrow> int) \<Rightarrow> region \<Rightarrow> process \<Rightarrow> process" where
  "handle_drop munmap_ret r p =
     (let p = p\<lparr>strong := (strong p)(r := strong p r - 1)\<rparr>
      in if strong p r = 0 then region_drop munmap_ret r p else p)"

text \<open>The constructors; a descriptor that is owned by a local variable is closed when an error returns.\<close>

definition mmap_owned :: "alloc_replies \<Rightarrow> region \<Rightarrow> process \<Rightarrow> (condition + region) \<times> process" where
  "mmap_owned k r p =
     (case mmap_ret k of
        Map_Failed \<Rightarrow> (Inl (AllocationFailed Mmap (mmap_errno k)), close_fd r p)
      | Map_Null \<Rightarrow> (Inl (AllocationFailed Mmap 0), close_fd r (map_region r p))
      | Mapped \<Rightarrow> (Inr r, from_raw r (map_region r p)))"

definition create_owned :: "alloc_replies \<Rightarrow> region \<Rightarrow> process \<Rightarrow> (condition + region) \<times> process" where
  "create_owned k r p =
     (if memfd_ret k < 0 then (Inl (AllocationFailed MemfdCreate (memfd_errno k)), p)
      else let p = open_fd r p in
      case ftruncate k of
        Inl e \<Rightarrow> (Inl e, close_fd r p)
      | Inr _ \<Rightarrow> mmap_owned k r p)"

definition dup_owned :: "int \<Rightarrow> errno \<Rightarrow> region \<Rightarrow> process \<Rightarrow> (condition + region) \<times> process" where
  "dup_owned raw err r p =
     (if raw < 0 then (Inl (AllocationFailed MemfdCreate err), p) else (Inr r, open_fd r p))"

section \<open>The daemon\<close>

text \<open>
  \<open>create\<close> puts a clone of the new handle into the table and returns the other; the entry it
  replaces is dropped.  \<open>r\<close> is the region of the next memfd.
\<close>

definition registry_create_owned ::
    "(region \<Rightarrow> int) \<Rightarrow> alloc_replies \<Rightarrow> string \<Rightarrow> tier \<Rightarrow> string option \<Rightarrow> u8 option \<Rightarrow> u64 option \<Rightarrow>
     (string \<times> u8 \<times> u64) list option \<Rightarrow> registry \<Rightarrow> region \<Rightarrow> process \<Rightarrow> (condition + region) \<times> process" where
  "registry_create_owned munmap_ret k name t wn ww ival conds reg r p =
     (if name = clock_name
      then (Inl (InvalidRequest ''\"clock\" is a reserved name''), p)
      else case resolve reg t wn ww ival conds of
        Inl e \<Rightarrow> (Inl e, p)
      | Inr res \<Rightarrow>
         (case create_owned k r p of
            (Inl e, p) \<Rightarrow> (Inl e, p)
          | (Inr h, p) \<Rightarrow>
             (let p = (case by_name reg name of
                         Some old \<Rightarrow> handle_drop munmap_ret (e_handle old) p
                       | None \<Rightarrow> p)
              in (Inr h, handle_clone h p))))"

text \<open>The handle to answer with is dropped after its duplicate, sent or not.\<close>

definition answer_owned :: "(region \<Rightarrow> int) \<Rightarrow> request_env \<Rightarrow> region \<Rightarrow> process \<Rightarrow> process" where
  "answer_owned munmap_ret env h p =
     (case dup_owned (dup_ret env) (dup_errno env) h p of
        (Inl e, p) \<Rightarrow> handle_drop munmap_ret h p
      | (Inr fd, p) \<Rightarrow> handle_drop munmap_ret h (close_fd fd p))"

fun dispatch_owned ::
    "(region \<Rightarrow> int) \<Rightarrow> request_env \<Rightarrow> request \<Rightarrow> registry \<Rightarrow> region \<Rightarrow> process \<Rightarrow> process" where
  "dispatch_owned munmap_ret env (CreateInterlock name t wn ww ival conds) reg r p =
     (case tier_from_byte t of
        None \<Rightarrow> p
      | Some tr \<Rightarrow>
          (case registry_create_owned munmap_ret (alloc env) name tr wn ww ival conds reg r p of
             (Inl e, p) \<Rightarrow> p
           | (Inr h, p) \<Rightarrow> answer_owned munmap_ret env h p))"
| "dispatch_owned munmap_ret env (AttachInterlock name) reg r p =
     (case attach name reg of
        Inl e \<Rightarrow> p
      | Inr (i, h) \<Rightarrow> answer_owned munmap_ret env h (handle_clone h p))"

text \<open>The end of the pass: the entries to remove, one after the other.\<close>

fun remove_owned :: "(region \<Rightarrow> int) \<Rightarrow> string list \<Rightarrow> registry \<Rightarrow> process \<Rightarrow> process" where
  "remove_owned munmap_ret [] reg p = p"
| "remove_owned munmap_ret (n # ns) reg p =
     remove_owned munmap_ret ns (reg\<lparr>by_name := (by_name reg)(n := None)\<rparr>)
       (case by_name reg n of Some e \<Rightarrow> handle_drop munmap_ret (e_handle e) p | None \<Rightarrow> p)"

section \<open>Accounts\<close>

text \<open>One descriptor and one mapping as long as somebody holds the region, and then none.\<close>

definition sound :: "process \<Rightarrow> region \<Rightarrow> bool" where
  "sound p r \<longleftrightarrow>
     count (open_fds p) r = of_bool (strong p r \<noteq> 0) \<and> count (mappings p) r = of_bool (strong p r \<noteq> 0)"

definition table :: "registry \<Rightarrow> region set" where
  "table reg = e_handle ` ran (by_name reg)"

text \<open>The handles of the daemon are those of the table and the one its loop has of the clock.\<close>

definition accounts :: "registry \<Rightarrow> region \<Rightarrow> process \<Rightarrow> bool" where
  "accounts reg clk p \<longleftrightarrow>
     (\<forall>r. sound p r \<and> strong p r = of_bool (r \<in> table reg) + of_bool (r = clk))"

named_theorems process_ops

lemmas [process_ops] =
  open_fd_def close_fd_def map_region_def from_raw_def region_drop_def handle_clone_def handle_drop_def
  Let_def sound_def

lemma clone_sound:
  assumes "strong p h \<noteq> 0" and "\<forall>r. sound p r"
  shows "sound (handle_clone h p) r" and "strong (handle_clone h p) r = strong p r + of_bool (r = h)"
  using assms(1) assms(2) [rule_format, of r] by (auto simp: process_ops)

lemma drop_sound:
  assumes "munmap_ret h = 0" and "strong p h \<noteq> 0" and "\<forall>r. sound p r"
  shows "sound (handle_drop munmap_ret h p) r" and "strong (handle_drop munmap_ret h p) r = strong p r - of_bool (r = h)"
  using assms(1,2) assms(3) [rule_format, of r] by (auto simp: process_ops)

lemma create_sound:
  assumes "\<forall>r. sound p r" and "strong p h = 0" and "mmap_ret k \<noteq> Map_Null"
    and "create_owned k h p = (out, p')"
  shows "sound p' r" and "out = Inl e \<Longrightarrow> strong p' r = strong p r"
    and "out = Inr h' \<Longrightarrow> h' = h \<and> strong p' r = strong p r + of_bool (r = h)"
  using assms(2-4) assms(1) [rule_format, of r]
  by (auto simp: create_owned_def mmap_owned_def ftruncate_def process_ops split: if_splits mmap_reply.splits)

lemma answer_sound:
  assumes "munmap_ret h = 0" and "strong p h \<noteq> 0" and "\<forall>r. sound p r"
  shows "sound (answer_owned munmap_ret env h p) r"
    and "strong (answer_owned munmap_ret env h p) r = strong p r - of_bool (r = h)"
proof -
  have "close_fd h (open_fd h p) = p" by (simp add: close_fd_def open_fd_def)
  then have "answer_owned munmap_ret env h p = handle_drop munmap_ret h p"
    by (simp add: answer_owned_def dup_owned_def)
  then show "sound (answer_owned munmap_ret env h p) r"
    and "strong (answer_owned munmap_ret env h p) r = strong p r - of_bool (r = h)"
    using drop_sound [of munmap_ret h p, OF assms] by simp_all
qed

text \<open>The constructors report what the ones without the accounts report.\<close>

lemma create_owned_agrees: "fst (create_owned k (next_region s) p) = fst (interlock_create k now s)"
  by (auto simp: create_owned_def mmap_owned_def ftruncate_def interlock_create_def memfd_create_def
      mmap_interlock_def Let_def split: mmap_reply.splits)

lemma table_iff: "r \<in> table reg \<longleftrightarrow> (\<exists>n e. by_name reg n = Some e \<and> e_handle e = r)"
  by (auto simp: table_def ran_def)

lemma table_upd:
  assumes "registry_inv reg s" and "by_name reg name = Some old"
  shows "table (reg\<lparr>next_id := i, by_name := (by_name reg)(name \<mapsto> e)\<rparr>) = insert (e_handle e) (table reg - {e_handle old})"
    and "table (reg\<lparr>by_name := (by_name reg)(name := None)\<rparr>) = table reg - {e_handle old}"
proof -
  have other: "r \<in> table reg - {e_handle old} \<longleftrightarrow> (\<exists>n f. n \<noteq> name \<and> by_name reg n = Some f \<and> e_handle f = r)" for r
  proof
    assume "r \<in> table reg - {e_handle old}"
    then obtain n f where "by_name reg n = Some f" "e_handle f = r" "r \<noteq> e_handle old" by (auto simp: table_iff)
    with assms(2) show "\<exists>n f. n \<noteq> name \<and> by_name reg n = Some f \<and> e_handle f = r" by (metis option.inject)
  next
    assume "\<exists>n f. n \<noteq> name \<and> by_name reg n = Some f \<and> e_handle f = r"
    then show "r \<in> table reg - {e_handle old}"
      using registry_invD(4) [OF assms(1) _ assms(2)] by (auto simp: table_iff)
  qed
  have "r \<in> table (reg\<lparr>next_id := i, by_name := (by_name reg)(name \<mapsto> e)\<rparr>) \<longleftrightarrow>
      r = e_handle e \<or> (\<exists>n f. n \<noteq> name \<and> by_name reg n = Some f \<and> e_handle f = r)" for r
    by (auto simp: table_iff split: if_splits)
  then show "table (reg\<lparr>next_id := i, by_name := (by_name reg)(name \<mapsto> e)\<rparr>) = insert (e_handle e) (table reg - {e_handle old})"
    using other by (intro set_eqI) (simp only: insert_iff)
  have "r \<in> table (reg\<lparr>by_name := (by_name reg)(name := None)\<rparr>) \<longleftrightarrow>
      (\<exists>n f. n \<noteq> name \<and> by_name reg n = Some f \<and> e_handle f = r)" for r
    by (auto simp: table_iff split: if_splits)
  then show "table (reg\<lparr>by_name := (by_name reg)(name := None)\<rparr>) = table reg - {e_handle old}"
    using other by (intro set_eqI) (simp only:)
qed

lemma table_new:
  "by_name reg name = None \<Longrightarrow>
     table (reg\<lparr>next_id := i, by_name := (by_name reg)(name \<mapsto> e)\<rparr>) = insert (e_handle e) (table reg)"
  by (auto simp: table_def)

lemma registry_inv_remove:
  "registry_inv reg s \<Longrightarrow> n \<noteq> clock_name \<Longrightarrow> registry_inv (reg\<lparr>by_name := (by_name reg)(n := None)\<rparr>) s"
  by (auto simp: registry_inv_def split: if_splits)

lemma tabled: "by_name reg n = Some e \<Longrightarrow> e_handle e \<in> table reg"
  by (auto simp: table_def intro: ranI)

lemma table_allocated: "registry_inv reg s \<Longrightarrow> r \<in> table reg \<Longrightarrow> r < next_region s"
  using registry_invD(2) by (auto simp: table_def ran_def)

text \<open>Another entry than the clock's has a region of its own.\<close>

lemma not_the_clock:
  "registry_inv reg s \<Longrightarrow> clock reg = Some clk \<Longrightarrow> by_name reg n = Some e \<Longrightarrow> n \<noteq> clock_name \<Longrightarrow> e_handle e \<noteq> clk"
  using registry_invD(4) by (fastforce simp: clock_def)

lemma accounts_create:
  assumes "registry_inv reg s" and "clock reg = Some clk" and acc: "accounts reg clk p"
    and c: "create k gap now name t wn ww ival conds reg s = Some (Inr (i, h), reg', s')"
    and k: "mmap_ret k \<noteq> Map_Null" and ok: "\<forall>r. munmap_ret r = 0"
    and o: "registry_create_owned munmap_ret k name t wn ww ival conds reg (next_region s) p = (out, p')"
  shows "out = Inr h" and "sound p' r"
    and "strong p' r = of_bool (r \<in> table reg') + of_bool (r = clk) + of_bool (r = h)"
proof -
  obtain res s1 where c1: "name \<noteq> clock_name" "resolve reg t wn ww ival conds = Inr res"
    "interlock_create k now s = (Inr h, s1)"
    and reg': "reg' = reg\<lparr>next_id := i + 1, by_name := (by_name reg)(name \<mapsto> entry_of i h t res)\<rparr>"
    using c by (rule create_Inr) blast
  have h: "h = next_region s" by (rule interlock_create_Inr(1) [OF c1(3)])
  have s: "\<forall>r. sound p r" "strong p r = of_bool (r \<in> table reg) + of_bool (r = clk)" for r
    using acc by (simp_all add: accounts_def)
  have "clk \<in> table reg" using assms(2) by (auto simp: clock_def tabled)
  then have new: "h \<notin> table reg" "h \<noteq> clk" using table_allocated [OF assms(1)] by (auto simp: h)
  obtain p1 where p1: "create_owned k h p = (Inr h, p1)"
    using create_owned_agrees [of k s p now] c1(3) create_sound(3) [OF s(1) _ k] new s(2)
    by (cases "create_owned k h p") (auto simp: h)
  have q: "\<forall>r. sound p1 r" "strong p1 r = strong p r + of_bool (r = h)" for r
    using create_sound(1,3) [OF s(1) _ k p1] new s(2) [of h] by auto
  let ?p2 = "case by_name reg name of Some old \<Rightarrow> handle_drop munmap_ret (e_handle old) p1 | None \<Rightarrow> p1"
  have p': "out = Inr h" "p' = handle_clone h ?p2"
    using o c1(1,2) p1 by (simp_all add: registry_create_owned_def h Let_def split: prod.splits)
  have r: "(\<forall>r. sound ?p2 r) \<and> strong ?p2 r = of_bool (r \<in> table reg') + of_bool (r = clk)" for r
  proof (cases "by_name reg name")
    case None
    with q new show ?thesis by (auto simp: s(2) reg' table_new)
  next
    case (Some old)
    have old: "e_handle old \<in> table reg" "e_handle old \<noteq> clk"
      using tabled [OF Some] not_the_clock [OF assms(1,2) Some c1(1)] by simp_all
    then have "strong p1 (e_handle old) \<noteq> 0" using q(2) s(2) by simp
    note d = drop_sound [of munmap_ret "e_handle old" p1, OF ok [rule_format] this q(1)]
    have "strong (handle_drop munmap_ret (e_handle old) p1) r = of_bool (r \<in> table reg') + of_bool (r = clk)"
      using old new by (cases "r = h"; cases "r = e_handle old")
        (simp_all add: d(2) q(2) s(2) reg' table_upd(1) [OF assms(1) Some])
    with d(1) show ?thesis by (simp add: Some)
  qed
  then have "strong ?p2 h \<noteq> 0" by (simp add: reg' table_def ran_def image_iff) (metis entry_of_sel(2))
  from clone_sound [OF this] r show "sound p' r" and
    "strong p' r = of_bool (r \<in> table reg') + of_bool (r = clk) + of_bool (r = h)"
    unfolding p'(2) by auto
  show "out = Inr h" by (rule p'(1))
qed

lemma accounts_create_failed:
  assumes "accounts reg clk p" and "registry_inv reg s" and "clock reg = Some clk"
    and c: "create k gap now name t wn ww ival conds reg s = Some (Inl e, reg', s')" and k: "mmap_ret k \<noteq> Map_Null"
    and o: "registry_create_owned munmap_ret k name t wn ww ival conds reg (next_region s) p = (out, p')"
  shows "out = Inl e" and "accounts reg clk p'"
proof -
  let ?h = "next_region s"
  have s: "\<forall>r. sound p r" "strong p r = of_bool (r \<in> table reg) + of_bool (r = clk)" for r
    using assms(1) by (simp_all add: accounts_def)
  have "clk \<in> table reg" using assms(3) by (auto simp: clock_def tabled)
  then have "strong p ?h = 0" using table_allocated [OF assms(2)] s(2) [of ?h] by auto
  note made = create_sound [OF s(1) this k]
  have cases: "out = Inl e \<and> p' = p \<or> create_owned k ?h p = (Inl e, p') \<and> out = Inl e"
    using create_Inl [OF c] o create_owned_agrees [of k s p now]
    by (cases "create_owned k ?h p") (auto simp: registry_create_owned_def)
  then show "out = Inl e" by blast
  show "accounts reg clk p'"
    using cases assms(1) made(1,2) s(2) by (auto simp: accounts_def)
qed

lemma accounts_answer:
  assumes "\<forall>r. sound p r" and "\<And>r. strong p r = of_bool (r \<in> table reg) + of_bool (r = clk) + of_bool (r = h)"
    and ok: "\<forall>r. munmap_ret r = 0"
  shows "accounts reg clk (answer_owned munmap_ret env h p)"
proof -
  have "strong p h \<noteq> 0" by (simp add: assms(2))
  from answer_sound [of munmap_ret h p, OF ok [rule_format] this assms(1)] assms(2)
  show ?thesis by (simp add: accounts_def)
qed

lemma accounts_remove:
  "accounts reg clk p \<Longrightarrow> registry_inv reg s \<Longrightarrow> clock reg = Some clk \<Longrightarrow> clock_name \<notin> set ns \<Longrightarrow>
     \<forall>r. munmap_ret r = 0 \<Longrightarrow> accounts (remove_names ns reg) clk (remove_owned munmap_ret ns reg p)"
proof (induction ns arbitrary: reg p)
  case Nil
  then show ?case by (simp add: remove_names_def)
next
  case (Cons n ns)
  let ?reg = "reg\<lparr>by_name := (by_name reg)(n := None)\<rparr>"
  let ?p = "case by_name reg n of Some e \<Rightarrow> handle_drop munmap_ret (e_handle e) p | None \<Rightarrow> p"
  have n: "n \<noteq> clock_name" using Cons.prems(4) by auto
  have s: "\<forall>r. sound p r" "strong p r = of_bool (r \<in> table reg) + of_bool (r = clk)" for r
    using Cons.prems(1) by (simp_all add: accounts_def)
  have "accounts ?reg clk ?p"
  proof (cases "by_name reg n")
    case None
    then have "?reg = reg" by (simp add: fun_upd_idem)
    with None Cons.prems(1) show ?thesis by simp
  next
    case (Some e)
    have e: "e_handle e \<in> table reg" "e_handle e \<noteq> clk"
      using tabled [OF Some] not_the_clock [OF Cons.prems(2,3) Some n] by simp_all
    then have "strong p (e_handle e) \<noteq> 0" using s(2) by simp
    note d = drop_sound [of munmap_ret "e_handle e" p, OF Cons.prems(5) [rule_format] this s(1)]
    have "strong (handle_drop munmap_ret (e_handle e) p) r = of_bool (r \<in> table ?reg) + of_bool (r = clk)" for r
      using e by (cases "r = e_handle e") (simp_all add: d(2) s(2) table_upd(2) [OF Cons.prems(2) Some])
    with d(1) show ?thesis by (simp add: Some accounts_def)
  qed
  moreover have "clock ?reg = Some clk" using Cons.prems(3) n by (simp add: clock_def)
  moreover have "remove_names (n # ns) reg = remove_names ns ?reg" by (simp add: remove_names_def)
  ultimately have "accounts (remove_names (n # ns) reg) clk (remove_owned munmap_ret ns ?reg ?p)"
    using Cons.IH [OF _ registry_inv_remove [OF Cons.prems(2) n] _ _ Cons.prems(5)] Cons.prems(4) by auto
  then show ?case by (simp only: remove_owned.simps)
qed

section \<open>Properties\<close>

text \<open>
  C14: The daemon holds exactly what its table needs.  With one descriptor and one mapping for
  every interlock in the table, none for any other region, and a second handle of the clock,
  the same holds after every request, whatever its outcome (a created or replaced interlock, a
  refused one, each of the failures of an allocation, a duplicate that fails) and after the
  entries found dead by a pass have been removed.  So nothing leaks, nothing is closed or
  unmapped twice, and the words of every entry are mapped when they are read.
\<close>

theorem descriptors_match_table:
  assumes "registry_inv reg s" and "clock reg = Some clk" and "accounts reg clk p"
    and "\<forall>r. munmap_ret r = 0" and "mmap_ret (alloc env) \<noteq> Map_Null"
  shows "(dispatch env req c reg s = Some (r, c', reg', s') \<longrightarrow>
      accounts reg' clk (dispatch_owned munmap_ret env req reg (next_region s) p)) \<and>
    (evaluate_each now_ms now_ns reg sched s = Some (rm, s'') \<longrightarrow>
      accounts (remove_names rm reg) clk (remove_owned munmap_ret rm reg p)) \<and>
    (\<forall>n e. by_name reg n = Some e \<longrightarrow> e_handle e \<in># mappings p)"
proof (intro conjI impI allI)
  have s: "\<forall>r. sound p r" "strong p r = of_bool (r \<in> table reg) + of_bool (r = clk)" for r
    using assms(3) by (simp_all add: accounts_def)
  assume d: "dispatch env req c reg s = Some (r, c', reg', s')"
  show "accounts reg' clk (dispatch_owned munmap_ret env req reg (next_region s) p)"
  proof (cases req)
    case (AttachInterlock name)
    have reg': "reg' = reg" using d AttachInterlock by (auto split: sum.splits prod.splits dest: reply_keeps)
    show ?thesis
    proof (cases "by_name reg name")
      case None
      then show ?thesis using assms(3) by (simp add: AttachInterlock reg' attach_def)
    next
      case (Some e)
      then have "strong p (e_handle e) \<noteq> 0" using s(2) tabled by simp
      from clone_sound [of p "e_handle e", OF this s(1)] s(2)
      have "accounts reg clk (answer_owned munmap_ret env (e_handle e) (handle_clone (e_handle e) p))"
        by (intro accounts_answer assms(4)) simp_all
      with Some show ?thesis by (simp add: AttachInterlock reg' attach_def)
    qed
  next
    case (CreateInterlock name t wn ww ival conds)
    show ?thesis
    proof (cases "tier_from_byte t")
      case None
      with d CreateInterlock have "reg' = reg" by (auto dest: reply_keeps)
      with None assms(3) show ?thesis by (simp add: CreateInterlock)
    next
      case (Some tr)
      with d CreateInterlock obtain out where
        c: "create (alloc env) (reap_gap env) (create_now env) name tr wn ww ival conds reg s = Some (out, reg', s')"
        by (auto split: option.splits sum.splits prod.splits dest: reply_keeps)
      obtain out' p' where
        o: "registry_create_owned munmap_ret (alloc env) name tr wn ww ival conds reg (next_region s) p = (out', p')"
        by fastforce
      show ?thesis
      proof (cases out)
        case (Inl e)
        then have "reg' = reg" using c create_Inl by blast
        with accounts_create_failed [OF assms(3,1,2) c [unfolded Inl] assms(5) o] show ?thesis
          by (simp add: CreateInterlock Some o)
      next
        case (Inr a)
        obtain i h where out: "out = Inr (i, h)" by (cases a) (simp add: Inr)
        from accounts_create [OF assms(1-3) c [unfolded out] assms(5,4) o]
        have "accounts reg' clk (answer_owned munmap_ret env h p')" "out' = Inr h"
          by (auto intro!: accounts_answer assms(4))
        then show ?thesis by (simp add: CreateInterlock Some o)
      qed
    qed
  qed
next
  assume "evaluate_each now_ms now_ns reg sched s = Some (rm, s'')"
  then have "clock_name \<notin> set rm" using evaluate_each_names by blast
  then show "accounts (remove_names rm reg) clk (remove_owned munmap_ret rm reg p)"
    by (rule accounts_remove [OF assms(3,1,2) _ assms(4)])
next
  fix n e
  assume "by_name reg n = Some e"
  then have "strong p (e_handle e) \<noteq> 0" using assms(3) tabled by (simp add: accounts_def)
  then have "count (mappings p) (e_handle e) \<noteq> 0" using assms(3) by (simp add: accounts_def sound_def)
  then show "e_handle e \<in># mappings p" by simp
qed

section \<open>Witnesses\<close>

definition sample_process :: process where
  "sample_process =
     \<lparr>strong = (\<lambda>r. of_bool (r \<in> {0, 1, 2, 3}) + of_bool (r = 0)), open_fds = {#0, 1, 2, 3#}, mappings = {#0, 1, 2, 3#}\<rparr>"

lemma sample_accounts: "accounts sample_registry 0 sample_process"
proof -
  have "table sample_registry = {0, 1, 2, 3}"
    by (auto simp: table_def sample_registry_def clock_entry_def ran_map_upd)
  then show ?thesis by (auto simp: accounts_def sound_def sample_process_def)
qed

text \<open>A timer takes over a name, and its client is gone when the answer is sent.\<close>

lemma descriptors_match_table_witness:
  "\<exists>env c r c' reg' s'. dispatch env (CreateInterlock ''a'' 2 None None None None) c sample_registry (sample_shm 1000) =
       Some (r, c', reg', s') \<and> is_connection_error (projl r) \<and>
     accounts reg' 0 (dispatch_owned (\<lambda>_. 0) env (CreateInterlock ''a'' 2 None None None None) sample_registry 4 sample_process)"
proof -
  let ?env = "\<lparr>alloc = good_replies, reap_gap = no_gap, create_now = 7000, dup_ret = 9, dup_errno = 0\<rparr>"
  let ?c = "\<lparr>incoming = [], replies = [Write_Failed EPIPE], sent = [], sent_fds = []\<rparr>"
  let ?req = "CreateInterlock ''a'' 2 None None None None"
  obtain reg' s' where t: "sample_timer = Some (Inr (5, 4), reg', s')" using sample_timer_Some by blast
  obtain f where "encode_response (Created 5) = Inr f"
    by (simp add: encode_response_def frame_of_def MAX_MESSAGE_SIZE_def)
  with t obtain c' where d: "dispatch ?env ?req ?c sample_registry (sample_shm 1000) =
      Some (Inl (Io SendMsg EPIPE), c', reg', s')"
    by (auto simp: tier_from_byte_def reply_with_handle_def interlock_dup_fd_def send_response_with_fds_def
        sendmsg_with_fds_def MAX_FDS_PER_MESSAGE_def CMSG_SPACE_def cmsg_align_def sizeof_cmsghdr_def sizeof_usize_def
        sizeof_RawFd_def is_interrupted_def EPIPE_def EINTR_def)
  have "accounts reg' 0 (dispatch_owned (\<lambda>_. 0) ?env ?req sample_registry (next_region (sample_shm 1000)) sample_process)"
    by (rule descriptors_match_table [OF sample_inv sample_clock sample_accounts, THEN conjunct1, THEN mp, OF _ _ d])
      simp_all
  then have "accounts reg' 0 (dispatch_owned (\<lambda>_. 0) ?env ?req sample_registry 4 sample_process)"
    by (simp only: sample_shm_def shm.simps)
  with d show ?thesis by (intro exI [of _ ?env] exI [of _ ?c]) (simp del: dispatch.simps dispatch_owned.simps)
qed

end
