(* ===== verification/Test_Harness.thy ===== *)
theory Test_Harness
  imports Daemon_Run
begin

text \<open>
  \<open>abacus-tests/src/lib.rs\<close>: the paths the tests give their daemons, and the wait for a daemon
  to appear.
\<close>

section \<open>Paths\<close>

text \<open>The counter, and the path of a test in the directory for temporary files.\<close>

definition next_test_id :: "u32 \<Rightarrow> u32 \<times> u32" where
  "next_test_id counter = (counter, counter + 1)"

definition path_join :: "string \<Rightarrow> string \<Rightarrow> string" where
  "path_join dir name = (if dir = [] \<or> last dir = CHR ''/'' then dir @ name else dir @ ''/'' @ name)"

definition test_socket_path :: "string \<Rightarrow> string \<Rightarrow> u32 \<Rightarrow> u32 \<Rightarrow> string" where
  "test_socket_path temp_dir label pid i =
     path_join temp_dir (''abacus-test-'' @ label @ ''-'' @ show_nat (unat pid) @ ''-'' @ show_nat (unat i) @ ''.sock'')"

section \<open>Starting a daemon\<close>

datatype harness_panic = Spawn_Failed | No_Socket string nat

text \<open>
  The rounds of the wait, times in milliseconds: whether the path exists, and the time since the start as
  read when it does not.  The result is the sleeps, the last of them for the daemon to settle.
\<close>

fun wait_for_socket :: "string \<Rightarrow> nat \<Rightarrow> (bool \<times> nat) list \<Rightarrow> (harness_panic + nat list) option" where
  "wait_for_socket path timeout [] = None"
| "wait_for_socket path timeout ((exists, elapsed) # rounds) =
     (if exists then Some (Inr [50])
      else if timeout < elapsed then Some (Inl (No_Socket path timeout))
      else map_option (map_sum id ((#) 10)) (wait_for_socket path timeout rounds))"

text \<open>The daemon's thread runs \<open>daemon_run\<close> on the same path; whether it was spawned is an argument.\<close>

definition start_daemon :: "bool \<Rightarrow> string \<Rightarrow> (bool \<times> nat) list \<Rightarrow> (harness_panic + string) option" where
  "start_daemon spawned path rounds =
     (if \<not> spawned then Some (Inl Spawn_Failed)
      else map_option (\<lambda>r. case r of Inl e \<Rightarrow> Inl e | Inr sleeps \<Rightarrow> Inr path) (wait_for_socket path 2000 rounds))"

text \<open>The result of \<open>remove_file\<close> is ignored.\<close>

definition cleanup :: "path_action list" where
  "cleanup = [Remove_File]"

section \<open>Lemmas\<close>

lemma digit_char_inj: "d < 10 \<Longrightarrow> e < 10 \<Longrightarrow> digit_char d = digit_char e \<Longrightarrow> d = e"
  by (auto simp: digit_char_def dest: arg_cong [of _ _ "of_char :: char \<Rightarrow> nat"])

lemma show_nat_step:
  "show_nat n = (if n < 10 then [] else show_nat (n div 10)) @ [digit_char (n mod 10)]"
  by (subst show_nat.simps) simp

lemma show_nat_inj: "show_nat m = show_nat n \<Longrightarrow> m = n"
proof (induction m arbitrary: n rule: less_induct)
  case (less m)
  have d: "m mod 10 = n mod 10"
    using less.prems show_nat_step [of m] show_nat_step [of n] digit_char_inj by simp
  have "(if m < 10 then [] else show_nat (m div 10)) = (if n < 10 then [] else show_nat (n div 10))"
    using less.prems show_nat_step [of m] show_nat_step [of n] by simp
  moreover have "show_nat k \<noteq> []" for k using show_nat_step [of k] by simp
  ultimately have "m div 10 = n div 10"
    using less.IH [of "m div 10" "n div 10"] by (auto split: if_splits) (metis div_less)
  with d show ?case by (metis mult_div_mod_eq)
qed

lemma show_nat_digits: "CHR ''-'' \<notin> set (show_nat n)"
proof (induction n rule: show_nat.induct)
  case (1 n)
  have "CHR ''-'' \<noteq> digit_char d" if "d < 10" for d
    using that by (auto simp: digit_char_def dest: arg_cong [of _ _ "of_char :: char \<Rightarrow> nat"])
  with 1 show ?case by (subst show_nat.simps) simp
qed

lemma after_last_unique:
  assumes "xs @ c # ds = ys @ c # es" and "c \<notin> set ds" and "c \<notin> set es"
  shows "ds = es"
proof -
  have "takeWhile (\<lambda>x. x \<noteq> c) (rev (zs @ c # fs)) = rev fs" if "c \<notin> set fs" for zs fs
    using that takeWhile_append2 [of "rev fs" "\<lambda>x. x \<noteq> c" "c # rev zs"] by auto
  with assms show ?thesis by (metis rev_rev_ident)
qed

text \<open>
  Tests of one process get different paths, whatever their labels, as long as the counter has
  not wrapped; and the wait ends once the path exists or its time has passed.
\<close>

lemma socket_paths_differ:
  assumes "test_socket_path dir label pid i = test_socket_path dir label' pid j"
  shows "i = j"
proof -
  let ?rest = "\<lambda>n. show_nat (unat n) @ ''.sock''"
  have "''abacus-test-'' @ label @ ''-'' @ show_nat (unat pid) @ CHR ''-'' # ?rest i =
      ''abacus-test-'' @ label' @ ''-'' @ show_nat (unat pid) @ CHR ''-'' # ?rest j"
    using assms by (auto simp: test_socket_path_def path_join_def split: if_splits)
  then have "(''abacus-test-'' @ label @ ''-'' @ show_nat (unat pid)) @ CHR ''-'' # ?rest i =
      (''abacus-test-'' @ label' @ ''-'' @ show_nat (unat pid)) @ CHR ''-'' # ?rest j" by simp
  then have "?rest i = ?rest j" by (rule after_last_unique) (simp_all add: show_nat_digits)
  then have "unat i = unat j" by (intro show_nat_inj) simp
  then show ?thesis by (simp only: word_unat_eq_iff)
qed

lemma wait_for_socket_ends:
  assumes "(exists, elapsed) \<in> set rounds" and "exists \<or> timeout < elapsed"
  shows "wait_for_socket path timeout rounds \<noteq> None"
  using assms by (induction path timeout rounds rule: wait_for_socket.induct) auto

end
