(* ===== verification/Spec2Isabelle.thy ===== *)
theory Spec2Isabelle
  imports Sdk_Roles Sdk_Client Daemon_Run Delivery Futex Region_Lifetime Test_Harness
begin

text \<open>
  A verification development of the Abacus runtime: a daemon that hands out interlocks, three
  atomic 64-bit words in shared memory (open count, closed count, expiration), to client
  processes over a Unix socket, and then evaluates them every millisecond; and the client SDK
  that uses them.

  \<^bold>\<open>The program and the theories.\<close>
  \<^item> \<open>abacus-core\<close>.  \<open>error.rs\<close> is Errors, \<open>clock.rs\<close> is Clock, \<open>interlock.rs\<close> is
    Interlock_Core: the words as cells of shared memory, create, open, arm, reap, free.
  \<^item> \<open>abacus-daemon\<close>.  \<open>wire.rs\<close> is Wire (requests, responses and their bytes);
    \<open>registry.rs\<close> is Registry (the table of names, create, attach, the evaluation pass);
    \<open>transport.rs\<close> is Transport (framed reads and writes, descriptors in control messages, the
    socket path); \<open>daemon.rs\<close> and \<open>main.rs\<close> are Daemon (one request, one cycle, start-up,
    arguments) and Daemon_Run (the loop, the end of the process and its exit status).
  \<^item> \<open>abacus-client\<close>.  \<open>types.rs\<close> and \<open>interlock.rs\<close> are Sdk_Handles, the five
    \<open>wait_\<close> files are Sdk_Waits, \<open>touch.rs\<close> and \<open>process_clock.rs\<close> are Sdk_Touch (a thread
    and its loop) and Sdk_Owner (the handles that spawn, replace, stop and join their thread),
    \<open>client.rs\<close> is Sdk_Client.  Sdk_Roles lists the methods of each handle type and the words
    its role may write.
  \<^item> Prelude and Bytes hold what the parts share: results as sums, checked and saturating
    arithmetic, loops over rounds, little-endian integers, UTF-8.  Sdk_Access takes the SDK's
    operations apart into atomic accesses; Concurrency puts the daemon
    and the clients' accesses to memory side by side, Delivery the evaluation pass and the waits,
    Futex the daemon's cycle and threads asleep in \<open>futex_wait\<close>; Region_Lifetime counts handles,
    descriptors and mappings; Test_Harness is the library of \<open>abacus-tests\<close>;
    this theory composes client and daemon over the socket.

  \<^bold>\<open>State.\<close>  Shared memory is one record: the words of every region, the next unused
  region (each memfd is a region of its own), and the trace of stores and wakes.  A handle or a
  duplicate of its descriptor is the number of its region.  The registry is its id counter and a
  map from names to entries.  The daemon's state is its anchor, its cycle counter, its client
  connections, registry and memory.  An owner's state is its handle, the thread it holds, every
  thread it has spawned with its program counter and flags, and whether it is inside a join.  Integers are words of the width of the source and wrap as
  in a release build; where the source checks, so does the model.  A panic is \<^const>\<open>None\<close>, an
  error value is \<^const>\<open>Inl\<close>.

  \<^bold>\<open>Outside the program.\<close>  The kernel is an argument: readings of the clock, results
  and error numbers of system calls, and for a socket the list of what its reads and writes
  return.  Other threads and processes are functions on memory that stand between two accesses
  of an operation.  A loop that waits for them (a compare-exchange loop, a wait of the SDK, a
  read) runs over a schedule with one element per round, and \<^const>\<open>None\<close> says that the
  schedule ended before the loop; that it does return is stated as such, from what the
  schedule must contain (a round without interference, a clock reading past the deadline, the
  bytes of the frame).  No other bound or fuel is used.

  \<^bold>\<open>What is shown.\<close>
  \<^item> Wire: encoding and decoding are inverse, the decoder accepts nothing but encodings.
  \<^item> Interlock_Core: under interference the arm loop acts as one atomic maximum on a memory that
    the call really meets.
  \<^item> Registry: create and the evaluation pass keep the table well formed and never panic;
    the pass removes exactly the dead, implements the contract of every tier for each live open
    entry on the words as its visit finds them (those of interlocks visited earlier as the pass
    leaves them, the others as they were), wakes waiters.
  \<^item> Transport: frames arrive whole however they are cut, what a read has taken is fixed for every
    outcome, a response arrives with its descriptor, only a dead socket is replaced.
  \<^item> Daemon: cycles complete, malformed requests are answered, the poll timeout ends at its
    boundary while it fits 31 bits, and is negative, so that poll waits for ever, beyond them.
  \<^item> SDK: what each wait returns, from the very words of its last round; when it ends; that
    heartbeats keep an interlock alive and end when they find it reaped; that the client's copy of
    the transport is the daemon's on a blocking stream, its errors and its end included.
  \<^item> Daemon_Run: a cycle completes whatever clients ask for and do to memory once the kernel
    answers, with the clock alive unless a client terminates it; each client gets its own turn in
    it; the process ends only for the reasons the code has and has then removed its socket path.
  \<^item> Sdk_Roles: a call through a handle, under any interference, is a sequence of accesses to
    the words of its own interlock that its role may write.
  \<^item> Sdk_Access and Concurrency: the accesses of the SDK, like every access
    of the daemon, never lower an expiration; so a termination by expiration (an owner's free, a
    reap) is final for the whole system, and no wait that looks at the expiration outlives it; a
    region that has left the table is never written by the daemon again; a daemon that starts stays
    well formed around its clock.
  \<^item> Sdk_Owner: a handle never has two running threads, none of them writes after \<open>free\<close>, and
    every join ends within four steps of the thread joined.
  \<^item> Delivery: what a pass stores in an entry whose contract is met is what the next round of the
    wait on that entry returns; an entry with a recent heartbeat survives a pass.
  \<^item> Futex: a cycle of the daemon wakes for every closed count it stores and for the clock, so
    nobody sleeps on through a change of the half of the word that futexes compare.
  \<^item> Region_Lifetime: after every outcome of a request and after every pass the daemon has one
    descriptor and one mapping for each interlock of its table and no others.
  \<^item> This theory: create and attach from the client's call to the memory it gets, both
    answered in the cycle of the daemon that reads the request, and the agreement of client and
    daemon on the state of an interlock.

  Some properties and lemmas state what the code does where that is not what its documentation
  says: the dependence of a firing on the iteration order, Ok results of waits on reaped
  interlocks, an attacher's termination that a touch does not notice and an open undoes, a
  target that terminates its own interlock, the poll timeout that grows and turns negative, a race
  on reaped counters that never ends, requests left without an answer.

  \<^bold>\<open>Not modelled.\<close>  The queues of the kernel's futexes are a parameter (in Futex, with the laws
  futex(2) documents; in the waits of the SDK a sleep is a round with any result).  Descriptors and
  mappings of a client process, where one region may be mapped more than once.  The unwinding of a
  panic, which drops the server; log lines; the pointer structure of \<open>msghdr\<close>; memory orderings
  weaker than sequential consistency.  Others act before each
  request, inside every reap, firing and compare-exchange loop, before and after the pass, before
  and between the visits of its entries, and between any two loads of an entry or of a contract;
  only the words of a region that no descriptor has been handed out for are left to the daemon.
  The panics of debug builds on overflow are not modelled where release builds wrap.  The
  integration tests hold no logic of the runtime.
\<close>

section \<open>A client and the daemon\<close>

text \<open>
  The request \<open>f\<close> is what the daemon's end of the connection has been sent, and the socket
  takes a whole frame; the client's end takes the request, and is sent the reply \<open>g\<close> with the
  descriptors \<open>fds\<close>, the first one to four bytes by the \<open>recvmsg\<close> that carries them.
\<close>

definition hears :: "connection \<Rightarrow> u8 list \<Rightarrow> bool" where
  "hears d f \<longleftrightarrow> quiet (incoming d) \<and> ready (incoming d) \<and> arrived (incoming d) = f \<and>
     (\<exists>n rs. replies d = Wrote n # rs \<and> LENGTH_PREFIX_BYTES + MAX_MESSAGE_SIZE \<le> n)"

definition receives :: "client_conn \<Rightarrow> u8 list \<Rightarrow> u8 list \<Rightarrow> fd list \<Rightarrow> bool" where
  "receives c f g fds \<longleftrightarrow>
     (\<exists>n rs bs cs later. c_replies c = Wrote n # rs \<and> length f \<le> n \<and>
        g = bs @ later \<and> bs \<noteq> [] \<and> length bs \<le> LENGTH_PREFIX_BYTES \<and>
        c_msgs c = [Msg bs cs False] \<and> extract_fds_from_cmsg cs = fds \<and>
        flowing (c_arrivals c) \<and> arrived (c_arrivals c) = later)"

lemma handle_hears:
  assumes "canonical_request req" and "encode_request req = Inr f" and "hears d f"
  shows "\<exists>evs. handle_client_request env d reg s = dispatch env req (d\<lparr>incoming := evs\<rparr>) reg s"
proof -
  obtain p evs where "recv_payload (incoming d) = Some (Inr p, evs)" "decode_request p = Inr req"
    using req_codec.recv_frame [OF assms(1), of f "incoming d" "[]"] assms(2,3)
    by (auto simp: encode_request_def hears_def)
  then show ?thesis
    by (intro exI [of _ evs]) (simp add: handle_client_request_def recv_request_payload)
qed

lemma reply_hears:
  assumes "encode_response resp = Inr g" and "hears d f"
  shows "\<exists>d'. reply resp (d\<lparr>incoming := evs\<rparr>) reg s = Some (Inr (), d', reg, s) \<and>
    sent d' = sent d @ g \<and> sent_fds d' = sent_fds d"
proof -
  obtain n rs where "replies (d\<lparr>incoming := evs\<rparr>) = Wrote n # rs" "length g \<le> n"
    using assms(2) response_frame_length [OF assms(1)] by (auto simp: hears_def)
  from send_response_whole [OF assms(1) this] show ?thesis by (simp add: reply_def)
qed

lemma reply_with_handle_hears:
  assumes "encode_response resp = Inr g" and "hears d f" and "0 \<le> dup_ret env"
  shows "\<exists>d'. reply_with_handle env resp h (d\<lparr>incoming := evs\<rparr>) reg s = Some (Inr (), d', reg, s) \<and>
    sent d' = sent d @ g \<and> sent_fds d' = sent_fds d @ [word_of_int (dup_ret env)]"
proof -
  obtain n rs where "replies d = Wrote n # rs" "length g \<le> n"
    using assms(2) response_frame_length [OF assms(1)] by (auto simp: hears_def)
  with assms(1,3) show ?thesis
    by (simp add: reply_with_handle_def interlock_dup_fd_def send_response_with_fds_def sendmsg_with_fds_def
        MAX_FDS_PER_MESSAGE_def CMSG_SPACE_def cmsg_align_def sizeof_cmsghdr_def sizeof_usize_def
        sizeof_RawFd_def)
qed

text \<open>The client's side of an exchange whose reply arrives.\<close>

lemma send_recv_receives:
  assumes "encode_request req = Inr f" and "wf_response resp" and "expected_fd_count resp = length fds"
    and "encode_response resp = Inr g" and "receives c f g fds"
  shows "\<exists>c'. send_recv req c = Some (Inr (resp, fds), c') \<and> c_sent c' = c_sent c @ f"
proof -
  obtain p where "f = u32_to_le_bytes (of_nat (length p)) @ p"
    using assms(1) req_codec.frame_layout [of req f] by (auto simp: encode_request_def)
  then have "f \<noteq> []" by (simp flip: length_greater_0_conv)
  with assms show ?thesis
    by (auto simp: receives_def intro: send_recv_frame)
qed

text \<open>The SDK's error for a condition of the daemon, with the text the daemon sends.\<close>

fun error_of_condition :: "condition \<Rightarrow> sdk_error" where
  "error_of_condition (InterlockNotFound nm) =
     Sdk_InterlockNotFound (''InterlockNotFound: InterlockNotFound: '' @ nm)"
| "error_of_condition InterlockReaped = Sdk_InterlockReaped"
| "error_of_condition (AllocationFailed st e) =
     Sdk_AllocationFailed (condition_display (AllocationFailed st e))"
| "error_of_condition (InvalidRequest m) = Sdk_InvalidRequest (condition_display (InvalidRequest m))"

definition text_fits :: "condition \<Rightarrow> bool" where
  "text_fits e \<longleftrightarrow> utf8_string (condition_display e) \<and> length (condition_display e) \<le> 4000"

lemma condition_answer:
  "\<exists>code m. map_condition_to_response e = Error_Response code m \<and>
     parse_daemon_error code m = error_of_condition e \<and>
     (m = condition_display e \<or> m = ''InterlockNotFound: '' @ condition_display e)"
proof (cases e)
  case InterlockReaped
  then show ?thesis by (simp add: resp_interlock_reaped_def parse_daemon_error_def ERR_INTERLOCK_REAPED_def)
next
  case (InterlockNotFound nm)
  then show ?thesis by (simp add: resp_interlock_not_found_def parse_daemon_error_def ERR_INTERLOCK_REAPED_def ERR_INTERLOCK_NOT_FOUND_def)
next
  case (AllocationFailed st err)
  then show ?thesis
    by (simp add: resp_allocation_failed_def parse_daemon_error_def ERR_ALLOCATION_FAILED_def
      del: condition_display.simps)
next
  case (InvalidRequest m)
  then show ?thesis
    by (simp add: resp_invalid_request_def parse_daemon_error_def ERR_INVALID_REQUEST_def
      del: condition_display.simps)
qed

lemma condition_response:
  assumes "text_fits e"
  obtains code m g where "map_condition_to_response e = Error_Response code m"
    and "parse_daemon_error code m = error_of_condition e"
    and "wf_response (Error_Response code m)" and "encode_response (Error_Response code m) = Inr g"
proof -
  obtain code m where m: "map_condition_to_response e = Error_Response code m"
    "parse_daemon_error code m = error_of_condition e"
    "m = condition_display e \<or> m = ''InterlockNotFound: '' @ condition_display e"
    using condition_answer by blast
  obtain p where p: "p = ''InterlockNotFound: ''" by simp
  then have "utf8_string p" "length p = 19" by (simp_all add: utf8_string_ascii)
  then have "utf8_string m" "length m + 5 \<le> MAX_MESSAGE_SIZE"
    using m(3) [folded p] assms
    by (auto simp: text_fits_def MAX_MESSAGE_SIZE_def intro: utf8_string_append)
  with encode_error_response [of m code] m(1,2) that show thesis by auto
qed

lemma encode_handle_response:
  "\<exists>g. encode_response (Created i) = Inr g" "\<exists>g. encode_response (Attached i) = Inr g"
  by (simp_all add: encode_response_def frame_of_def MAX_MESSAGE_SIZE_def)

text \<open>
  What a client and the daemon do with one request: the daemon serves it, keeping to \<open>reg'\<close>
  and \<open>s'\<close>, and sends a reply that gives the client the result \<open>res\<close>, by \<open>run\<close>, whenever it
  arrives.
\<close>

definition exchanged ::
    "request_env \<Rightarrow> u8 list \<Rightarrow> (client_conn \<Rightarrow> region exchange) \<Rightarrow> connection \<Rightarrow> registry \<Rightarrow> shm \<Rightarrow>
     sdk_error + region \<Rightarrow> registry \<Rightarrow> shm \<Rightarrow> bool" where
  "exchanged env f run d reg s res reg' s' \<longleftrightarrow>
     (\<exists>g d' fds. handle_client_request env d reg s = Some (Inr (), d', reg', s') \<and>
        sent d' = sent d @ g \<and> sent_fds d' = sent_fds d @ fds \<and>
        (\<forall>c. receives c f g fds \<longrightarrow> (\<exists>c'. run c = Some (res, c') \<and> c_sent c' = c_sent c @ f)))"

lemma exchange_error:
  assumes "canonical_request req" and "encode_request req = Inr f" and "hears d f" and "text_fits e"
    and "\<And>evs. dispatch env req (d\<lparr>incoming := evs\<rparr>) reg s =
      reply (map_condition_to_response e) (d\<lparr>incoming := evs\<rparr>) reg' s'"
    and "\<And>code m. handle_of (Error_Response code m, []) = Inl (parse_daemon_error code m)"
  shows "exchanged env f (request_handle handle_of req) d reg s (Inl (error_of_condition e)) reg' s'"
proof -
  obtain code m g where m: "map_condition_to_response e = Error_Response code m"
    "parse_daemon_error code m = error_of_condition e"
    "wf_response (Error_Response code m)" "encode_response (Error_Response code m) = Inr g"
    using condition_response [OF assms(4)] by blast
  obtain evs where "handle_client_request env d reg s = dispatch env req (d\<lparr>incoming := evs\<rparr>) reg s"
    using handle_hears [OF assms(1-3)] by blast
  moreover obtain d' where "reply (Error_Response code m) (d\<lparr>incoming := evs\<rparr>) reg' s' = Some (Inr (), d', reg', s')"
    "sent d' = sent d @ g" "sent_fds d' = sent_fds d"
    using reply_hears [OF m(4) assms(3)] by blast
  moreover have "\<exists>c'. request_handle handle_of req c = Some (Inl (error_of_condition e), c') \<and> c_sent c' = c_sent c @ f"
    if "receives c f g []" for c
    using send_recv_receives [OF assms(2) m(3) _ m(4) that] m(2) assms(6)
    by (auto simp: request_handle_def)
  ultimately show ?thesis
    unfolding exchanged_def by (intro exI [of _ g] exI [of _ d'] exI [of _ "[]"]) (simp add: assms(5) m(1))
qed

lemma exchange_handle:
  assumes "canonical_request req" and "encode_request req = Inr f" and "hears d f" and "0 \<le> dup_ret env"
    and "\<And>evs. dispatch env req (d\<lparr>incoming := evs\<rparr>) reg s =
      reply_with_handle env resp h (d\<lparr>incoming := evs\<rparr>) reg' s'"
    and "encode_response resp = Inr g" and "wf_response resp" and "expected_fd_count resp = 1"
    and "\<And>fds. handle_of (resp, fds) = open_received k region_of fds"
    and "region_of (word_of_int (dup_ret env)) = h" and "mmap_ret k = Mapped"
  shows "exchanged env f (request_handle handle_of req) d reg s (Inr h) reg' s'"
proof -
  let ?fd = "word_of_int (dup_ret env) :: fd"
  obtain evs where "handle_client_request env d reg s = dispatch env req (d\<lparr>incoming := evs\<rparr>) reg s"
    using handle_hears [OF assms(1-3)] by blast
  moreover obtain d' where "reply_with_handle env resp h (d\<lparr>incoming := evs\<rparr>) reg' s' = Some (Inr (), d', reg', s')"
    "sent d' = sent d @ g" "sent_fds d' = sent_fds d @ [?fd]"
    using reply_with_handle_hears [OF assms(6,3,4)] by blast
  moreover have "\<exists>c'. request_handle handle_of req c = Some (Inr h, c') \<and> c_sent c' = c_sent c @ f"
    if "receives c f g [?fd]" for c
    using send_recv_receives [OF assms(2,7) _ assms(6) that] assms(8-11)
    by (auto simp: request_handle_def open_received_def interlock_open_def mmap_interlock_def)
  ultimately show ?thesis
    unfolding exchanged_def by (intro exI [of _ g] exI [of _ d'] exI [of _ "[?fd]"]) (simp add: assms(5))
qed

text \<open>
  The create operations of the client's interface, the request each makes, and the tier the
  daemon takes it for.  Names are Rust strings.
\<close>

inductive api_create ::
    "alloc_replies \<Rightarrow> (fd \<Rightarrow> region) \<Rightarrow> (client_conn \<Rightarrow> region exchange) \<Rightarrow> request \<Rightarrow> tier \<Rightarrow> bool"
  for k region_of where
  interlock: "utf8_string name \<Longrightarrow>
    api_create k region_of (create_interlock k region_of name) (CreateInterlock name 0 None None None None) Interlock"
| counter: "utf8_string name \<Longrightarrow> utf8_string watched \<Longrightarrow>
    api_create k region_of (create_wait_counter k region_of name watched w)
      (CreateInterlock name 1 (Some watched) (Some (to_u8 w)) None None) WaitCounter"
| timer: "utf8_string name \<Longrightarrow>
    api_create k region_of (create_wait_timer k region_of name) (CreateInterlock name 2 None None None None) WaitTimer"
| cron: "utf8_string name \<Longrightarrow>
    api_create k region_of (create_wait_cron k region_of name interval)
      (CreateInterlock name 3 None None (Some (saturating_mul_u64 interval 1000000)) None) WaitCron"
| barrier: "utf8_string name \<Longrightarrow> list_all (\<lambda>(n, w, v). utf8_string n) cs \<Longrightarrow>
    api_create k region_of (create_wait_barrier k region_of name cs)
      (CreateInterlock name 4 None None None (Some (map (\<lambda>(n, w, v). (n, to_u8 w, v)) cs))) WaitBarrier"

lemma api_create_request:
  "api_create k region_of run req tr \<Longrightarrow>
     run = request_handle (created_handle k region_of) req \<and> canonical_request req \<and>
     (case req of CreateInterlock name t wn ww ival conds \<Rightarrow> tier_from_byte t = Some tr | _ \<Rightarrow> False)"
  by (induction rule: api_create.induct)
     (auto simp: create_interlock_def create_wait_counter_def create_wait_timer_def create_wait_cron_def
       create_wait_barrier_def do_create_def tier_from_byte_def wf_conditions_def list_all_iff)

text \<open>
  What a served connection has on its stream: a reply that gives the client \<open>res\<close> by \<open>run\<close>.
\<close>

definition answered ::
    "u8 list \<Rightarrow> (client_conn \<Rightarrow> region exchange) \<Rightarrow> connection \<Rightarrow> connection \<Rightarrow> sdk_error + region \<Rightarrow> bool" where
  "answered f run d d' res \<longleftrightarrow>
     (\<exists>g fds. sent d' = sent d @ g \<and> sent_fds d' = sent_fds d @ fds \<and>
        (\<forall>c. receives c f g fds \<longrightarrow> (\<exists>c'. run c = Some (res, c') \<and> c_sent c' = c_sent c @ f)))"

lemma exchanged_in_turn:
  assumes "exchanged (request_envs env i) f run d reg s res reg' s'" and "turn_taken env i d reg s d' dropped"
    and "\<not> hup_or_err (client_revents env i)" and "pollin (client_revents env i)"
  shows "\<not> dropped \<and> answered f run d d' res"
  using assms by (auto simp: exchanged_def turn_taken_def answered_def)

text \<open>One attach operation, served.\<close>

lemma attach_exchanged:
  assumes "run = attach_interlock k region_of name \<and> name \<noteq> ''clock'' \<or>
      run = attach_wait_counter k region_of name \<or>
      run = (\<lambda>c. client_connect (Inr c) k region_of) \<and> name = ''clock''"
    and "encode_request (AttachInterlock name) = Inr f" and "utf8_string name" and "length name \<le> 3981"
    and "hears d f" and "0 \<le> dup_ret env" and "mmap_ret k = Mapped"
    and "\<And>e. by_name reg name = Some e \<Longrightarrow> region_of (word_of_int (dup_ret env)) = e_handle e"
  shows "exchanged env f run d reg s
    (case by_name reg name of
       Some e \<Rightarrow> Inr (e_handle e)
     | None \<Rightarrow> Inl (Sdk_InterlockNotFound (''InterlockNotFound: InterlockNotFound: '' @ name))) reg s"
proof -
  have run: "run = request_handle (attached_handle k region_of) (AttachInterlock name)"
    using assms(1)
    by (auto simp: fun_eq_iff attach_interlock_def attach_wait_counter_def client_connect_def conn_connect_def do_attach_def)
  show ?thesis
  proof (cases "by_name reg name")
    case None
    have "text_fits (InterlockNotFound name)"
      using assms(3,4) utf8_condition_display [of "InterlockNotFound name"] by (simp add: text_fits_def)
    from exchange_error [OF _ assms(2,5) this] assms(3) None show ?thesis
      unfolding run by (simp add: attach_def)
  next
    case (Some e)
    obtain g where "encode_response (Attached (e_id e)) = Inr g" using encode_handle_response by blast
    from exchange_handle [OF _ assms(2,5,6) _ this] assms(3,7,8) Some show ?thesis
      unfolding run by (simp add: attach_def)
  qed
qed

text \<open>One create operation, served.\<close>

lemma create_exchanged:
  assumes "api_create k region_of run (CreateInterlock name t wn ww ival conds) tr"
    and "encode_request (CreateInterlock name t wn ww ival conds) = Inr f" and "hears d f"
    and "create (alloc env) (reap_gap env) (create_now env) name tr wn ww ival conds reg s = Some (out, reg', s')"
    and "0 \<le> dup_ret env" and "mmap_ret k = Mapped"
    and "case out of Inr (i, h) \<Rightarrow> region_of (word_of_int (dup_ret env)) = h | Inl e \<Rightarrow> text_fits e"
  shows "exchanged env f run d reg s
    (case out of Inr (i, h) \<Rightarrow> Inr h | Inl e \<Rightarrow> Inl (error_of_condition e)) reg' s'"
proof -
  let ?req = "CreateInterlock name t wn ww ival conds"
  have run: "run = request_handle (created_handle k region_of) ?req" "canonical_request ?req"
    "tier_from_byte t = Some tr" using api_create_request [OF assms(1)] by auto
  show ?thesis
  proof (cases out)
    case (Inl e)
    from exchange_error [OF run(2) assms(2,3), of e] assms(4,7) Inl run(1,3) show ?thesis by simp
  next
    case (Inr p)
    obtain i h where p: "p = (i, h)" by fastforce
    obtain g where "encode_response (Created i) = Inr g" using encode_handle_response by blast
    from exchange_handle [OF run(2) assms(2,3,5) _ this] assms(4,6,7) Inr p run(1,3) show ?thesis by simp
  qed
qed

text \<open>What a client is answered in a cycle is what it would be answered alone, at its turn.\<close>

lemma cycle_turn:
  assumes "daemon_inv d" and "env_of_clients env" and "daemon_cycle env d = Some (Inr d')"
    and "i < length (clients d)" and "\<not> hup_or_err (client_revents env i)" and "pollin (client_revents env i)"
  obtains fresh gone cs1 reg s
  where "serve_clients env [0..<i] (clients d @ fresh) (reg_of d) (shm_of d) = Some (gone, cs1, reg, s)"
    and "registry_inv reg (before_request env i s)"
    and "\<And>f run res reg' s'. exchanged (request_envs env i) f run (clients d ! i) reg (before_request env i s) res reg' s' \<Longrightarrow>
      \<exists>c \<in> set (clients d'). answered f run (clients d ! i) c res"
proof -
  obtain rm cs' fresh where
    kept: "clients d' = nths (cs' @ fresh) (- set rm)" "length cs' = length (clients d)"
    and turns: "\<forall>i < length (clients d). \<exists>gone cs1 reg s.
       serve_clients env [0..<i] (clients d @ fresh) (reg_of d) (shm_of d) = Some (gone, cs1, reg, s) \<and>
       registry_inv reg (before_request env i s) \<and> clock reg = Some (clock_handle d) \<and>
       turn_taken env i (clients d ! i) reg (before_request env i s) (cs' ! i) (i \<in> set rm)"
    using client_turns [OF assms(1-3)] by blast
  obtain gone cs1 reg s where
    before: "serve_clients env [0..<i] (clients d @ fresh) (reg_of d) (shm_of d) = Some (gone, cs1, reg, s)"
    and inv: "registry_inv reg (before_request env i s)"
    and turn: "turn_taken env i (clients d ! i) reg (before_request env i s) (cs' ! i) (i \<in> set rm)"
    using turns assms(4) by blast
  have "\<exists>c \<in> set (clients d'). answered f run (clients d ! i) c res"
    if "exchanged (request_envs env i) f run (clients d ! i) reg (before_request env i s) res reg' s'" for f run res reg' s'
  proof -
    from exchanged_in_turn [OF that turn assms(5,6)]
    have r: "i \<notin> set rm" "answered f run (clients d ! i) (cs' ! i) res" by auto
    have "cs' ! i \<in> set (clients d')" using r(1) assms(4) kept by (force simp: set_nths nth_append)
    with r(2) show ?thesis by blast
  qed
  with before inv show thesis by (rule that)
qed

section \<open>Properties\<close>

text \<open>
  C2: Attaching works end to end, for the three attach operations of the client (the one of
  \<open>connect\<close> attaches the clock).  When the daemon has been sent the attach request for a name,
  its socket has room and the calls for descriptors succeed, then it changes nothing and its
  reply, however it is cut, gives the client the memory of the interlock registered under that
  name; a name that is not registered gives the not-found error, with the daemon's text.
\<close>

theorem attach_end_to_end:
  assumes "run = attach_interlock k region_of name \<and> name \<noteq> ''clock'' \<or>
      run = attach_wait_counter k region_of name \<or>
      run = (\<lambda>c. client_connect (Inr c) k region_of) \<and> name = ''clock''"
    and "encode_request (AttachInterlock name) = Inr f" and "utf8_string name" and "length name \<le> 3981"
    and "hears d f" and "0 \<le> dup_ret env" and "mmap_ret k = Mapped"
    and "\<And>e. by_name reg name = Some e \<Longrightarrow> region_of (word_of_int (dup_ret env)) = e_handle e"
  shows "exchanged env f run d reg s
    (case by_name reg name of
       Some e \<Rightarrow> Inr (e_handle e)
     | None \<Rightarrow> Inl (Sdk_InterlockNotFound (''InterlockNotFound: InterlockNotFound: '' @ name))) reg s"
  by (rule attach_exchanged [OF assms])

text \<open>
  C1: Creating works end to end, for each of the five create operations of the client.  The
  daemon ends in the registry and the memory that \<open>create\<close> leaves for the fields of the
  operation's request, the client has the memory of the new interlock, and a condition that
  \<open>create\<close> reports arrives as the SDK's error for it.
\<close>

theorem create_end_to_end:
  assumes "api_create k region_of run (CreateInterlock name t wn ww ival conds) tr"
    and "encode_request (CreateInterlock name t wn ww ival conds) = Inr f" and "hears d f"
    and "create (alloc env) (reap_gap env) (create_now env) name tr wn ww ival conds reg s = Some (out, reg', s')"
    and "0 \<le> dup_ret env" and "mmap_ret k = Mapped"
    and "case out of Inr (i, h) \<Rightarrow> region_of (word_of_int (dup_ret env)) = h | Inl e \<Rightarrow> text_fits e"
  shows "exchanged env f run d reg s
    (case out of Inr (i, h) \<Rightarrow> Inr h | Inl e \<Rightarrow> Inl (error_of_condition e)) reg' s'"
  by (rule create_exchanged [OF assms])

text \<open>
  C4: A create request is answered in the cycle that reads it, whatever the other clients do.
  When the stream of a connected client of a well-formed daemon holds the request of a create
  operation and poll reports it, the cycle serves it once the clients before it have been served; the
  client is kept; and the reply on its stream at the end of the cycle gives the operation the memory of the new
  interlock, or the error that \<open>create\<close> reported.  The descriptor and the length of an error's
  text are as in the exchange alone.
\<close>

theorem create_answered_in_cycle:
  assumes "daemon_inv d" and "env_of_clients env" and "daemon_cycle env d = Some (Inr d')"
    and "i < length (clients d)" and "\<not> hup_or_err (client_revents env i)" and "pollin (client_revents env i)"
    and "api_create k region_of run (CreateInterlock name t wn ww ival conds) tr"
    and "encode_request (CreateInterlock name t wn ww ival conds) = Inr f" and "hears (clients d ! i) f"
    and "0 \<le> dup_ret (request_envs env i)" and "mmap_ret k = Mapped"
  shows "\<exists>fresh gone cs1 reg s out reg' s'.
    serve_clients env [0..<i] (clients d @ fresh) (reg_of d) (shm_of d) = Some (gone, cs1, reg, s) \<and>
    create (alloc (request_envs env i)) (reap_gap (request_envs env i)) (create_now (request_envs env i))
      name tr wn ww ival conds reg (before_request env i s) = Some (out, reg', s') \<and> registry_inv reg' s' \<and>
    ((case out of Inr (j, h) \<Rightarrow> region_of (word_of_int (dup_ret (request_envs env i))) = h | Inl e \<Rightarrow> text_fits e) \<longrightarrow>
     (\<exists>c \<in> set (clients d'). answered f run (clients d ! i) c
        (case out of Inr (j, h) \<Rightarrow> Inr h | Inl e \<Rightarrow> Inl (error_of_condition e))))"
proof -
  let ?env = "request_envs env i"
  obtain fresh gone cs1 reg s where
    before: "serve_clients env [0..<i] (clients d @ fresh) (reg_of d) (shm_of d) = Some (gone, cs1, reg, s)"
    and inv: "registry_inv reg (before_request env i s)"
    and answer: "\<And>f run res reg' s'. exchanged ?env f run (clients d ! i) reg (before_request env i s) res reg' s' \<Longrightarrow>
      \<exists>c \<in> set (clients d'). answered f run (clients d ! i) c res"
    by (rule cycle_turn [OF assms(1-6)]) blast
  obtain out reg' s' where
    c: "create (alloc ?env) (reap_gap ?env) (create_now ?env) name tr wn ww ival conds reg (before_request env i s) =
      Some (out, reg', s')"
    using create_total [OF inv] by (metis option.exhaust prod_cases3)
  have "allocates (reap_gap ?env j)" for j
    using env_of_clients_grow(5) [OF assms(2)] by (simp add: expirations_grow_def)
  then have "registry_inv reg' s'" using create_inv [OF inv c] by blast
  with before c answer [OF create_exchanged [OF assms(7-9) c assms(10,11)]] show ?thesis by blast
qed

text \<open>An attach request likewise, from the table as the clients before it have left it.\<close>

theorem attach_answered_in_cycle:
  assumes "daemon_inv d" and "env_of_clients env" and "daemon_cycle env d = Some (Inr d')"
    and "i < length (clients d)" and "\<not> hup_or_err (client_revents env i)" and "pollin (client_revents env i)"
    and "run = attach_interlock k region_of name \<and> name \<noteq> ''clock'' \<or>
      run = attach_wait_counter k region_of name \<or>
      run = (\<lambda>c. client_connect (Inr c) k region_of) \<and> name = ''clock''"
    and "encode_request (AttachInterlock name) = Inr f" and "utf8_string name" and "length name \<le> 3981"
    and "hears (clients d ! i) f" and "0 \<le> dup_ret (request_envs env i)" and "mmap_ret k = Mapped"
  shows "\<exists>fresh gone cs1 reg s.
    serve_clients env [0..<i] (clients d @ fresh) (reg_of d) (shm_of d) = Some (gone, cs1, reg, s) \<and>
    ((\<forall>e. by_name reg name = Some e \<longrightarrow> region_of (word_of_int (dup_ret (request_envs env i))) = e_handle e) \<longrightarrow>
     (\<exists>c \<in> set (clients d'). answered f run (clients d ! i) c
        (case by_name reg name of
           Some e \<Rightarrow> Inr (e_handle e)
         | None \<Rightarrow> Inl (Sdk_InterlockNotFound (''InterlockNotFound: InterlockNotFound: '' @ name)))))"
proof -
  obtain fresh gone cs1 reg s where
    before: "serve_clients env [0..<i] (clients d @ fresh) (reg_of d) (shm_of d) = Some (gone, cs1, reg, s)"
    and answer: "\<And>f run res reg' s'.
      exchanged (request_envs env i) f run (clients d ! i) reg (before_request env i s) res reg' s' \<Longrightarrow>
      \<exists>c \<in> set (clients d'). answered f run (clients d ! i) c res"
    by (rule cycle_turn [OF assms(1-6)]) blast
  have "\<exists>c \<in> set (clients d'). answered f run (clients d ! i) c
      (case by_name reg name of
         Some e \<Rightarrow> Inr (e_handle e)
       | None \<Rightarrow> Inl (Sdk_InterlockNotFound (''InterlockNotFound: InterlockNotFound: '' @ name)))"
    if "\<forall>e. by_name reg name = Some e \<longrightarrow> region_of (word_of_int (dup_ret (request_envs env i))) = e_handle e"
    by (rule answer [OF attach_exchanged [OF assms(7-13)]]) (use that in simp)
  with before show ?thesis by (intro exI conjI impI)
qed

text \<open>
  Client and daemon agree on the state of an interlock.  The state a client computes from
  an entry's three words is Expired exactly when the evaluation pass, at the same time, would
  remove the entry, and Open exactly when the pass would look at its contract.
\<close>

theorem client_daemon_agree:
  "(interlock_state (load (e_handle e) Open_Word s) (load (e_handle e) Closed_Word s)
      (load (e_handle e) Expiration_Word s) now = State_Expired) = entry_dead now e s \<and>
   (interlock_state (load (e_handle e) Open_Word s) (load (e_handle e) Closed_Word s)
      (load (e_handle e) Expiration_Word s) now = State_Open) = (\<not> entry_dead now e s \<and> entry_open e s)"
  by (auto simp: interlock_state_def entry_dead_def entry_open_def interlock_is_terminated_def
      expiration_alive_def Let_def)

section \<open>Witnesses\<close>

definition sample_request_env :: request_env where
  "sample_request_env = \<lparr>alloc = good_replies, reap_gap = no_gap, create_now = 7000, dup_ret = 9, dup_errno = 0\<rparr>"

definition sample_peer :: "u8 list \<Rightarrow> connection" where
  "sample_peer f = \<lparr>incoming = [Bytes f], replies = [Wrote 5000], sent = [], sent_fds = []\<rparr>"

lemma sample_hears: "f \<noteq> [] \<Longrightarrow> hears (sample_peer f) f"
  by (simp add: hears_def sample_peer_def LENGTH_PREFIX_BYTES_def MAX_MESSAGE_SIZE_def)

lemma sample_attach_frame: "\<exists>f. encode_request (AttachInterlock ''a'') = Inr f \<and> f \<noteq> []"
  by (simp add: encode_request_def encode_string_def Let_def frame_of_def MAX_MESSAGE_SIZE_def
      flip: length_greater_0_conv)

lemma attach_end_to_end_witness:
  "\<exists>f. encode_request (AttachInterlock ''a'') = Inr f \<and>
     exchanged sample_request_env f (attach_interlock good_replies (\<lambda>_. 1) ''a'') (sample_peer f)
       sample_registry (sample_shm 6000000000) (Inr 1) sample_registry (sample_shm 6000000000)"
proof -
  obtain f where f: "encode_request (AttachInterlock ''a'') = Inr f" "f \<noteq> []"
    using sample_attach_frame by blast
  obtain e where e: "by_name sample_registry ''a'' = Some e" "e_handle e = 1"
    by (simp add: sample_registry_def)
  from attach_end_to_end [OF _ f(1) _ _ sample_hears [OF f(2)], of "attach_interlock good_replies (\<lambda>_. 1) ''a''"
      good_replies "\<lambda>_. 1" sample_request_env sample_registry "sample_shm 6000000000"] f(1) e show ?thesis
    by (auto simp: sample_request_env_def utf8_string_ascii)
qed

lemma create_end_to_end_witness:
  "\<exists>f reg' s'. exchanged sample_request_env f (create_wait_timer good_replies (\<lambda>_. 4) ''a'')
     (sample_peer f) sample_registry (sample_shm 1000) (Inr 4) reg' s'"
proof -
  have api: "api_create good_replies (\<lambda>_. 4) (create_wait_timer good_replies (\<lambda>_. 4) ''a'')
      (CreateInterlock ''a'' 2 None None None None) WaitTimer"
    by (rule api_create.timer) (simp add: utf8_string_ascii)
  obtain f where f: "encode_request (CreateInterlock ''a'' 2 None None None None) = Inr f" "f \<noteq> []"
    by (simp add: encode_request_def encode_tier_fields_def encode_string_def Let_def frame_of_def
        MAX_MESSAGE_SIZE_def flip: length_greater_0_conv)
  obtain reg' s' where "sample_timer = Some (Inr (5, 4), reg', s')" using sample_timer_Some by blast
  with create_end_to_end [OF api f(1) sample_hears [OF f(2)], of sample_request_env
      sample_registry "sample_shm 1000" "Inr (5, 4)" reg' s'] show ?thesis
    by (auto simp: sample_request_env_def)
qed

text \<open>A daemon whose only client has asked for a timer.\<close>

definition asking_env :: cycle_env where
  "asking_env = busy_env\<lparr>before_request := (\<lambda>_ s. s), request_envs := (\<lambda>_. sample_request_env),
     client_revents := (\<lambda>i. \<lparr>hup_or_err = False, pollin = True\<rparr>)\<rparr>"

lemma asking_env: "env_of_clients asking_env"
  using busy_env by (simp add: asking_env_def env_all_def client_behaviour_def sample_request_env_def)

lemma create_answered_in_cycle_witness:
  "\<exists>f d'. daemon_cycle asking_env (sample_daemon\<lparr>clients := [sample_peer f]\<rparr>) = Some (Inr d') \<and>
     (\<exists>c \<in> set (clients d'). answered f (create_wait_timer good_replies (\<lambda>_. 4) ''a'') (sample_peer f) c (Inr 4))"
proof -
  have api: "api_create good_replies (\<lambda>_. 4) (create_wait_timer good_replies (\<lambda>_. 4) ''a'')
      (CreateInterlock ''a'' 2 None None None None) WaitTimer"
    by (rule api_create.timer) (simp add: utf8_string_ascii)
  obtain f where f: "encode_request (CreateInterlock ''a'' 2 None None None None) = Inr f" "f \<noteq> []"
    by (simp add: encode_request_def encode_tier_fields_def encode_string_def Let_def frame_of_def
        MAX_MESSAGE_SIZE_def flip: length_greater_0_conv)
  let ?d = "sample_daemon\<lparr>clients := [sample_peer f]\<rparr>"
  have inv: "daemon_inv ?d" using sample_daemon(1) by (simp add: daemon_inv_def)
  obtain reg' s' where timer: "sample_timer = Some (Inr (5, 4), reg', s')" using sample_timer_Some by blast
  with create_exchanged [OF api f(1) sample_hears [OF f(2)], of sample_request_env
      sample_registry "sample_shm 1000" "Inr (5, 4)" reg' s']
  obtain c where "handle_client_request sample_request_env (sample_peer f) sample_registry (sample_shm 1000) =
      Some (Inr (), c, reg', s')"
    by (auto simp: sample_request_env_def exchanged_def)
  then have serve: "serve_clients asking_env [0..<length (clients ?d)] (clients ?d) (reg_of ?d) (shm_of ?d) =
      Some ([], [c], reg', s')"
    by (simp add: asking_env_def sample_daemon_def)
  from cycle_completes [OF inv _ _ serve asking_env, of "\<lambda>s. s"]
  obtain d' where d': "daemon_cycle asking_env ?d = Some (Inr d')"
    by (auto simp: asking_env_def busy_env_def sample_env_def)
  from create_answered_in_cycle [OF inv asking_env d', of 0, OF _ _ _ api f(1)] sample_hears [OF f(2)] timer
  have "\<exists>c \<in> set (clients d'). answered f (create_wait_timer good_replies (\<lambda>_. 4) ''a'') (sample_peer f) c (Inr 4)"
    by (auto simp: asking_env_def sample_request_env_def sample_daemon_def)
  with d' show ?thesis by blast
qed

end
